(* ===== verification/Prelude.thy ===== *)
theory Prelude
  imports Main "HOL-Library.Word" "HOL-Library.Finite_Map"
begin

unbundle bit_operations_syntax

text \<open>
  Shared vocabulary of the development: the outcome type of a Rust computation, checked reads
  and writes of byte slices, the integer operations of the Rust standard library that the
  stack uses, and big-endian encodings.  The lemmas of this theory are the rewrite rules the
  component theories rely on.

  Conventions.  A \<open>usize\<close> or \<open>u64\<close> that is only compared, added and saturated is a
  \<^typ>\<open>nat\<close> and every saturating, checked or wrapping operation of the source is written out
  (targets with 64-bit \<open>usize\<close>); values whose wrap-around is part of the protocol (sequence
  numbers, checksums, header fields, bit sets) are words of their width.  Plain \<open>+\<close> and
  \<open>-\<close> of the release profile wrap: \<open>wadd\<close> and \<open>wsub\<close>.
\<close>

section \<open>Outcomes\<close>

type_synonym u8 = "8 word"
type_synonym u16 = "16 word"
type_synonym u32 = "32 word"
type_synonym u64 = "64 word"
type_synonym bytes = "u8 list"

text \<open>
  \<open>Ok\<close> and \<open>Err\<close> are the two constructors of \<open>Result\<close>; \<open>Panic\<close> is an index or slice out
  of range, a failed \<open>expect\<close>, or a failed \<open>assert!\<close>.
\<close>

datatype ('e, 'a) res = Ok 'a | Err 'e | Panic

primrec and_then :: "('e, 'a) res \<Rightarrow> ('a \<Rightarrow> ('e, 'b) res) \<Rightarrow> ('e, 'b) res" where
  "and_then (Ok x) f = f x"
| "and_then (Err e) f = Err e"
| "and_then Panic f = Panic"

primrec map_err :: "('e \<Rightarrow> 'f) \<Rightarrow> ('e, 'a) res \<Rightarrow> ('f, 'a) res" where
  "map_err g (Ok x) = Ok x"
| "map_err g (Err e) = Err (g e)"
| "map_err g Panic = Panic"

definition ok_or :: "'a option \<Rightarrow> 'e \<Rightarrow> ('e, 'a) res" where
  "ok_or opt e = (case opt of None \<Rightarrow> Err e | Some x \<Rightarrow> Ok x)"

definition ensure :: "bool \<Rightarrow> 'e \<Rightarrow> ('e, unit) res" where
  "ensure b e = (if b then Ok () else Err e)"

section \<open>Slices\<close>

text \<open>\<open>xs[i]\<close>, \<open>&xs[a..b]\<close>, \<open>xs[i] = v\<close> and \<open>xs[a..b].copy_from_slice(ys)\<close>.\<close>

definition idx :: "'a list \<Rightarrow> nat \<Rightarrow> ('e, 'a) res" where
  "idx xs i = (if i < length xs then Ok (xs ! i) else Panic)"

definition slice :: "'a list \<Rightarrow> nat \<Rightarrow> nat \<Rightarrow> ('e, 'a list) res" where
  "slice xs a b = (if a \<le> b \<and> b \<le> length xs then Ok (take (b - a) (drop a xs)) else Panic)"

definition store :: "'a list \<Rightarrow> nat \<Rightarrow> 'a \<Rightarrow> ('e, 'a list) res" where
  "store xs i v = (if i < length xs then Ok (xs[i := v]) else Panic)"

definition copy_at :: "'a list \<Rightarrow> nat \<Rightarrow> nat \<Rightarrow> 'a list \<Rightarrow> ('e, 'a list) res" where
  "copy_at xs a b ys =
     (if a \<le> b \<and> b \<le> length xs \<and> length ys = b - a then Ok (take a xs @ ys @ drop b xs) else Panic)"

definition get_opt :: "'a list \<Rightarrow> nat \<Rightarrow> 'a option" where
  "get_opt xs i = (if i < length xs then Some (xs ! i) else None)"

section \<open>Integer operations\<close>

abbreviation usize_max :: nat where "usize_max \<equiv> 18446744073709551615"
abbreviation u64_max :: nat where "u64_max \<equiv> 18446744073709551615"
abbreviation u64_size :: nat where "u64_size \<equiv> 18446744073709551616"
abbreviation u32_max :: nat where "u32_max \<equiv> 4294967295"
abbreviation u16_max :: nat where "u16_max \<equiv> 65535"
abbreviation u8_max :: nat where "u8_max \<equiv> 255"

definition sat_add :: "nat \<Rightarrow> nat \<Rightarrow> nat" where
  "sat_add a b = min (a + b) u64_max"

definition sat_sub :: "nat \<Rightarrow> nat \<Rightarrow> nat" where
  "sat_sub a b = a - b"

definition sat_mul :: "nat \<Rightarrow> nat \<Rightarrow> nat" where
  "sat_mul a b = min (a * b) u64_max"

definition checked_add :: "nat \<Rightarrow> nat \<Rightarrow> nat option" where
  "checked_add a b = (if a + b \<le> u64_max then Some (a + b) else None)"

definition checked_sub :: "nat \<Rightarrow> nat \<Rightarrow> nat option" where
  "checked_sub a b = (if b \<le> a then Some (a - b) else None)"

definition wadd :: "nat \<Rightarrow> nat \<Rightarrow> nat" where
  "wadd a b = (a + b) mod u64_size"

definition wsub :: "nat \<Rightarrow> nat \<Rightarrow> nat" where
  "wsub a b = (a + u64_size - b) mod u64_size"

definition div_ceil :: "nat \<Rightarrow> nat \<Rightarrow> nat" where
  "div_ceil a b = (if a mod b = 0 then a div b else a div b + 1)"

definition next_multiple_of :: "nat \<Rightarrow> nat \<Rightarrow> nat" where
  "next_multiple_of a b = (if a mod b = 0 then a else a + (b - a mod b))"

definition abs_diff :: "nat \<Rightarrow> nat \<Rightarrow> nat" where
  "abs_diff a b = (if a \<le> b then b - a else a - b)"

definition clamp :: "nat \<Rightarrow> nat \<Rightarrow> nat \<Rightarrow> nat" where
  "clamp lo hi x = (if x < lo then lo else if hi < x then hi else x)"

text \<open>\<open>u16::try_from\<close> and \<open>u32::try_from\<close> of a \<open>usize\<close>.\<close>

definition try_u16 :: "nat \<Rightarrow> u16 option" where
  "try_u16 n = (if n \<le> u16_max then Some (word_of_nat n) else None)"

definition try_u32 :: "nat \<Rightarrow> u32 option" where
  "try_u32 n = (if n \<le> u32_max then Some (word_of_nat n) else None)"

section \<open>Byte order\<close>

definition be16 :: "u8 \<Rightarrow> u8 \<Rightarrow> u16" where
  "be16 a b = word_of_nat (unat a * 256 + unat b)"

definition be32 :: "u8 \<Rightarrow> u8 \<Rightarrow> u8 \<Rightarrow> u8 \<Rightarrow> u32" where
  "be32 a b c d = word_of_nat (((unat a * 256 + unat b) * 256 + unat c) * 256 + unat d)"

definition le32 :: "u8 \<Rightarrow> u8 \<Rightarrow> u8 \<Rightarrow> u8 \<Rightarrow> u32" where
  "le32 a b c d = be32 d c b a"

definition to_be16 :: "u16 \<Rightarrow> bytes" where
  "to_be16 w = [ucast (drop_bit 8 w), ucast w]"

definition to_be32 :: "u32 \<Rightarrow> bytes" where
  "to_be32 w = [ucast (drop_bit 24 w), ucast (drop_bit 16 w), ucast (drop_bit 8 w), ucast w]"

section \<open>Shared lemmas\<close>

named_theorems slice_simps \<open>reads and writes that stay in range\<close>
named_theorems int_simps \<open>saturating, checked and wrapping operations away from their bounds\<close>

subsection \<open>Outcomes\<close>

lemma and_then_Ok_iff: "and_then r f = Ok y \<longleftrightarrow> (\<exists>x. r = Ok x \<and> f x = Ok y)"
  by (cases r) auto

lemma and_then_Err_iff: "and_then r f = Err e \<longleftrightarrow> r = Err e \<or> (\<exists>x. r = Ok x \<and> f x = Err e)"
  by (cases r) auto

lemma and_then_Panic_iff: "and_then r f = Panic \<longleftrightarrow> r = Panic \<or> (\<exists>x. r = Ok x \<and> f x = Panic)"
  by (cases r) auto

lemma and_then_cong:
  "r = r' \<Longrightarrow> (\<And>x. r' = Ok x \<Longrightarrow> f x = g x) \<Longrightarrow> and_then r f = and_then r' g"
  by (cases r') auto

lemma and_then_assoc: "and_then (and_then r f) g = and_then r (\<lambda>x. and_then (f x) g)"
  by (cases r) auto

lemma ok_or_simps [simp]: "ok_or (Some x) e = Ok x" "ok_or None e = Err e" "ok_or opt e \<noteq> Panic"
  by (simp_all add: ok_or_def split: option.split)

lemma ensure_simps [simp]:
  "ensure True e = Ok ()" "ensure False e = Err e" "ensure b e \<noteq> Panic"
  "ensure b e = Ok u \<longleftrightarrow> b" "ensure b e = Err e' \<longleftrightarrow> \<not> b \<and> e' = e"
  by (auto simp: ensure_def)

lemma ensure_bind: "and_then (ensure b e) f = (if b then f () else Err e)"
  by (simp add: ensure_def)

subsection \<open>Slices\<close>

lemma idx_Ok [slice_simps]: "i < length xs \<Longrightarrow> idx xs i = Ok (xs ! i)"
  by (simp add: idx_def)

lemma slice_Ok [slice_simps]:
  "a \<le> b \<Longrightarrow> b \<le> length xs \<Longrightarrow> slice xs a b = Ok (take (b - a) (drop a xs))"
  by (simp add: slice_def)

lemma store_Ok [slice_simps]: "i < length xs \<Longrightarrow> store xs i v = Ok (xs[i := v])"
  by (simp add: store_def)

lemma copy_at_Ok [slice_simps]:
  "a \<le> b \<Longrightarrow> b \<le> length xs \<Longrightarrow> length ys = b - a \<Longrightarrow>
   copy_at xs a b ys = Ok (take a xs @ ys @ drop b xs)"
  by (simp add: copy_at_def)

lemma idx_Ok_iff: "idx xs i = Ok x \<longleftrightarrow> i < length xs \<and> x = xs ! i"
  by (auto simp: idx_def)

lemma slice_Ok_iff: "slice xs a b = Ok ys \<longleftrightarrow> a \<le> b \<and> b \<le> length xs \<and> ys = take (b - a) (drop a xs)"
  by (auto simp: slice_def)

lemma idx_Panic_iff: "idx xs i = Panic \<longleftrightarrow> length xs \<le> i"
  by (auto simp: idx_def)

lemma slice_Panic_iff: "slice xs a b = Panic \<longleftrightarrow> \<not> (a \<le> b \<and> b \<le> length xs)"
  by (auto simp: slice_def)

lemmas panic_iffs = and_then_Panic_iff idx_Panic_iff slice_Panic_iff

lemma idx_not_Err [simp]: "idx xs i \<noteq> Err e"
  by (simp add: idx_def)

lemma slice_not_Err [simp]: "slice xs a b \<noteq> Err e"
  by (simp add: slice_def)

lemma length_slice: "slice xs a b = Ok ys \<Longrightarrow> length ys = b - a"
  by (auto simp: slice_Ok_iff)

lemma length_copy_at: "copy_at xs a b ys = Ok zs \<Longrightarrow> length zs = length xs"
  by (auto simp: copy_at_def split: if_splits)

lemma length_store: "store xs i v = Ok zs \<Longrightarrow> length zs = length xs"
  by (auto simp: store_def split: if_splits)

subsection \<open>Integers\<close>

lemma sat_add_small [int_simps]: "a + b \<le> u64_max \<Longrightarrow> sat_add a b = a + b"
  by (simp add: sat_add_def)

lemma sat_add_bound [simp]: "sat_add a b \<le> u64_max"
  by (simp add: sat_add_def)

lemma sat_mul_small [int_simps]: "a * b \<le> u64_max \<Longrightarrow> sat_mul a b = a * b"
  by (simp add: sat_mul_def)

lemma sat_mul_bound [simp]: "sat_mul a b \<le> u64_max"
  by (simp add: sat_mul_def)

lemma checked_add_small [int_simps]: "a + b \<le> u64_max \<Longrightarrow> checked_add a b = Some (a + b)"
  by (simp add: checked_add_def)

lemma wadd_small [int_simps]: "a + b \<le> u64_max \<Longrightarrow> wadd a b = a + b"
  by (simp add: wadd_def)

lemma wsub_small [int_simps]:
  assumes "b \<le> a" "a \<le> u64_max" shows "wsub a b = a - b"
proof -
  have "a + u64_size - b = (a - b) + u64_size" using assms by simp
  moreover have "a - b < u64_size" using assms by simp
  ultimately show ?thesis unfolding wsub_def by (simp only: mod_add_self2 mod_less)
qed

lemma div_ceil_eq: "0 < b \<Longrightarrow> div_ceil a b = (a + b - 1) div b"
proof -
  assume b: "0 < b"
  have a: "a = b * (a div b) + a mod b" by simp
  show ?thesis
  proof (cases "a mod b = 0")
    case True
    then have "a + b - 1 = (b - 1) + b * (a div b)" using a b by linarith
    then have "(a + b - 1) div b = a div b + (b - 1) div b" using b by (simp only: div_mult_self2)
    then have "(a + b - 1) div b = a div b" using b by simp
    with True show ?thesis by (simp add: div_ceil_def)
  next
    case False
    have "b * (a div b + 1) = b * (a div b) + b" by simp
    with False have "a + b - 1 = (a mod b - 1) + b * (a div b + 1)" using a b by linarith
    moreover have "a mod b - 1 < b" using b by (simp add: less_imp_diff_less)
    ultimately have "(a + b - 1) div b = a div b + 1 + (a mod b - 1) div b" using b
      by (simp only: div_mult_self2)
    moreover have "(a mod b - 1) div b = 0" using \<open>a mod b - 1 < b\<close> by simp
    ultimately have "(a + b - 1) div b = a div b + 1" by simp
    with False show ?thesis by (simp add: div_ceil_def)
  qed
qed

lemma div_ceil_le_iff: "0 < b \<Longrightarrow> div_ceil a b \<le> c \<longleftrightarrow> a \<le> c * b"
proof -
  assume b: "0 < b"
  have "(a + b - 1) div b \<le> c \<longleftrightarrow> (a + b - 1) div b < c + 1" by linarith
  also have "\<dots> \<longleftrightarrow> a + b - 1 < (c + 1) * b" using b by (simp add: div_less_iff_less_mult)
  also have "\<dots> \<longleftrightarrow> a \<le> c * b" using b by (simp add: algebra_simps) linarith
  finally show ?thesis using b by (simp add: div_ceil_eq)
qed

lemma clamp_bounds: "lo \<le> hi \<Longrightarrow> lo \<le> clamp lo hi x \<and> clamp lo hi x \<le> hi"
  by (simp add: clamp_def)

subsection \<open>Byte order\<close>

lemma unat_u8_bound [simp]: "unat (x :: u8) < 256" "unat (x :: u8) \<le> 255"
proof -
  have "unat x < 2 ^ LENGTH(8)" by (rule unsigned_less)
  then show "unat x < 256" "unat x \<le> 255" by simp_all
qed

lemma unat_u16_bound [simp]: "unat (x :: u16) < 65536" "unat (x :: u16) \<le> 65535"
proof -
  have "unat x < 2 ^ LENGTH(16)" by (rule unsigned_less)
  then show "unat x < 65536" "unat x \<le> 65535" by simp_all
qed

lemma unat_u32_bound [simp]: "unat (x :: u32) < 4294967296" "unat (x :: u32) \<le> 4294967295"
proof -
  have "unat x < 2 ^ LENGTH(32)" by (rule unsigned_less)
  then show "unat x < 4294967296" "unat x \<le> 4294967295" by simp_all
qed

lemma unat_ucast_up:
  fixes x :: "'a::len word"
  assumes "LENGTH('a) \<le> LENGTH('b::len)"
  shows "unat (ucast x :: 'b word) = unat x"
proof -
  have "unat x < 2 ^ LENGTH('a)" by (rule unsigned_less)
  also have "\<dots> \<le> 2 ^ LENGTH('b)" using assms by simp
  finally show ?thesis by (simp add: unsigned_ucast_eq take_bit_nat_eq_self)
qed

lemma unat_be16: "unat (be16 a b) = unat a * 256 + unat b"
proof -
  have "unat a * 256 + unat b < 65536"
    using unat_u8_bound(2) [of a] unat_u8_bound(2) [of b] by linarith
  then show ?thesis by (simp only: be16_def unat_of_nat) simp
qed

lemma unat_be32: "unat (be32 a b c d) = ((unat a * 256 + unat b) * 256 + unat c) * 256 + unat d"
proof -
  have "((unat a * 256 + unat b) * 256 + unat c) * 256 + unat d < 4294967296"
    using unat_u8_bound(2) [of a] unat_u8_bound(2) [of b] unat_u8_bound(2) [of c]
      unat_u8_bound(2) [of d] unfolding add_mult_distrib by linarith
  then show ?thesis by (simp only: be32_def unat_of_nat) simp
qed

lemma length_to_be [simp]: "length (to_be16 w) = 2" "length (to_be32 v) = 4"
  by (simp_all add: to_be16_def to_be32_def)

lemma unat_ucast8: "unat (ucast v :: u8) = unat (v :: 'a::len word) mod 256"
proof -
  have "unat (ucast v :: u8) = take_bit 8 (unat v)" by (simp add: unsigned_ucast_eq)
  also have "\<dots> = unat v mod 2 ^ 8" by (rule take_bit_eq_mod)
  finally show ?thesis by simp
qed

lemma unat_drop_div: "unat (drop_bit n (w :: 'a::len word)) = unat w div 2 ^ n"
proof -
  have "unat (drop_bit n w) = drop_bit n (unat w)" by (rule unat_drop_bit_eq)
  also have "\<dots> = unat w div 2 ^ n" by (rule drop_bit_eq_div)
  finally show ?thesis .
qed

lemma be16_to_be16 [simp]: "be16 (ucast (drop_bit 8 w)) (ucast w) = w"
proof -
  have "unat w div 256 < 256" using unat_u16_bound(1) [of w] by (simp add: div_less_iff_less_mult)
  then have "unat (be16 (ucast (drop_bit 8 w)) (ucast w)) = unat w"
    by (simp add: unat_be16 unat_ucast8 unat_drop_div)
  then show ?thesis by (simp only: word_unat_eq_iff)
qed

lemma be32_to_be32 [simp]:
  "be32 (ucast (drop_bit 24 w)) (ucast (drop_bit 16 w)) (ucast (drop_bit 8 w)) (ucast w) = w"
proof -
  have l: "unat w div 16777216 < 256"
    using unat_u32_bound(1) [of w] by (simp add: div_less_iff_less_mult)
  have 3: "((a div 16777216 * 256 + a div 65536 mod 256) * 256 + a div 256 mod 256) * 256 + a mod 256 = a"
    for a :: nat
  proof -
    have "a div 16777216 = a div 65536 div 256" "a div 65536 = a div 256 div 256"
      by (simp_all only: div_mult2_eq [symmetric]) simp_all
    then show ?thesis by (simp only: div_mult_mod_eq)
  qed
  have "unat (be32 (ucast (drop_bit 24 w)) (ucast (drop_bit 16 w)) (ucast (drop_bit 8 w)) (ucast w))
     = ((unat w div 16777216 * 256 + unat w div 65536 mod 256) * 256 + unat w div 256 mod 256) * 256
       + unat w mod 256"
    by (simp add: unat_be32 unat_ucast8 unat_drop_div l)
  then show ?thesis by (simp only: 3 word_unat_eq_iff)
qed

lemma try_u16_simps: "n \<le> 65535 \<Longrightarrow> try_u16 n = Some (word_of_nat n)" "65535 < n \<Longrightarrow> try_u16 n = None"
  by (simp_all add: try_u16_def)

lemma unat_word_of_nat16: "n \<le> 65535 \<Longrightarrow> unat (word_of_nat n :: u16) = n"
  by (simp add: unat_of_nat)

end
