(* ===== verification/Tcp_Control.thy ===== *)
theory Tcp_Control
  imports Prelude
begin

text \<open>
  The three value types of the TCP core: sequence numbers with their modular order
  (\<^verbatim>\<open>tcp/state.rs\<close>), the retransmission-timeout estimator (\<^verbatim>\<open>tcp/rto.rs\<close>) and
  the NewReno congestion controller (\<^verbatim>\<open>tcp/congestion.rs\<close>).
\<close>

section \<open>Sequence numbers\<close>

type_synonym SeqNumber = u32

definition wrapping_add :: "SeqNumber \<Rightarrow> nat \<Rightarrow> SeqNumber" where
  "wrapping_add s amount = s + word_of_nat amount"

definition before :: "SeqNumber \<Rightarrow> SeqNumber \<Rightarrow> bool" where
  "before a b \<longleftrightarrow> sint (a - b) < 0"

definition after :: "SeqNumber \<Rightarrow> SeqNumber \<Rightarrow> bool" where
  "after a b \<longleftrightarrow> before b a"

definition distance_from :: "SeqNumber \<Rightarrow> SeqNumber \<Rightarrow> nat" where
  "distance_from a earlier = unat (a - earlier)"

section \<open>Retransmission timeout\<close>

record RtoEstimator =
  smoothed_rtt_ms :: "nat option"
  rtt_variance_ms :: nat
  rto_ms :: nat

definition MIN_RTO_MS :: nat where "MIN_RTO_MS = 1000"
definition MAX_RTO_MS :: nat where "MAX_RTO_MS = 60000"

definition rto_default :: RtoEstimator where
  "rto_default = \<lparr>smoothed_rtt_ms = None, rtt_variance_ms = 0, rto_ms = MIN_RTO_MS\<rparr>"

definition record_sample :: "RtoEstimator \<Rightarrow> nat \<Rightarrow> RtoEstimator" where
  "record_sample self sample =
     (let sample_ms = max sample 1;
          self = (case smoothed_rtt_ms self of
              Some smoothed \<Rightarrow>
                (let error = abs_diff smoothed sample_ms in
                 self\<lparr>rtt_variance_ms := sat_add (sat_mul (rtt_variance_ms self) 3) error div 4,
                      smoothed_rtt_ms := Some (sat_add (sat_mul smoothed 7) sample_ms div 8)\<rparr>)
            | None \<Rightarrow>
                self\<lparr>smoothed_rtt_ms := Some sample_ms, rtt_variance_ms := sample_ms div 2\<rparr>);
          smoothed = (case smoothed_rtt_ms self of Some s \<Rightarrow> s | None \<Rightarrow> sample_ms)
      in self\<lparr>rto_ms := clamp MIN_RTO_MS MAX_RTO_MS
                (sat_add smoothed (max (sat_mul (rtt_variance_ms self) 4) 1))\<rparr>)"

definition backoff :: "RtoEstimator \<Rightarrow> RtoEstimator" where
  "backoff self = self\<lparr>rto_ms := min (sat_mul (rto_ms self) 2) MAX_RTO_MS\<rparr>"

section \<open>NewReno\<close>

record NewReno =
  maximum_segment_size :: nat
  congestion_window :: nat
  slow_start_threshold :: nat
  congestion_avoidance_credit :: nat
  duplicate_acks :: nat
  recover :: "SeqNumber option"

definition reno_new :: "nat \<Rightarrow> ('e, NewReno) res" where
  "reno_new mss =
     (if \<not> 0 < mss then Panic else
      let initial_window = min (sat_mul mss 4) (max (sat_mul mss 2) 4380) in
      Ok \<lparr>maximum_segment_size = mss, congestion_window = initial_window,
          slow_start_threshold = usize_max, congestion_avoidance_credit = 0,
          duplicate_acks = 0, recover = None\<rparr>)"

definition limited_transmit_allowance :: "NewReno \<Rightarrow> nat" where
  "limited_transmit_allowance self =
     (if recover self \<noteq> None then 0
      else sat_mul (min (duplicate_acks self) 2) (maximum_segment_size self))"

text \<open>
  The growth loop of congestion avoidance.  The segment size is not zero (\<open>reno_new\<close> asserts it
  and nothing writes the field afterwards), so an iteration that subtracts an empty
  window still makes the next window positive: the loop ends.
\<close>

function avoidance_loop :: "nat \<Rightarrow> nat \<Rightarrow> nat \<Rightarrow> nat \<times> nat" where
  "avoidance_loop mss credit cwnd =
     (if 0 < mss \<and> cwnd \<le> credit
      then avoidance_loop mss (credit - cwnd) (sat_add cwnd mss)
      else (credit, cwnd))"
  by pat_completeness auto

termination
  by (relation "measure (\<lambda>(mss, credit, cwnd). 2 * credit + (if cwnd = 0 then 1 else 0))")
     (auto simp: sat_add_def)

declare avoidance_loop.simps [simp del]

definition on_new_ack :: "NewReno \<Rightarrow> nat \<Rightarrow> SeqNumber \<Rightarrow> bool \<times> NewReno" where
  "on_new_ack self acknowledged_bytes acknowledgment =
     (let self = self\<lparr>duplicate_acks := 0\<rparr> in
      case recover self of
        Some r \<Rightarrow>
          if before acknowledgment r then
            (True, self\<lparr>congestion_window :=
               max (sat_add (sat_sub (congestion_window self) acknowledged_bytes)
                     (maximum_segment_size self)) (maximum_segment_size self)\<rparr>)
          else
            (False, self\<lparr>recover := None, congestion_window := slow_start_threshold self,
                         congestion_avoidance_credit := 0\<rparr>)
      | None \<Rightarrow>
          if congestion_window self < slow_start_threshold self then
            (False, self\<lparr>congestion_window :=
               sat_add (congestion_window self) (min acknowledged_bytes (maximum_segment_size self))\<rparr>)
          else
            (let (credit, cwnd) = avoidance_loop (maximum_segment_size self)
                   (sat_add (congestion_avoidance_credit self) acknowledged_bytes)
                   (congestion_window self)
             in (False, self\<lparr>congestion_avoidance_credit := credit, congestion_window := cwnd\<rparr>)))"

definition halved_threshold :: "NewReno \<Rightarrow> nat \<Rightarrow> nat" where
  "halved_threshold self flight_size = max (flight_size div 2) (sat_mul (maximum_segment_size self) 2)"

definition enter_recovery :: "NewReno \<Rightarrow> nat \<Rightarrow> SeqNumber \<Rightarrow> NewReno" where
  "enter_recovery self flight_size snd_nxt =
     (let threshold = halved_threshold self flight_size in
      self\<lparr>slow_start_threshold := threshold,
           congestion_window := sat_add threshold (sat_mul (maximum_segment_size self) 3),
           congestion_avoidance_credit := 0, recover := Some snd_nxt\<rparr>)"

definition on_duplicate_ack :: "NewReno \<Rightarrow> nat \<Rightarrow> SeqNumber \<Rightarrow> bool \<times> NewReno" where
  "on_duplicate_ack self flight_size snd_nxt =
     (if recover self \<noteq> None then
        (False, self\<lparr>congestion_window := sat_add (congestion_window self) (maximum_segment_size self)\<rparr>)
      else
        let self = self\<lparr>duplicate_acks := min (duplicate_acks self + 1) u8_max\<rparr> in
        if duplicate_acks self \<noteq> 3 then (False, self)
        else (True, enter_recovery self flight_size snd_nxt))"

definition reno_on_sack_loss :: "NewReno \<Rightarrow> nat \<Rightarrow> SeqNumber \<Rightarrow> bool \<times> NewReno" where
  "reno_on_sack_loss self flight_size snd_nxt =
     (if recover self \<noteq> None then (False, self)
      else
        let threshold = halved_threshold self flight_size in
        (True, self\<lparr>slow_start_threshold := threshold, congestion_window := threshold,
                    congestion_avoidance_credit := 0, recover := Some snd_nxt\<rparr>))"

definition on_timeout :: "NewReno \<Rightarrow> nat \<Rightarrow> NewReno" where
  "on_timeout self flight_size =
     self\<lparr>slow_start_threshold := halved_threshold self flight_size,
          congestion_window := maximum_segment_size self, congestion_avoidance_credit := 0,
          duplicate_acks := 0, recover := None\<rparr>"

section \<open>Specification vocabulary\<close>

definition rto_wf :: "RtoEstimator \<Rightarrow> bool" where
  "rto_wf e \<longleftrightarrow> MIN_RTO_MS \<le> rto_ms e \<and> rto_ms e \<le> MAX_RTO_MS"

definition reno_wf :: "NewReno \<Rightarrow> bool" where
  "reno_wf r \<longleftrightarrow> 0 < maximum_segment_size r \<and> maximum_segment_size r \<le> usize_max \<and>
     maximum_segment_size r \<le> congestion_window r \<and> congestion_window r \<le> usize_max \<and>
     maximum_segment_size r \<le> slow_start_threshold r \<and> slow_start_threshold r \<le> usize_max \<and>
     duplicate_acks r \<le> u8_max"

section \<open>Sequence arithmetic\<close>

text \<open>Every comparison is reduced to the distance between two numbers, a natural number.\<close>

lemma distance_lt [simp]: "distance_from a b < 4294967296"
proof -
  have "unat (a - b) < 2 ^ LENGTH(32)" by (rule unsigned_less)
  then show ?thesis by (simp add: distance_from_def)
qed

lemma distance_self [simp]: "distance_from a a = 0"
  by (simp add: distance_from_def)

lemma distance_0_iff [simp]: "distance_from a b = 0 \<longleftrightarrow> a = b"
  by (simp add: distance_from_def unsigned_eq_0_iff)

lemma distance_pos_iff: "0 < distance_from a b \<longleftrightarrow> a \<noteq> b"
  using distance_0_iff [of a b] by linarith

lemma sint_neg_iff: "sint (x :: u32) < 0 \<longleftrightarrow> 2147483648 \<le> unat x"
proof -
  have "sint x < 0 \<longleftrightarrow> odd (uint x div 2147483648)"
    by (simp add: sint_uint signed_take_bit_negative_iff bit_iff_odd)
  moreover have "uint x < 4294967296" "0 \<le> uint x" using uint_bounded [of x] by simp_all
  moreover have "uint x div 2147483648 = (if 2147483648 \<le> uint x then 1 else 0)"
    using \<open>uint x < 4294967296\<close> \<open>0 \<le> uint x\<close> by (auto simp: div_pos_geq)
  ultimately have "sint x < 0 \<longleftrightarrow> 2147483648 \<le> uint x" by auto
  moreover have "2147483648 \<le> uint x \<longleftrightarrow> 2147483648 \<le> unat x"
    unfolding unat_eq_nat_uint using le_nat_iff [OF \<open>0 \<le> uint x\<close>, of 2147483648] by linarith
  ultimately show ?thesis by (rule trans)
qed

lemma before_iff: "before a b \<longleftrightarrow> 2147483648 \<le> distance_from a b"
  by (simp add: before_def distance_from_def sint_neg_iff)

lemma complement_mod:
  fixes m :: nat
  assumes "(p + q) mod m = 0" "p < m" "q < m" "0 < p" "0 < q"
  shows "q = m - p"
proof -
  have "m \<le> p + q" using assms by (cases "p + q < m") auto
  then have "(p + q) mod m = (p + q - m) mod m" by (simp add: le_mod_geq)
  moreover have "p + q - m < m" using assms by linarith
  ultimately show ?thesis using assms \<open>m \<le> p + q\<close> by simp
qed

lemma distance_swap: "a \<noteq> b \<Longrightarrow> distance_from b a = 4294967296 - distance_from a b"
proof -
  assume "a \<noteq> b"
  then have pos: "0 < distance_from a b" "0 < distance_from b a" by (auto simp: distance_pos_iff)
  have "(a - b) + (b - a) = 0" by simp
  then have "unat ((a - b) + (b - a)) = 0" by simp
  then have "(distance_from a b + distance_from b a) mod 4294967296 = 0"
    unfolding unat_word_ariths(1) distance_from_def by simp
  moreover have "distance_from a b < 4294967296" "distance_from b a < 4294967296" by simp_all
  ultimately show ?thesis using pos by (intro complement_mod)
qed

lemma after_iff: "after a b \<longleftrightarrow> 0 < distance_from a b \<and> distance_from a b \<le> 2147483648"
  using distance_lt [of a b] distance_swap [of a b]
  by (cases "a = b") (auto simp: after_def before_iff distance_pos_iff)

lemma wrapping_add_0 [simp]: "wrapping_add s 0 = s"
  by (simp add: wrapping_add_def)

lemma wrapping_add_add: "wrapping_add (wrapping_add s m) n = wrapping_add s (m + n)"
  by (simp add: wrapping_add_def add_ac)

lemma unat_small: "n < 4294967296 \<Longrightarrow> unat (word_of_nat n :: u32) = n"
  by (simp add: unat_of_nat)

lemma distance_add_right:
  "n \<le> distance_from e r \<Longrightarrow> distance_from e (wrapping_add r n) = distance_from e r - n"
proof -
  assume n: "n \<le> distance_from e r"
  then have "n < 4294967296" using distance_lt [of e r] by linarith
  then have u: "unat (word_of_nat n :: u32) = n" by (rule unat_small)
  have "e - wrapping_add r n = (e - r) - word_of_nat n" by (simp add: wrapping_add_def)
  moreover have "(word_of_nat n :: u32) \<le> e - r"
    using n u by (simp add: word_le_nat_alt distance_from_def)
  ultimately show ?thesis unfolding distance_from_def by (simp only: unat_sub u)
qed

lemma distance_add_left:
  "distance_from a b + n < 4294967296 \<Longrightarrow> distance_from (wrapping_add a n) b = distance_from a b + n"
proof -
  assume n: "distance_from a b + n < 4294967296"
  then have u: "unat (word_of_nat n :: u32) = n" by (simp add: unat_small)
  have "wrapping_add a n - b = (a - b) + word_of_nat n" by (simp add: wrapping_add_def)
  moreover have "unat (a - b) + unat (word_of_nat n :: u32) < 2 ^ LENGTH(32)"
    using n u by (simp add: distance_from_def)
  then have "unat ((a - b) + word_of_nat n) = unat (a - b) + unat (word_of_nat n :: u32)"
    by (simp only: unat_add_lem)
  ultimately show ?thesis unfolding distance_from_def by (simp only: u)
qed

lemma distance_wrapping_add: "n < 4294967296 \<Longrightarrow> distance_from (wrapping_add a n) a = n"
  using distance_add_left [of a a n] by simp

lemma wrapping_add_distance [simp]: "wrapping_add b (distance_from a b) = a"
  by (simp add: wrapping_add_def distance_from_def)

lemma distance_split:
  "distance_from a b \<le> distance_from c b \<Longrightarrow> distance_from c a = distance_from c b - distance_from a b"
  using distance_add_right [of "distance_from a b" c b] by simp

section \<open>The estimator stays in its range\<close>

lemma rto_default_wf [simp]: "rto_wf rto_default"
  by (simp add: rto_wf_def rto_default_def MIN_RTO_MS_def MAX_RTO_MS_def)

lemma record_sample_wf [simp]: "rto_wf (record_sample e s)"
  using clamp_bounds [of MIN_RTO_MS MAX_RTO_MS]
  by (simp add: rto_wf_def record_sample_def Let_def MIN_RTO_MS_def MAX_RTO_MS_def)

lemma backoff_wf [simp]: "rto_wf e \<Longrightarrow> rto_wf (backoff e)"
  by (auto simp: rto_wf_def backoff_def MIN_RTO_MS_def MAX_RTO_MS_def sat_mul_def min_def)

lemma backoff_rto: "rto_wf e \<Longrightarrow> rto_ms (backoff e) = min (rto_ms e * 2) 60000"
  by (simp add: backoff_def rto_wf_def MAX_RTO_MS_def sat_mul_def min_def)



section \<open>NewReno\<close>

lemma avoidance_loop_bounds:
  assumes "0 < mss" "mss \<le> cwnd" "cwnd \<le> usize_max" "avoidance_loop mss credit cwnd = (credit', cwnd')"
  shows "cwnd \<le> cwnd' \<and> cwnd' \<le> usize_max \<and> credit' < cwnd'"
  using assms
proof (induction mss credit cwnd rule: avoidance_loop.induct)
  case (1 mss credit cwnd)
  show ?case
  proof (cases "cwnd \<le> credit")
    case True
    then have "avoidance_loop mss (credit - cwnd) (sat_add cwnd mss) = (credit', cwnd')"
      using 1(5) 1(2) by (simp add: avoidance_loop.simps [of mss credit cwnd])
    moreover have "mss \<le> sat_add cwnd mss" "cwnd \<le> sat_add cwnd mss" using 1(3,4) by (simp_all add: sat_add_def)
    ultimately have "sat_add cwnd mss \<le> cwnd' \<and> cwnd' \<le> usize_max \<and> credit' < cwnd'"
      using 1(1) 1(2) True by simp
    with \<open>cwnd \<le> sat_add cwnd mss\<close> show ?thesis by linarith
  next
    case False
    then show ?thesis using 1(4,5) by (simp add: avoidance_loop.simps [of mss credit cwnd])
  qed
qed

lemma halved_threshold_bounds:
  "reno_wf r \<Longrightarrow> maximum_segment_size r \<le> halved_threshold r f"
  "f \<le> usize_max \<Longrightarrow> halved_threshold r f \<le> usize_max"
  by (auto simp: halved_threshold_def reno_wf_def sat_mul_def)

lemma reno_new_wf: "0 < mss \<Longrightarrow> mss \<le> usize_max \<Longrightarrow> \<exists>r. reno_new mss = Ok r \<and> reno_wf r \<and> maximum_segment_size r = mss"
  by (auto simp: reno_new_def reno_wf_def Let_def sat_mul_def)

lemma sat_add_ge: "a \<le> u64_max \<Longrightarrow> a \<le> sat_add a b" "b \<le> u64_max \<Longrightarrow> b \<le> sat_add a b"
  by (simp_all add: sat_add_def)

lemma on_new_ack_wf [simp]:
  assumes "reno_wf r" shows "reno_wf (snd (on_new_ack r n a))"
proof (cases "recover r")
  case None
  obtain c w where cw: "avoidance_loop (maximum_segment_size r)
      (sat_add (congestion_avoidance_credit r) n) (congestion_window r) = (c, w)" by fastforce
  then have "congestion_window r \<le> w" "w \<le> usize_max"
    using avoidance_loop_bounds [OF _ _ _ cw] assms by (simp_all add: reno_wf_def)
  then show ?thesis using assms None sat_add_ge(1) [of "congestion_window r"]
    by (auto simp: on_new_ack_def Let_def reno_wf_def cw intro: order_trans)
next
  case (Some s)
  then show ?thesis using assms by (auto simp: on_new_ack_def Let_def reno_wf_def)
qed

lemma on_duplicate_ack_wf [simp]: "reno_wf r \<Longrightarrow> f \<le> usize_max \<Longrightarrow> reno_wf (snd (on_duplicate_ack r f s))"
  using halved_threshold_bounds(1) [of r f] halved_threshold_bounds(2) [of f r]
  by (auto simp: on_duplicate_ack_def enter_recovery_def Let_def reno_wf_def sat_add_def halved_threshold_def)

lemma reno_on_sack_loss_wf [simp]: "reno_wf r \<Longrightarrow> f \<le> usize_max \<Longrightarrow> reno_wf (snd (reno_on_sack_loss r f s))"
  using halved_threshold_bounds(1) [of r f] halved_threshold_bounds(2) [of f r] by (auto simp: reno_on_sack_loss_def Let_def reno_wf_def)

lemma on_timeout_wf [simp]: "reno_wf r \<Longrightarrow> f \<le> usize_max \<Longrightarrow> reno_wf (on_timeout r f)"
  using halved_threshold_bounds(1) [of r f] halved_threshold_bounds(2) [of f r] by (auto simp: on_timeout_def Let_def reno_wf_def)

lemma reno_mss [simp]:
  "maximum_segment_size (snd (on_new_ack r n a)) = maximum_segment_size r"
  "maximum_segment_size (snd (on_duplicate_ack r f s)) = maximum_segment_size r"
  "maximum_segment_size (snd (reno_on_sack_loss r f s)) = maximum_segment_size r"
  "maximum_segment_size (on_timeout r f) = maximum_segment_size r"
  by (simp_all add: on_new_ack_def on_duplicate_ack_def reno_on_sack_loss_def on_timeout_def
      enter_recovery_def Let_def split: option.split prod.split)

text \<open>C16: congestion avoidance grows by at most one segment per window. Outside recovery
and slow start, acknowledging at most one window of bytes raises the window by nothing or by exactly
one segment, keeps the left-over credit below the new window, and never reports a partial acknowledgment.\<close>

theorem congestion_avoidance_linear:
  assumes "reno_wf r" "recover r = None" "slow_start_threshold r \<le> congestion_window r"
    and "congestion_avoidance_credit r < congestion_window r" "n \<le> congestion_window r"
    and "congestion_window r + n + maximum_segment_size r \<le> usize_max"
  shows "\<exists>grown. on_new_ack r n a = (False, grown) \<and>
     (congestion_window grown = congestion_window r \<or>
      congestion_window grown = congestion_window r + maximum_segment_size r) \<and>
     congestion_avoidance_credit grown < congestion_window grown"
proof -
  let ?m = "maximum_segment_size r" and ?w = "congestion_window r"
  define c where "c = congestion_avoidance_credit r + n"
  have s: "sat_add (congestion_avoidance_credit r) n = c" "sat_add ?w ?m = ?w + ?m"
    using assms(4,6) by (simp_all add: c_def sat_add_def)
  have c: "c < ?w + ?w" using assms(4,5) by (simp add: c_def)
  have m: "0 < ?m" using assms(1) by (simp add: reno_wf_def)
  have "avoidance_loop ?m c ?w = (if ?w \<le> c then (c - ?w, ?w + ?m) else (c, ?w))"
  proof (cases "?w \<le> c")
    case True
    have "\<not> ?w + ?m \<le> c - ?w" using c m by linarith
    then show ?thesis using True m s(2)
      by (simp add: avoidance_loop.simps [of ?m c ?w] avoidance_loop.simps [of ?m "c - ?w" "?w + ?m"])
  next
    case False
    then show ?thesis by (simp add: avoidance_loop.simps [of ?m c ?w])
  qed
  then show ?thesis
    using assms(2,3) c by (auto simp: on_new_ack_def Let_def s)
qed

theorem congestion_avoidance_linear_witness:
  "\<exists>grown. on_new_ack \<lparr>maximum_segment_size = 1000, congestion_window = 5000, slow_start_threshold = 4000,
        congestion_avoidance_credit = 4500, duplicate_acks = 0, recover = None\<rparr> 1000 7 = (False, grown) \<and>
     (congestion_window grown = 5000 \<or> congestion_window grown = 5000 + 1000) \<and>
     congestion_avoidance_credit grown < congestion_window grown"
  using congestion_avoidance_linear [of "\<lparr>maximum_segment_size = 1000, congestion_window = 5000,
     slow_start_threshold = 4000, congestion_avoidance_credit = 4500, duplicate_acks = 0, recover = None\<rparr>" 1000 7]
  by (simp add: reno_wf_def)

end
