(* ===== verification/Tcp_State.thy ===== *)
theory Tcp_State
  imports Tcp_Control
begin

text \<open>
  The transmission control block of \<^verbatim>\<open>tcp/state.rs\<close>.  Every method of \<open>TcpTcb\<close> that takes
  \<open>&mut self\<close> is a function from the block to the block it leaves behind and its result; the
  block is returned also where the method fails, because the code may have changed it by then.  A
  helper that pushes onto the caller's \<open>actions\<close> returns the actions it pushes, and the caller
  appends them.
\<close>

section \<open>Segments, events and actions\<close>

type_synonym TcpFlags = u8

definition FIN :: TcpFlags where "FIN = 0x01"
definition SYN :: TcpFlags where "SYN = 0x02"
definition RST :: TcpFlags where "RST = 0x04"
definition ACK :: TcpFlags where "ACK = 0x10"

definition from_bits :: "u8 \<Rightarrow> TcpFlags" where
  "from_bits bits = bits AND 0x1f"

definition flags_union :: "TcpFlags \<Rightarrow> TcpFlags \<Rightarrow> TcpFlags" where
  "flags_union a b = a OR b"

definition contains :: "TcpFlags \<Rightarrow> TcpFlags \<Rightarrow> bool" where
  "contains a b \<longleftrightarrow> a AND b = b"

record TcpSegmentMeta =
  seg_sequence :: SeqNumber
  seg_acknowledgment :: "SeqNumber option"
  seg_flags :: TcpFlags
  seg_window :: u32
  seg_payload_len :: nat

datatype AppEvent = Consumed nat | AppSend nat | AppClose | AppAbort

datatype TimerEvent =
  Retransmission | DelayedAck | Persist | Keepalive | TimeWaitExpired | FinWait2Timeout

datatype TcpState =
  SynSent | SynReceived | Established | FinWait1 | FinWait2 | Closing | CloseWait | LastAck
| TimeWait | Closed

record SendControl =
  ctl_sequence :: SeqNumber
  ctl_acknowledgment :: SeqNumber
  ctl_flags :: TcpFlags
  ctl_window :: u16

datatype TcpAction =
  Send SendControl
| DefensiveAck SendControl
| SendPayload SendControl
| RetransmitPayload SendControl
| DeliverPayload nat
| Accepted
| Connected
| PeerHalfClosed
| ArmRetransmission nat
| DisarmRetransmission
| ArmDelayedAck
| DisarmDelayedAck
| ArmTimeWait
| ChallengeAck
| ConnectionClosed

datatype TcpError =
  InvalidSyn | ReceiveCreditExceeded | ConsumedBeyondBuffered | InvalidSendState
| SendWindowExceeded | SendOutstanding | TcpClosed

section \<open>The control block\<close>

record TcpTcb =
  tcb_state :: TcpState
  recv_next :: SeqNumber
  send_unacked :: SeqNumber
  send_next :: SeqNumber
  recv_capacity :: nat
  recv_buffered :: nat
  advertised_right_edge :: SeqNumber
  update_threshold :: nat
  peer_window :: nat
  send_window_last_seq :: SeqNumber
  send_window_last_ack :: SeqNumber
  receive_window_scale :: nat
  tcb_rto :: RtoEstimator
  congestion :: NewReno
  delayed_ack_pending :: bool
  pending_initial_payload_len :: nat
  pending_initial_fin :: bool
  active_open :: bool

type_synonym tcb_result = "TcpTcb \<times> (TcpError, TcpAction list) res"

text \<open>The quantum of a window scale: at most 14 bits of shift.\<close>

definition advertisable_receive_capacity :: "nat \<Rightarrow> nat \<Rightarrow> nat" where
  "advertisable_receive_capacity available window_scale =
     (let quantum = 2 ^ min window_scale 14;
          representable = u16_max * quantum
      in min available representable div quantum * quantum)"

definition window_update_threshold :: "nat \<Rightarrow> nat \<Rightarrow> nat \<Rightarrow> nat" where
  "window_update_threshold mss reserved scale =
     (let scale_quantum = (if scale < 64 then 2 ^ scale else usize_max)
      in min (max (min (max mss 1) (max (div_ceil reserved 2) 1)) scale_quantum) (max reserved 1))"

definition advertised_window :: "TcpTcb \<Rightarrow> u16" where
  "advertised_window self =
     (let distance = distance_from (advertised_right_edge self) (recv_next self) in
      case try_u16 (distance div 2 ^ receive_window_scale self) of Some w \<Rightarrow> w | None \<Rightarrow> - 1)"

definition control :: "TcpTcb \<Rightarrow> TcpFlags \<Rightarrow> SeqNumber \<Rightarrow> SendControl" where
  "control self flags sequence =
     (let window = (if contains flags SYN then
            (case try_u16 (distance_from (advertised_right_edge self) (recv_next self)) of
               Some w \<Rightarrow> w | None \<Rightarrow> - 1)
          else advertised_window self)
      in \<lparr>ctl_sequence = sequence, ctl_acknowledgment = recv_next self, ctl_flags = flags,
          ctl_window = window\<rparr>)"

definition acceptable_seq :: "TcpTcb \<Rightarrow> SeqNumber" where
  "acceptable_seq self =
     (let edge = wrapping_add (send_unacked self) (peer_window self) in
      if before edge (send_next self) then edge else send_next self)"

definition tcb_ack :: "TcpTcb \<Rightarrow> SendControl" where
  "tcb_ack self = control self ACK (acceptable_seq self)"

subsection \<open>Construction\<close>

definition from_syn_with_options ::
  "TcpSegmentMeta \<Rightarrow> SeqNumber \<Rightarrow> nat \<Rightarrow> nat \<Rightarrow> nat \<Rightarrow> (TcpError, TcpTcb \<times> TcpAction list) res" where
  "from_syn_with_options segment iss reserved mss scale =
     (if \<not> contains (seg_flags segment) SYN \<or> contains (seg_flags segment) ACK \<or>
         contains (seg_flags segment) RST
      then Err InvalidSyn
      else if seg_payload_len segment > reserved then Err ReceiveCreditExceeded
      else
        let rcv_nxt = wrapping_add (seg_sequence segment) 1;
            snd_nxt = wrapping_add iss 1;
            scale = min scale 14;
            advertised_capacity = max (advertisable_receive_capacity reserved scale) (seg_payload_len segment);
            fin = (contains (seg_flags segment) FIN \<and> seg_payload_len segment < advertised_capacity);
            threshold = window_update_threshold mss reserved scale
        in and_then (reno_new mss) (\<lambda>reno.
           let tcb = \<lparr>tcb_state = SynReceived, recv_next = rcv_nxt, send_unacked = iss,
                 send_next = snd_nxt, recv_capacity = reserved, recv_buffered = 0,
                 advertised_right_edge = wrapping_add rcv_nxt advertised_capacity,
                 update_threshold = threshold, peer_window = unat (seg_window segment),
                 send_window_last_seq = seg_sequence segment, send_window_last_ack = 0,
                 receive_window_scale = scale, tcb_rto = rto_default, congestion = reno,
                 delayed_ack_pending = False, pending_initial_payload_len = seg_payload_len segment,
                 pending_initial_fin = fin, active_open = False\<rparr>
           in Ok (tcb, [Send (control tcb (flags_union SYN ACK) iss),
                        ArmRetransmission (rto_ms (tcb_rto tcb))])))"

definition from_syn_with_mss ::
  "TcpSegmentMeta \<Rightarrow> SeqNumber \<Rightarrow> nat \<Rightarrow> nat \<Rightarrow> (TcpError, TcpTcb \<times> TcpAction list) res" where
  "from_syn_with_mss segment iss reserved mss = from_syn_with_options segment iss reserved mss 0"

definition from_syn ::
  "TcpSegmentMeta \<Rightarrow> SeqNumber \<Rightarrow> nat \<Rightarrow> (TcpError, TcpTcb \<times> TcpAction list) res" where
  "from_syn segment iss reserved = from_syn_with_mss segment iss reserved 1460"

definition connect ::
  "SeqNumber \<Rightarrow> nat \<Rightarrow> nat \<Rightarrow> nat \<Rightarrow> (TcpError, TcpTcb \<times> TcpAction list) res" where
  "connect iss reserved mss scale =
     (let scale = min scale 14 in
      and_then (reno_new mss) (\<lambda>reno.
      let tcb = \<lparr>tcb_state = SynSent, recv_next = 0, send_unacked = iss,
            send_next = wrapping_add iss 1, recv_capacity = reserved, recv_buffered = 0,
            advertised_right_edge = wrapping_add 0 (advertisable_receive_capacity reserved scale),
            update_threshold = window_update_threshold mss reserved scale, peer_window = 0,
            send_window_last_seq = 0, send_window_last_ack = 0, receive_window_scale = scale,
            tcb_rto = rto_default, congestion = reno, delayed_ack_pending = False,
            pending_initial_payload_len = 0, pending_initial_fin = False, active_open = True\<rparr>
      in Ok (tcb, [Send (control tcb SYN iss), ArmRetransmission (rto_ms (tcb_rto tcb))])))"

definition withdraw_receive_window_scale :: "TcpTcb \<Rightarrow> TcpTcb" where
  "withdraw_receive_window_scale self =
     (if tcb_state self \<noteq> SynSent then self
      else self\<lparr>receive_window_scale := 0,
                update_threshold := window_update_threshold
                  (maximum_segment_size (congestion self)) (recv_capacity self) 0\<rparr>)"

subsection \<open>Queries\<close>

definition pending_initial_len :: "TcpTcb \<Rightarrow> nat" where
  "pending_initial_len self =
     wadd (pending_initial_payload_len self) (if pending_initial_fin self then 1 else 0)"

definition receive_admission_left_edge :: "TcpTcb \<Rightarrow> SeqNumber" where
  "receive_admission_left_edge self =
     (if tcb_state self = SynReceived
      then wrapping_add (recv_next self) (pending_initial_len self)
      else recv_next self)"

definition in_flight :: "TcpTcb \<Rightarrow> nat" where
  "in_flight self = distance_from (send_next self) (send_unacked self)"

definition send_available :: "TcpTcb \<Rightarrow> nat" where
  "send_available self =
     sat_sub (min (peer_window self)
       (sat_add (congestion_window (congestion self)) (limited_transmit_allowance (congestion self))))
       (in_flight self)"

definition receive_available :: "TcpTcb \<Rightarrow> nat" where
  "receive_available self = wsub (recv_capacity self) (recv_buffered self)"

definition announceable_receive_capacity :: "TcpTcb \<Rightarrow> nat" where
  "announceable_receive_capacity self =
     advertisable_receive_capacity usize_max (receive_window_scale self)"

definition peer_receive_closed :: "TcpTcb \<Rightarrow> bool" where
  "peer_receive_closed self \<longleftrightarrow> tcb_state self \<in> {CloseWait, Closing, LastAck, TimeWait}"

definition local_fin_outstanding :: "TcpTcb \<Rightarrow> bool" where
  "local_fin_outstanding self \<longleftrightarrow> tcb_state self \<in> {FinWait1, Closing, LastAck}"

definition has_outstanding_payload :: "TcpTcb \<Rightarrow> bool" where
  "has_outstanding_payload self \<longleftrightarrow>
     local_fin_outstanding self \<and> send_unacked self \<noteq> send_next self - 1"

definition accepts_final_ack :: "TcpTcb \<Rightarrow> TcpSegmentMeta \<Rightarrow> bool" where
  "accepts_final_ack self segment \<longleftrightarrow>
     tcb_state self = SynReceived \<and> contains (seg_flags segment) ACK \<and>
     \<not> contains (seg_flags segment) RST \<and> \<not> contains (seg_flags segment) SYN \<and>
     seg_acknowledgment segment = Some (send_next self) \<and>
     seg_sequence segment = wrapping_add (recv_next self) (pending_initial_len self)"

definition final_ack_payload_capacity :: "TcpTcb \<Rightarrow> nat option" where
  "final_ack_payload_capacity self =
     (if tcb_state self = SynReceived \<and> \<not> pending_initial_fin self
      then Some (sat_sub (recv_capacity self) (pending_initial_payload_len self)) else None)"

definition segment_length :: "TcpSegmentMeta \<Rightarrow> nat" where
  "segment_length segment =
     wadd (wadd (seg_payload_len segment) (if contains (seg_flags segment) SYN then 1 else 0))
       (if contains (seg_flags segment) FIN then 1 else 0)"

definition segment_acceptable :: "TcpTcb \<Rightarrow> TcpSegmentMeta \<Rightarrow> bool" where
  "segment_acceptable self segment =
     (let len = segment_length segment in
      if after (seg_sequence segment) (advertised_right_edge self) then False
      else if len = 0 then \<not> before (seg_sequence segment) (recv_next self)
      else after (wrapping_add (seg_sequence segment) len) (recv_next self))"

definition accepts_receive_sequence :: "TcpTcb \<Rightarrow> TcpSegmentMeta \<Rightarrow> bool" where
  "accepts_receive_sequence self segment = segment_acceptable self segment"

definition accepts_sender_feedback :: "TcpTcb \<Rightarrow> TcpSegmentMeta \<Rightarrow> bool" where
  "accepts_sender_feedback self segment \<longleftrightarrow>
     segment_acceptable self segment \<and> contains (seg_flags segment) ACK \<and>
     \<not> contains (seg_flags segment) SYN \<and> \<not> contains (seg_flags segment) RST \<and>
     (case seg_acknowledgment segment of None \<Rightarrow> False
      | Some a \<Rightarrow> \<not> before a (send_unacked self) \<and> \<not> after a (send_next self))"

definition beyond_receive_window :: "TcpTcb \<Rightarrow> TcpSegmentMeta \<Rightarrow> bool" where
  "beyond_receive_window self segment \<longleftrightarrow>
     (seg_payload_len segment > 0 \<or> contains (seg_flags segment) FIN) \<and>
     \<not> before (seg_sequence segment) (advertised_right_edge self)"

definition sequence_in_receive_window :: "TcpTcb \<Rightarrow> SeqNumber \<Rightarrow> bool" where
  "sequence_in_receive_window self sequence \<longleftrightarrow>
     \<not> before sequence (recv_next self) \<and> before sequence (advertised_right_edge self)"

subsection \<open>Helpers of the segment path\<close>

definition enter_time_wait :: "TcpTcb \<Rightarrow> TcpTcb \<times> TcpAction list" where
  "enter_time_wait self = (self\<lparr>tcb_state := TimeWait\<rparr>, [ArmTimeWait])"

definition cancel_delayed_ack :: "TcpTcb \<Rightarrow> TcpTcb \<times> TcpAction list" where
  "cancel_delayed_ack self =
     (if delayed_ack_pending self then (self\<lparr>delayed_ack_pending := False\<rparr>, [DisarmDelayedAck])
      else (self, []))"

definition on_peer_fin :: "TcpTcb \<Rightarrow> TcpTcb \<times> TcpAction list" where
  "on_peer_fin self =
     (let (self, pushed) =
        (case tcb_state self of
           Established \<Rightarrow> (self\<lparr>tcb_state := CloseWait\<rparr>, [])
         | FinWait1 \<Rightarrow>
             if send_unacked self = send_next self then enter_time_wait self
             else (self\<lparr>tcb_state := Closing\<rparr>, [])
         | FinWait2 \<Rightarrow> enter_time_wait self
         | TimeWait \<Rightarrow> (self, [ArmTimeWait])
         | _ \<Rightarrow> (self, []))
      in (self, PeerHalfClosed # pushed))"

definition trim_in_order_segment :: "TcpTcb \<Rightarrow> TcpSegmentMeta \<Rightarrow> TcpSegmentMeta" where
  "trim_in_order_segment self segment =
     (if seg_sequence segment \<noteq> recv_next self then segment
      else
        let window = distance_from (advertised_right_edge self) (recv_next self);
            segment = segment\<lparr>seg_payload_len := min (seg_payload_len segment) window\<rparr>
        in if contains (seg_flags segment) FIN \<and> seg_payload_len segment \<ge> window
           then segment\<lparr>seg_flags := from_bits (seg_flags segment AND NOT FIN)\<rparr>
           else segment)"

definition update_send_window :: "TcpTcb \<Rightarrow> TcpSegmentMeta \<Rightarrow> TcpTcb" where
  "update_send_window self segment =
     (case seg_acknowledgment segment of
        None \<Rightarrow> self
      | Some acknowledgment \<Rightarrow>
          if before acknowledgment (send_unacked self) \<or> after acknowledgment (send_next self) then self
          else if \<not> segment_acceptable self segment then self
          else if after (seg_sequence segment) (send_window_last_seq self) \<or>
             (seg_sequence segment = send_window_last_seq self \<and>
              (after acknowledgment (send_window_last_ack self) \<or>
               acknowledgment = send_window_last_ack self))
          then self\<lparr>peer_window := unat (seg_window segment),
                    send_window_last_seq := seg_sequence segment,
                    send_window_last_ack := acknowledgment\<rparr>
          else self)"

text \<open>The part of \<open>process_ack\<close> that moves \<open>send_unacked\<close> and the congestion state.\<close>

definition advance_unacked :: "TcpTcb \<Rightarrow> TcpSegmentMeta \<Rightarrow> SeqNumber \<Rightarrow> nat \<Rightarrow> bool \<Rightarrow> TcpTcb \<times> TcpAction list" where
  "advance_unacked self segment a old_peer_window carried_data =
     (if after a (send_unacked self) \<and> \<not> after a (send_next self) then
        let acknowledged_bytes = distance_from a (send_unacked self);
            self = self\<lparr>send_unacked := a\<rparr>;
            (partial, reno) = on_new_ack (congestion self) acknowledged_bytes a;
            self = self\<lparr>congestion := reno\<rparr>
        in (self,
            (if partial \<and> send_unacked self \<noteq> send_next self
             then [RetransmitPayload (control self ACK (send_unacked self))] else [])
            @ [DisarmRetransmission]
            @ (if send_unacked self \<noteq> send_next self
               then [ArmRetransmission (rto_ms (tcb_rto self))] else []))
      else if a = send_unacked self \<and> send_unacked self \<noteq> send_next self \<and> \<not> carried_data \<and>
        unat (seg_window segment) = old_peer_window then
        let (fast, reno) = on_duplicate_ack (congestion self) (in_flight self) (send_next self);
            self = self\<lparr>congestion := reno\<rparr>
        in (self, if fast then [RetransmitPayload (control self ACK (send_unacked self))] else [])
      else (self, []))"

definition process_ack :: "TcpTcb \<Rightarrow> TcpSegmentMeta \<Rightarrow> nat \<Rightarrow> bool \<Rightarrow> TcpTcb \<times> TcpAction list" where
  "process_ack self segment old_peer_window carried_data =
     (case seg_acknowledgment segment of
        None \<Rightarrow> (self, [])
      | Some a \<Rightarrow>
          let (self, pushed) = advance_unacked self segment a old_peer_window carried_data;
              (self, closing) =
                (if tcb_state self = FinWait1 \<and> a = send_next self
                 then (self\<lparr>tcb_state := FinWait2\<rparr>, [])
                 else if tcb_state self = Closing \<and> a = send_next self then enter_time_wait self
                 else if tcb_state self = LastAck \<and> a = send_next self
                 then (self\<lparr>tcb_state := Closed\<rparr>, [ConnectionClosed])
                 else (self, []))
          in (self, pushed @ closing))"

definition simultaneous_open_completion :: "TcpTcb \<Rightarrow> TcpSegmentMeta \<Rightarrow> TcpSegmentMeta" where
  "simultaneous_open_completion self segment =
     (let peer_syn = recv_next self - 1 in
      if contains (seg_flags segment) SYN \<and> contains (seg_flags segment) ACK \<and>
         \<not> contains (seg_flags segment) RST \<and> seg_sequence segment = peer_syn \<and>
         seg_acknowledgment segment = Some (send_next self)
      then segment\<lparr>seg_sequence := recv_next self, seg_flags := ACK, seg_payload_len := 0\<rparr>
      else segment)"

text \<open>What the final acknowledgment of a handshake releases: the payload and the FIN of the SYN.\<close>

definition apply_initial_payload :: "TcpTcb \<Rightarrow> TcpTcb \<times> TcpAction list" where
  "apply_initial_payload self =
     (if pending_initial_payload_len self > 0 then
        let amount = pending_initial_payload_len self;
            self = self\<lparr>pending_initial_payload_len := 0,
                        recv_buffered := wadd (recv_buffered self) amount,
                        recv_next := wrapping_add (recv_next self) amount\<rparr>
        in if \<not> pending_initial_fin self
           then (self\<lparr>delayed_ack_pending := True\<rparr>, [DeliverPayload amount, ArmDelayedAck])
           else (self, [DeliverPayload amount])
      else (self, []))"

text \<open>A FIN in sequence: the advance, the state change and the immediate acknowledgment.\<close>

definition take_fin :: "TcpTcb \<Rightarrow> TcpTcb \<times> TcpAction list" where
  "take_fin self =
     (let self = self\<lparr>recv_next := wrapping_add (recv_next self) 1\<rparr>;
          (self, fin) = on_peer_fin self;
          (self, disarm) = cancel_delayed_ack self
      in (self, fin @ disarm @ [Send (tcb_ack self)]))"

definition apply_initial_fin :: "TcpTcb \<Rightarrow> TcpTcb \<times> TcpAction list" where
  "apply_initial_fin self =
     (if pending_initial_fin self then take_fin (self\<lparr>pending_initial_fin := False\<rparr>)
      else (self, []))"

definition complete_passive_handshake ::
  "TcpTcb \<Rightarrow> TcpSegmentMeta \<Rightarrow> bool \<times> TcpTcb \<times> TcpAction list" where
  "complete_passive_handshake self segment =
     (if tcb_state self \<noteq> SynReceived then (True, self, [])
      else if \<not> accepts_final_ack self segment then
        (case seg_acknowledgment segment of
           Some acknowledgment \<Rightarrow>
             if segment_acceptable self segment \<and> contains (seg_flags segment) ACK \<and>
                acknowledgment \<noteq> send_next self
             then (False, self, [Send (control self RST acknowledgment)])
             else (False, self, [Send (control self (flags_union SYN ACK) (send_unacked self)),
                                 ArmRetransmission (rto_ms (tcb_rto self))])
         | None \<Rightarrow> (False, self, [Send (control self (flags_union SYN ACK) (send_unacked self)),
                                 ArmRetransmission (rto_ms (tcb_rto self))]))
      else
        let self = self\<lparr>send_unacked := send_next self, tcb_state := Established\<rparr>;
            (self, payload) = apply_initial_payload self;
            (self, fin) = apply_initial_fin self
        in (True, self,
            [if active_open self then Connected else Accepted, DisarmRetransmission]
            @ payload @ fin))"

definition on_syn_sent_segment :: "TcpTcb \<Rightarrow> TcpSegmentMeta \<Rightarrow> TcpTcb \<times> TcpAction list" where
  "on_syn_sent_segment self segment =
     (let is_reset = contains (seg_flags segment) RST;
          proceed = (\<lambda>acknowledgment.
            if is_reset then
              (if acknowledgment = None then (self, [])
               else (self\<lparr>tcb_state := Closed\<rparr>, [DisarmRetransmission, ConnectionClosed]))
            else if \<not> contains (seg_flags segment) SYN then (self, [])
            else
              let rcv_nxt = wrapping_add (seg_sequence segment) 1;
                  self = self\<lparr>recv_next := rcv_nxt,
                     advertised_right_edge := wrapping_add rcv_nxt
                       (advertisable_receive_capacity (recv_capacity self) (receive_window_scale self)),
                     peer_window := unat (seg_window segment),
                     send_window_last_seq := seg_sequence segment\<rparr>
              in case acknowledgment of
                   None \<Rightarrow>
                     let self = self\<lparr>tcb_state := SynReceived\<rparr>
                     in (self, [Send (control self (flags_union SYN ACK) (send_unacked self)),
                                ArmRetransmission (rto_ms (tcb_rto self))])
                 | Some a \<Rightarrow>
                     let self = self\<lparr>send_window_last_ack := a, send_unacked := a,
                                     tcb_state := Established\<rparr>
                     in (self, [DisarmRetransmission, Connected, Send (tcb_ack self)]))
      in if contains (seg_flags segment) ACK then
           (case seg_acknowledgment segment of
              Some a \<Rightarrow>
                if a = send_next self then proceed (Some a)
                else if \<not> is_reset then
                  (self, [Send \<lparr>ctl_sequence = a, ctl_acknowledgment = 0, ctl_flags = RST, ctl_window = 0\<rparr>])
                else (self, [])
            | None \<Rightarrow> (self, []))
         else proceed None)"

subsection \<open>Incoming segments\<close>

text \<open>An acknowledgment that tells the peer where the window stands.\<close>

definition defend :: "TcpTcb \<Rightarrow> TcpTcb \<times> TcpAction list" where
  "defend self = (let (self, disarm) = cancel_delayed_ack self
                  in (self, disarm @ [DefensiveAck (tcb_ack self)]))"

text \<open>Payload and FIN in order: what is left of \<open>on_segment\<close> once the window checks passed.\<close>

definition accept_in_order :: "TcpTcb \<Rightarrow> TcpSegmentMeta \<Rightarrow> TcpTcb \<times> TcpAction list" where
  "accept_in_order self segment =
     (let len = seg_payload_len segment;
          (self, deliver) =
            (if len > 0
             then (self\<lparr>recv_buffered := wadd (recv_buffered self) len,
                        recv_next := wrapping_add (recv_next self) len\<rparr>, [DeliverPayload len])
             else (self, []));
          (self, rest) =
            (if contains (seg_flags segment) FIN then take_fin self
             else if len > 0 then
               (if delayed_ack_pending self
                then let self = self\<lparr>delayed_ack_pending := False\<rparr>
                     in (self, [DisarmDelayedAck, Send (tcb_ack self)])
                else (self\<lparr>delayed_ack_pending := True\<rparr>, [ArmDelayedAck]))
             else (self, []))
      in (self, deliver @ rest))"

definition on_acceptable_segment :: "TcpTcb \<Rightarrow> TcpSegmentMeta \<Rightarrow> TcpAction list \<Rightarrow> tcb_result" where
  "on_acceptable_segment self segment actions =
     (let beyond_window = beyond_receive_window self segment;
          carried_data = seg_payload_len segment > 0;
          segment = trim_in_order_segment self segment;
          old_peer_window = peer_window self;
          self = update_send_window self segment;
          segment = segment\<lparr>seg_window :=
            (case try_u32 (peer_window self) of Some w \<Rightarrow> w | None \<Rightarrow> - 1)\<rparr>;
          (self, acked) = process_ack self segment old_peer_window carried_data;
          actions = actions @ acked;
          answer = (let (self, pushed) = defend self in (self, Ok (actions @ pushed)))
      in if tcb_state self = Closed then (self, Ok actions)
         else if beyond_window then answer
         else if peer_receive_closed self \<and>
           (seg_payload_len segment > 0 \<or> contains (seg_flags segment) FIN) then answer
         else if seg_payload_len segment > 0 \<or> contains (seg_flags segment) FIN then
           (if seg_sequence segment \<noteq> recv_next self then answer
            else if seg_payload_len segment > receive_available self
            then (self, Err ReceiveCreditExceeded)
            else let (self, pushed) = accept_in_order self segment in (self, Ok (actions @ pushed)))
         else (self, Ok actions))"

definition on_segment :: "TcpTcb \<Rightarrow> TcpSegmentMeta \<Rightarrow> tcb_result" where
  "on_segment self segment =
     (if tcb_state self = Closed then (self, Err TcpClosed)
      else if tcb_state self = SynSent then
        let (self, actions) = on_syn_sent_segment self segment in (self, Ok actions)
      else
        let segment = (if active_open self \<and> tcb_state self = SynReceived
                       then simultaneous_open_completion self segment else segment) in
        if contains (seg_flags segment) RST then
          (if seg_sequence segment = recv_next self
           then (self\<lparr>tcb_state := Closed\<rparr>, Ok [ConnectionClosed])
           else if sequence_in_receive_window self (seg_sequence segment)
           then (self, Ok [ChallengeAck])
           else (self, Ok []))
        else
          let (proceed, self, actions) = complete_passive_handshake self segment in
          if \<not> proceed then (self, Ok actions)
          else if \<not> segment_acceptable self segment then
            let (self, pushed) = defend self in (self, Ok (actions @ pushed))
          else if contains (seg_flags segment) SYN then (self, Ok [ChallengeAck])
          else if \<not> contains (seg_flags segment) ACK then (self, Ok [])
          else if (case seg_acknowledgment segment of None \<Rightarrow> False | Some a \<Rightarrow> after a (send_next self))
          then (self, Ok (actions @ [DefensiveAck (tcb_ack self)]))
          else on_acceptable_segment self segment actions)"

subsection \<open>Application events\<close>

definition start_close :: "TcpTcb \<Rightarrow> TcpTcb \<times> TcpAction list" where
  "start_close self =
     (let closing = (\<lambda>self.
          let sequence = send_next self;
              self = self\<lparr>send_next := wrapping_add (send_next self) 1\<rparr>
          in (self, [Send (control self (flags_union FIN ACK) sequence),
                     ArmRetransmission (rto_ms (tcb_rto self))]))
      in case tcb_state self of
           Established \<Rightarrow> closing (self\<lparr>tcb_state := FinWait1\<rparr>)
         | CloseWait \<Rightarrow> closing (self\<lparr>tcb_state := LastAck\<rparr>)
         | _ \<Rightarrow> (self, []))"

definition on_consumed :: "TcpTcb \<Rightarrow> nat \<Rightarrow> tcb_result" where
  "on_consumed self amount =
     (if amount > recv_buffered self then (self, Err ConsumedBeyondBuffered)
      else
        let self = self\<lparr>recv_buffered := recv_buffered self - amount\<rparr>;
            candidate = wrapping_add (recv_next self)
              (advertisable_receive_capacity (receive_available self) (receive_window_scale self));
            advancement = distance_from candidate (advertised_right_edge self)
        in if after candidate (advertised_right_edge self) \<and> advancement \<ge> update_threshold self then
             let self = self\<lparr>advertised_right_edge := candidate\<rparr>;
                 (self, disarm) = cancel_delayed_ack self
             in (self, Ok (disarm @ [Send (tcb_ack self)]))
           else (self, Ok []))"

definition on_app_send :: "TcpTcb \<Rightarrow> nat \<Rightarrow> tcb_result" where
  "on_app_send self amount =
     (if tcb_state self \<notin> {Established, CloseWait} then (self, Err InvalidSendState)
      else if amount > send_available self then (self, Err SendWindowExceeded)
      else if amount = 0 then (self, Ok [])
      else
        let arm_retransmission = (send_unacked self = send_next self);
            sequence = send_next self;
            self = self\<lparr>send_next := wrapping_add (send_next self) amount\<rparr>;
            (self, disarm) = cancel_delayed_ack self
        in (self, Ok (disarm @ [SendPayload (control self ACK sequence)]
              @ (if arm_retransmission then [ArmRetransmission (rto_ms (tcb_rto self))] else []))))"

definition on_app_event :: "TcpTcb \<Rightarrow> AppEvent \<Rightarrow> tcb_result" where
  "on_app_event self event =
     (if tcb_state self = Closed then (self, Err TcpClosed)
      else case event of
        Consumed amount \<Rightarrow> on_consumed self amount
      | AppSend amount \<Rightarrow> on_app_send self amount
      | AppClose \<Rightarrow>
          if tcb_state self = SynSent
          then (self\<lparr>tcb_state := Closed\<rparr>, Ok [DisarmRetransmission, ConnectionClosed])
          else
            let (self, disarm) = cancel_delayed_ack self; (self, close) = start_close self
            in (self, Ok (disarm @ close))
      | AppAbort \<Rightarrow>
          if tcb_state self = SynSent
          then (self\<lparr>tcb_state := Closed\<rparr>, Ok [DisarmRetransmission, ConnectionClosed])
          else
            let (self, disarm) = cancel_delayed_ack (self\<lparr>tcb_state := Closed\<rparr>)
            in (self, Ok (disarm @ [Send (control self (flags_union RST ACK) (send_next self)),
                                    ConnectionClosed])))"

subsection \<open>Timers\<close>

text \<open>The segment a retransmission timeout repeats; \<open>None\<close> is the last arm of the match.\<close>

definition retransmission_action :: "TcpTcb \<Rightarrow> TcpAction option" where
  "retransmission_action self =
     (case tcb_state self of
        SynSent \<Rightarrow> Some (Send (control self SYN (send_unacked self)))
      | SynReceived \<Rightarrow> Some (Send (control self (flags_union SYN ACK) (send_unacked self)))
      | Established \<Rightarrow> Some (RetransmitPayload (control self ACK (send_unacked self)))
      | CloseWait \<Rightarrow> Some (RetransmitPayload (control self ACK (send_unacked self)))
      | s \<Rightarrow>
          if s \<in> {FinWait1, Closing, LastAck} then
            (if has_outstanding_payload self
             then Some (RetransmitPayload (control self ACK (send_unacked self)))
             else Some (Send (control self (flags_union FIN ACK) (send_unacked self))))
          else None)"

definition on_retransmission_timeout :: "TcpTcb \<Rightarrow> tcb_result" where
  "on_retransmission_timeout self =
     (if send_unacked self = send_next self then (self, Ok [])
      else
        let self = self\<lparr>congestion := on_timeout (congestion self) (in_flight self),
                        tcb_rto := backoff (tcb_rto self)\<rparr>
        in case retransmission_action self of
             None \<Rightarrow> (self, Ok [])
           | Some action \<Rightarrow> (self, Ok [action, ArmRetransmission (rto_ms (tcb_rto self))]))"

definition on_timer :: "TcpTcb \<Rightarrow> TimerEvent \<Rightarrow> tcb_result" where
  "on_timer self event =
     (if tcb_state self = Closed then (self, Err TcpClosed)
      else case event of
        Retransmission \<Rightarrow> on_retransmission_timeout self
      | DelayedAck \<Rightarrow>
          if delayed_ack_pending self
          then let self = self\<lparr>delayed_ack_pending := False\<rparr> in (self, Ok [Send (tcb_ack self)])
          else (self, Ok [])
      | TimeWaitExpired \<Rightarrow>
          if tcb_state self = TimeWait then (self\<lparr>tcb_state := Closed\<rparr>, Ok [ConnectionClosed])
          else (self, Ok [])
      | _ \<Rightarrow> (self, Ok []))"

subsection \<open>Operations of the flow table\<close>

definition record_rtt_sample :: "TcpTcb \<Rightarrow> nat \<Rightarrow> TcpTcb" where
  "record_rtt_sample self sample_ms = self\<lparr>tcb_rto := record_sample (tcb_rto self) sample_ms\<rparr>"

definition on_sack_loss :: "TcpTcb \<Rightarrow> TcpTcb \<times> TcpAction list" where
  "on_sack_loss self =
     (if tcb_state self \<notin> {Established, FinWait1, Closing, CloseWait, LastAck} \<or>
         send_unacked self = send_next self \<or>
         (local_fin_outstanding self \<and> \<not> has_outstanding_payload self)
      then (self, [])
      else
        let (entered, reno) = reno_on_sack_loss (congestion self) (in_flight self) (send_next self);
            self = self\<lparr>congestion := reno\<rparr>
        in if \<not> entered then (self, [])
           else (self, [RetransmitPayload (control self ACK (send_unacked self))]))"

definition accept_queued_payload :: "TcpTcb \<Rightarrow> nat \<Rightarrow> TcpTcb \<times> (TcpError, TcpAction) res" where
  "accept_queued_payload self amount =
     (if amount = 0 \<or> amount > receive_available self then (self, Err ReceiveCreditExceeded)
      else (self\<lparr>recv_buffered := wadd (recv_buffered self) amount,
                 recv_next := wrapping_add (recv_next self) amount\<rparr>, Ok (DeliverPayload amount)))"

definition accept_queued_fin :: "TcpTcb \<Rightarrow> TcpTcb \<times> TcpAction list" where
  "accept_queued_fin self = take_fin self"

definition force_ack :: "TcpTcb \<Rightarrow> TcpTcb \<times> TcpAction list" where
  "force_ack self =
     (let (self, disarm) = cancel_delayed_ack self in (self, disarm @ [Send (tcb_ack self)]))"

definition reject_unacceptable_segment :: "TcpTcb \<Rightarrow> TcpTcb \<times> TcpAction list" where
  "reject_unacceptable_segment self = defend self"

definition grow_receive_capacity :: "TcpTcb \<Rightarrow> nat \<Rightarrow> TcpTcb" where
  "grow_receive_capacity self additional =
     (let self = self\<lparr>recv_capacity := wadd (recv_capacity self) additional\<rparr>
      in self\<lparr>update_threshold := window_update_threshold
               (maximum_segment_size (congestion self)) (recv_capacity self)
               (receive_window_scale self)\<rparr>)"

end
