(* ===== verification/Tcp_Facts.thy ===== *)
theory Tcp_Facts
  imports Tcp_State
begin

text \<open>
  The invariant of the control block and what every operation keeps of it, and the effect of an
  operation on the byte stream, on the two timers and on the connection state, read off the
  actions it returns.
\<close>

section \<open>Vocabulary\<close>

abbreviation max_window :: nat where "max_window \<equiv> 1073725440"

definition recv_window :: "TcpTcb \<Rightarrow> nat" where
  "recv_window t = distance_from (advertised_right_edge t) (recv_next t)"

definition flight_ok :: "TcpTcb \<Rightarrow> bool" where
  "flight_ok t \<longleftrightarrow>
     (tcb_state t \<in> {SynSent, SynReceived} \<longrightarrow> in_flight t = 1) \<and>
     (tcb_state t \<in> {FinWait2, TimeWait} \<longrightarrow> in_flight t = 0) \<and>
     (tcb_state t \<in> {FinWait1, Closing, LastAck} \<longrightarrow> 0 < in_flight t) \<and>
     (tcb_state t \<in> {Established, CloseWait} \<longrightarrow> in_flight t \<le> max_window) \<and>
     in_flight t \<le> max_window + 1"

definition initial_ok :: "TcpTcb \<Rightarrow> bool" where
  "initial_ok t \<longleftrightarrow>
     (tcb_state t = SynReceived \<longrightarrow>
        pending_initial_payload_len t + (if pending_initial_fin t then 1 else 0) \<le> recv_window t) \<and>
     (tcb_state t \<notin> {SynReceived, Closed} \<longrightarrow>
        pending_initial_payload_len t = 0 \<and> \<not> pending_initial_fin t) \<and>
     (tcb_state t = SynSent \<longrightarrow> recv_buffered t = 0)"

definition receive_ok :: "TcpTcb \<Rightarrow> bool" where
  "receive_ok t \<longleftrightarrow> recv_buffered t + recv_window t \<le> recv_capacity t \<and>
     recv_capacity t \<le> usize_max \<and> recv_window t \<le> max_window \<and> receive_window_scale t \<le> 14"

definition tcb_wf :: "TcpTcb \<Rightarrow> bool" where
  "tcb_wf t \<longleftrightarrow> receive_ok t \<and> initial_ok t \<and> flight_ok t \<and> peer_window t \<le> max_window \<and>
     rto_wf (tcb_rto t) \<and> reno_wf (congestion t)"

text \<open>A segment as the parser and the flow table hand it over: its length fits an IP packet and its
window has been scaled by at most 14 bits.\<close>

definition seg_wf :: "TcpSegmentMeta \<Rightarrow> bool" where
  "seg_wf s \<longleftrightarrow> seg_payload_len s \<le> u16_max \<and> unat (seg_window s) \<le> max_window"

lemmas wf_defs = tcb_wf_def receive_ok_def initial_ok_def flight_ok_def recv_window_def in_flight_def

subsection \<open>What each clause does not depend on\<close>

named_theorems tcb_frame \<open>field updates a clause of the invariant does not read\<close>

lemma in_flight_frame [tcb_frame]:
  "in_flight (t\<lparr>tcb_state := x_0\<rparr>) = in_flight t"
  "in_flight (t\<lparr>recv_next := x_1\<rparr>) = in_flight t"
  "in_flight (t\<lparr>recv_capacity := x_4\<rparr>) = in_flight t"
  "in_flight (t\<lparr>recv_buffered := x_5\<rparr>) = in_flight t"
  "in_flight (t\<lparr>advertised_right_edge := x_6\<rparr>) = in_flight t"
  "in_flight (t\<lparr>update_threshold := x_7\<rparr>) = in_flight t"
  "in_flight (t\<lparr>peer_window := x_8\<rparr>) = in_flight t"
  "in_flight (t\<lparr>send_window_last_seq := x_9\<rparr>) = in_flight t"
  "in_flight (t\<lparr>send_window_last_ack := x_10\<rparr>) = in_flight t"
  "in_flight (t\<lparr>receive_window_scale := x_11\<rparr>) = in_flight t"
  "in_flight (t\<lparr>tcb_rto := x_12\<rparr>) = in_flight t"
  "in_flight (t\<lparr>congestion := x_13\<rparr>) = in_flight t"
  "in_flight (t\<lparr>delayed_ack_pending := x_14\<rparr>) = in_flight t"
  "in_flight (t\<lparr>pending_initial_payload_len := x_15\<rparr>) = in_flight t"
  "in_flight (t\<lparr>pending_initial_fin := x_16\<rparr>) = in_flight t"
  "in_flight (t\<lparr>active_open := x_17\<rparr>) = in_flight t"
  by (simp_all add: in_flight_def)

lemma recv_window_frame [tcb_frame]:
  "recv_window (t\<lparr>tcb_state := x_0\<rparr>) = recv_window t"
  "recv_window (t\<lparr>send_unacked := x_2\<rparr>) = recv_window t"
  "recv_window (t\<lparr>send_next := x_3\<rparr>) = recv_window t"
  "recv_window (t\<lparr>recv_capacity := x_4\<rparr>) = recv_window t"
  "recv_window (t\<lparr>recv_buffered := x_5\<rparr>) = recv_window t"
  "recv_window (t\<lparr>update_threshold := x_7\<rparr>) = recv_window t"
  "recv_window (t\<lparr>peer_window := x_8\<rparr>) = recv_window t"
  "recv_window (t\<lparr>send_window_last_seq := x_9\<rparr>) = recv_window t"
  "recv_window (t\<lparr>send_window_last_ack := x_10\<rparr>) = recv_window t"
  "recv_window (t\<lparr>receive_window_scale := x_11\<rparr>) = recv_window t"
  "recv_window (t\<lparr>tcb_rto := x_12\<rparr>) = recv_window t"
  "recv_window (t\<lparr>congestion := x_13\<rparr>) = recv_window t"
  "recv_window (t\<lparr>delayed_ack_pending := x_14\<rparr>) = recv_window t"
  "recv_window (t\<lparr>pending_initial_payload_len := x_15\<rparr>) = recv_window t"
  "recv_window (t\<lparr>pending_initial_fin := x_16\<rparr>) = recv_window t"
  "recv_window (t\<lparr>active_open := x_17\<rparr>) = recv_window t"
  by (simp_all add: recv_window_def)

lemma flight_ok_frame [tcb_frame]:
  "flight_ok (t\<lparr>recv_next := x_1\<rparr>) = flight_ok t"
  "flight_ok (t\<lparr>recv_capacity := x_4\<rparr>) = flight_ok t"
  "flight_ok (t\<lparr>recv_buffered := x_5\<rparr>) = flight_ok t"
  "flight_ok (t\<lparr>advertised_right_edge := x_6\<rparr>) = flight_ok t"
  "flight_ok (t\<lparr>update_threshold := x_7\<rparr>) = flight_ok t"
  "flight_ok (t\<lparr>peer_window := x_8\<rparr>) = flight_ok t"
  "flight_ok (t\<lparr>send_window_last_seq := x_9\<rparr>) = flight_ok t"
  "flight_ok (t\<lparr>send_window_last_ack := x_10\<rparr>) = flight_ok t"
  "flight_ok (t\<lparr>receive_window_scale := x_11\<rparr>) = flight_ok t"
  "flight_ok (t\<lparr>tcb_rto := x_12\<rparr>) = flight_ok t"
  "flight_ok (t\<lparr>congestion := x_13\<rparr>) = flight_ok t"
  "flight_ok (t\<lparr>delayed_ack_pending := x_14\<rparr>) = flight_ok t"
  "flight_ok (t\<lparr>pending_initial_payload_len := x_15\<rparr>) = flight_ok t"
  "flight_ok (t\<lparr>pending_initial_fin := x_16\<rparr>) = flight_ok t"
  "flight_ok (t\<lparr>active_open := x_17\<rparr>) = flight_ok t"
  by (simp_all add: flight_ok_def tcb_frame)

lemma receive_ok_frame [tcb_frame]:
  "receive_ok (t\<lparr>tcb_state := x_0\<rparr>) = receive_ok t"
  "receive_ok (t\<lparr>send_unacked := x_2\<rparr>) = receive_ok t"
  "receive_ok (t\<lparr>send_next := x_3\<rparr>) = receive_ok t"
  "receive_ok (t\<lparr>update_threshold := x_7\<rparr>) = receive_ok t"
  "receive_ok (t\<lparr>peer_window := x_8\<rparr>) = receive_ok t"
  "receive_ok (t\<lparr>send_window_last_seq := x_9\<rparr>) = receive_ok t"
  "receive_ok (t\<lparr>send_window_last_ack := x_10\<rparr>) = receive_ok t"
  "receive_ok (t\<lparr>tcb_rto := x_12\<rparr>) = receive_ok t"
  "receive_ok (t\<lparr>congestion := x_13\<rparr>) = receive_ok t"
  "receive_ok (t\<lparr>delayed_ack_pending := x_14\<rparr>) = receive_ok t"
  "receive_ok (t\<lparr>pending_initial_payload_len := x_15\<rparr>) = receive_ok t"
  "receive_ok (t\<lparr>pending_initial_fin := x_16\<rparr>) = receive_ok t"
  "receive_ok (t\<lparr>active_open := x_17\<rparr>) = receive_ok t"
  by (simp_all add: receive_ok_def tcb_frame)

lemma initial_ok_frame [tcb_frame]:
  "initial_ok (t\<lparr>send_unacked := x_2\<rparr>) = initial_ok t"
  "initial_ok (t\<lparr>send_next := x_3\<rparr>) = initial_ok t"
  "initial_ok (t\<lparr>recv_capacity := x_4\<rparr>) = initial_ok t"
  "initial_ok (t\<lparr>update_threshold := x_7\<rparr>) = initial_ok t"
  "initial_ok (t\<lparr>peer_window := x_8\<rparr>) = initial_ok t"
  "initial_ok (t\<lparr>send_window_last_seq := x_9\<rparr>) = initial_ok t"
  "initial_ok (t\<lparr>send_window_last_ack := x_10\<rparr>) = initial_ok t"
  "initial_ok (t\<lparr>receive_window_scale := x_11\<rparr>) = initial_ok t"
  "initial_ok (t\<lparr>tcb_rto := x_12\<rparr>) = initial_ok t"
  "initial_ok (t\<lparr>congestion := x_13\<rparr>) = initial_ok t"
  "initial_ok (t\<lparr>delayed_ack_pending := x_14\<rparr>) = initial_ok t"
  "initial_ok (t\<lparr>active_open := x_17\<rparr>) = initial_ok t"
  by (simp_all add: initial_ok_def tcb_frame)

section \<open>Windows\<close>

lemma advertisable_bounds:
  "advertisable_receive_capacity a s \<le> a" "advertisable_receive_capacity a s \<le> max_window"
proof -
  let ?q = "2 ^ min s 14 :: nat"
  have le: "min a (u16_max * ?q) div ?q * ?q \<le> min a (u16_max * ?q)" by (rule div_times_less_eq_dividend)
  have "?q \<le> 2 ^ 14" by (rule power_increasing) simp_all
  then have "u16_max * ?q \<le> u16_max * 16384" by simp
  with le show "advertisable_receive_capacity a s \<le> a" "advertisable_receive_capacity a s \<le> max_window"
    unfolding advertisable_receive_capacity_def Let_def by linarith+
qed

lemma receive_available_eq: "receive_ok t \<Longrightarrow> receive_available t = recv_capacity t - recv_buffered t"
  by (simp add: receive_available_def receive_ok_def wsub_small)

lemma window_le_available: "receive_ok t \<Longrightarrow> recv_window t \<le> receive_available t"
  by (auto simp: receive_available_eq receive_ok_def)

lemma ack_in_flight:
  assumes "in_flight t \<le> max_window + 1" "after a (send_unacked t)" "\<not> after a (send_next t)"
  shows "distance_from a (send_unacked t) \<le> in_flight t" "distance_from (send_next t) a = in_flight t - distance_from a (send_unacked t)"
proof -
  show le: "distance_from a (send_unacked t) \<le> in_flight t"
  proof (rule ccontr)
    assume "\<not> ?thesis"
    then have lt: "distance_from (send_next t) (send_unacked t) < distance_from a (send_unacked t)"
      by (simp add: in_flight_def)
    then have "distance_from a (send_next t) =
        distance_from a (send_unacked t) - distance_from (send_next t) (send_unacked t)"
      by (intro distance_split) simp
    with lt assms(2,3) show False by (auto simp: after_iff)
  qed
  show "distance_from (send_next t) a = in_flight t - distance_from a (send_unacked t)"
    using distance_split [of a "send_unacked t" "send_next t"] le by (simp add: in_flight_def)
qed

section \<open>The invariant is kept\<close>

lemma cancel_delayed_ack_wf [simp]: "tcb_wf (fst (cancel_delayed_ack t)) = tcb_wf t"
  by (simp add: cancel_delayed_ack_def wf_defs)

lemma defend_wf [simp]: "tcb_wf (fst (defend t)) = tcb_wf t"
  using cancel_delayed_ack_wf [of t] by (simp add: defend_def Let_def split_beta)

lemma peer_window_wf:
  "tcb_wf t \<Longrightarrow> w \<le> max_window \<Longrightarrow>
   tcb_wf (t\<lparr>peer_window := w, send_window_last_seq := x, send_window_last_ack := y\<rparr>)"
  by (simp add: wf_defs)

lemma update_send_window_wf [simp]: "tcb_wf t \<Longrightarrow> seg_wf s \<Longrightarrow> tcb_wf (update_send_window t s)"
  by (simp add: update_send_window_def peer_window_wf seg_wf_def split: option.split)

lemma flight_state [simp]: "in_flight (t\<lparr>tcb_state := x\<rparr>) = in_flight t" "recv_window (t\<lparr>tcb_state := x\<rparr>) = recv_window t"
  by (simp_all add: in_flight_def recv_window_def)

lemma state_wf:
  assumes "tcb_wf t" "tcb_state t \<notin> {SynReceived, Closed} \<or> x = Closed" "x \<notin> {SynReceived, SynSent}"
    "flight_ok (t\<lparr>tcb_state := x\<rparr>)"
  shows "tcb_wf (t\<lparr>tcb_state := x\<rparr>)"
  using assms by (auto simp: tcb_wf_def receive_ok_def initial_ok_def)

lemma on_peer_fin_wf:
  assumes "tcb_wf t" "tcb_state t \<noteq> SynReceived"
  shows "tcb_wf (fst (on_peer_fin t))"
proof -
  have f: "flight_ok t" using assms(1) by (simp add: tcb_wf_def)
  then have "in_flight t = 0" if "send_unacked t = send_next t" using that by (simp add: in_flight_def)
  then show ?thesis using assms f
    by (cases "tcb_state t")
       (auto simp: on_peer_fin_def enter_time_wait_def flight_ok_def intro!: state_wf)
qed

lemma advance_recv_wf:
  assumes "receive_ok t" "n \<le> recv_window t"
  shows "receive_ok (t\<lparr>recv_buffered := wadd (recv_buffered t) n, recv_next := wrapping_add (recv_next t) n\<rparr>)"
proof -
  have "recv_buffered t + n \<le> u64_max" using assms by (simp add: receive_ok_def)
  then show ?thesis using assms
    by (auto simp: receive_ok_def recv_window_def wadd_small distance_add_right)
qed

lemma take_fin_wf:
  assumes "tcb_wf t" "0 < recv_window t" "tcb_state t \<noteq> SynReceived"
  shows "tcb_wf (fst (take_fin t))"
proof -
  let ?u = "t\<lparr>recv_next := wrapping_add (recv_next t) 1\<rparr>"
  have w: "recv_window ?u = recv_window t - 1"
    using assms(2) distance_add_right [of 1 "advertised_right_edge t" "recv_next t"] by (simp add: recv_window_def)
  have "receive_ok ?u" using assms(1,2) w by (auto simp: tcb_wf_def receive_ok_def)
  moreover have "initial_ok ?u" using assms(1,3) by (auto simp: tcb_wf_def initial_ok_def)
  moreover have "flight_ok ?u = flight_ok t" by (simp add: flight_ok_def in_flight_def)
  ultimately have "tcb_wf ?u" using assms(1) by (simp add: tcb_wf_def)
  then have "tcb_wf (fst (on_peer_fin ?u))" using assms(3) by (simp add: on_peer_fin_wf)
  then show ?thesis
    using cancel_delayed_ack_wf [of "fst (on_peer_fin ?u)"]
    by (simp add: take_fin_def Let_def split_beta)
qed


lemma advance_unacked_update:
  assumes "tcb_wf t"
  obtains una reno where "fst (advance_unacked t s a w c) = t\<lparr>send_unacked := una, congestion := reno\<rparr>"
    "reno_wf reno" "distance_from (send_next t) una \<le> in_flight t" "una = send_unacked t \<or> una = a"
    "after a (send_unacked t) \<and> \<not> after a (send_next t) \<longrightarrow> una = a"
proof (cases "after a (send_unacked t) \<and> \<not> after a (send_next t)")
  case True
  have "in_flight t \<le> max_window + 1" using assms by (simp add: tcb_wf_def flight_ok_def)
  note d = ack_in_flight [OF this conjunct1 [OF True] conjunct2 [OF True]]
  let ?r = "on_new_ack (congestion t) (distance_from a (send_unacked t)) a"
  show ?thesis
  proof (rule that [where una = a and reno = "snd ?r"])
    show "fst (advance_unacked t s a w c) = t\<lparr>send_unacked := a, congestion := snd ?r\<rparr>"
      using True by (simp add: advance_unacked_def Let_def split_beta)
  qed (use assms d in \<open>simp_all add: tcb_wf_def\<close>)
next
  case False
  let ?r = "on_duplicate_ack (congestion t) (in_flight t) (send_next t)"
  have "in_flight t \<le> usize_max" using assms by (simp add: tcb_wf_def flight_ok_def)
  then have "reno_wf (snd ?r)" "reno_wf (congestion t)" using assms by (simp_all add: tcb_wf_def)
  note r = this
  have "fst (advance_unacked t s a w c) = t\<lparr>send_unacked := send_unacked t, congestion := snd ?r\<rparr> \<or>
      fst (advance_unacked t s a w c) = t\<lparr>send_unacked := send_unacked t, congestion := congestion t\<rparr>"
    unfolding advance_unacked_def if_not_P [OF False] by (simp add: split_beta Let_def)
  then obtain reno where "fst (advance_unacked t s a w c) = t\<lparr>send_unacked := send_unacked t, congestion := reno\<rparr>"
    "reno_wf reno" using r by blast
  then show ?thesis using False
    by (intro that [where una = "send_unacked t" and reno = reno]) (auto simp: in_flight_def)
qed

lemma process_ack_wf:
  assumes "tcb_wf t" "tcb_state t \<notin> {SynSent, SynReceived}"
  shows "tcb_wf (fst (process_ack t s w c))"
proof (cases "seg_acknowledgment s")
  case (Some a)
  obtain una reno where u: "fst (advance_unacked t s a w c) = t\<lparr>send_unacked := una, congestion := reno\<rparr>"
    "reno_wf reno" "distance_from (send_next t) una \<le> in_flight t" "una = send_unacked t \<or> una = a"
    "after a (send_unacked t) \<and> \<not> after a (send_next t) \<longrightarrow> una = a"
    by (rule advance_unacked_update [OF assms(1), where s = s and a = a and w = w and c = c])
  obtain pushed where adv: "advance_unacked t s a w c = (t\<lparr>send_unacked := una, congestion := reno\<rparr>, pushed)"
    using u(1) by (cases "advance_unacked t s a w c") simp
  have base: "receive_ok t" "initial_ok t" "flight_ok t" "peer_window t \<le> max_window" "rto_wf (tcb_rto t)"
    using assms(1) by (simp_all add: tcb_wf_def)
  have p: "0 < distance_from (send_next t) una" if "tcb_state t \<in> {FinWait1, Closing, LastAck}" "a \<noteq> send_next t"
    using base(3) that u(4) by (auto simp: flight_ok_def in_flight_def distance_pos_iff)
  have z: "una = send_next t" if "tcb_state t \<in> {FinWait1, Closing, LastAck}" "a = send_next t"
  proof -
    have "0 < in_flight t" "in_flight t \<le> max_window + 1" using base(3) that(1) by (auto simp: flight_ok_def)
    then have "after a (send_unacked t)" "\<not> after a (send_next t)"
      using that(2) by (simp_all add: after_iff in_flight_def)
    then show ?thesis using u(5) that(2) by simp
  qed
  define v where "v = t\<lparr>send_unacked := una, congestion := reno\<rparr>"
  have v: "receive_ok v" "initial_ok v" "peer_window v \<le> max_window" "rto_wf (tcb_rto v)" "reno_wf (congestion v)"
    "tcb_state v = tcb_state t" "in_flight v = distance_from (send_next t) una" "in_flight v \<le> in_flight t"
    using base u(2,3) by (simp_all add: v_def receive_ok_def initial_ok_def recv_window_def in_flight_def)
  have pa: "fst (process_ack t s w c) =
      (if tcb_state v = FinWait1 \<and> a = send_next t then v\<lparr>tcb_state := FinWait2\<rparr>
       else if tcb_state v = Closing \<and> a = send_next t then v\<lparr>tcb_state := TimeWait\<rparr>
       else if tcb_state v = LastAck \<and> a = send_next t then v\<lparr>tcb_state := Closed\<rparr> else v)"
    by (simp add: process_ack_def Some adv v_def enter_time_wait_def)
  consider "tcb_state t \<in> {FinWait1, Closing, LastAck}" "a = send_next t"
    | "tcb_state t \<notin> {FinWait1, Closing, LastAck}"
    | "tcb_state t \<in> {FinWait1, Closing, LastAck}" "a \<noteq> send_next t" by blast
  then show ?thesis
  proof cases
    case 1
    then have "in_flight v = 0" using z v(7) by simp
    then show ?thesis using 1 v pa by (auto simp: tcb_wf_def receive_ok_def initial_ok_def flight_ok_def)
  next
    case 2
    then have "fst (process_ack t s w c) = v" using v(6) pa by auto
    moreover have "flight_ok v" using 2 v(6,8) base(3) assms(2) by (auto simp: flight_ok_def)
    ultimately show ?thesis using v by (simp add: tcb_wf_def)
  next
    case 3
    then have "fst (process_ack t s w c) = v" using pa by auto
    moreover have "flight_ok v" using 3 p v(6-8) base(3) by (auto simp: flight_ok_def)
    ultimately show ?thesis using v by (simp add: tcb_wf_def)
  qed
qed (use assms in \<open>simp add: process_ack_def\<close>)


lemma clear_FIN [simp]: "\<not> contains (from_bits (f AND NOT FIN)) FIN"
proof
  assume "contains (from_bits (f AND NOT FIN)) FIN"
  then have "bit (from_bits (f AND NOT FIN) AND FIN) 0 = bit FIN 0" by (simp add: contains_def)
  then show False by (simp add: from_bits_def FIN_def bit_simps)
qed

lemma apply_initial_payload_fields:
  assumes "receive_ok t" "pending_initial_payload_len t \<le> recv_window t"
  defines "u \<equiv> fst (apply_initial_payload t)"
  shows "receive_ok u" "recv_window u = recv_window t - pending_initial_payload_len t"
    "pending_initial_payload_len u = 0" "pending_initial_fin u = pending_initial_fin t"
    "tcb_state u = tcb_state t" "in_flight u = in_flight t" "peer_window u = peer_window t"
    "tcb_rto u = tcb_rto t" "congestion u = congestion t"
proof -
  let ?n = "pending_initial_payload_len t"
  let ?v = "t\<lparr>recv_buffered := wadd (recv_buffered t) ?n, recv_next := wrapping_add (recv_next t) ?n\<rparr>"
  have "receive_ok ?v" using assms(1,2) by (rule advance_recv_wf)
  then show "receive_ok u" using assms(1) by (simp add: u_def apply_initial_payload_def Let_def receive_ok_def recv_window_def)
  show "recv_window u = recv_window t - ?n"
    using assms(2) by (simp add: u_def apply_initial_payload_def Let_def recv_window_def distance_add_right)
qed (simp_all add: u_def apply_initial_payload_def Let_def in_flight_def)

lemma complete_passive_handshake_wf:
  assumes "tcb_wf t" "complete_passive_handshake t s = (proceed, u, acts)"
  shows "tcb_wf u"
proof (cases "tcb_state t = SynReceived \<and> accepts_final_ack t s")
  case False
  then have "u = t" using assms(2)
    by (auto simp: complete_passive_handshake_def split: if_splits option.splits)
  then show ?thesis using assms(1) by simp
next
  case True
  define v where "v = t\<lparr>send_unacked := send_next t, tcb_state := Established\<rparr>"
  define x where "x = fst (apply_initial_payload v)"
  have v: "receive_ok v" "pending_initial_payload_len v \<le> recv_window v" "in_flight v = 0" "tcb_state v = Established"
    "pending_initial_fin v \<longrightarrow> pending_initial_payload_len v < recv_window v"
    "peer_window v \<le> max_window" "rto_wf (tcb_rto v)" "reno_wf (congestion v)"
    using assms(1) True
    by (auto simp: tcb_wf_def receive_ok_def initial_ok_def v_def recv_window_def in_flight_def split: if_splits)
  note x = apply_initial_payload_fields [OF v(1,2), folded x_def]
  have u: "u = fst (apply_initial_fin x)"
    using assms(2) True
    by (auto simp: complete_passive_handshake_def v_def [symmetric] x_def Let_def split_beta)
  show ?thesis
  proof (cases "pending_initial_fin x")
    case True
    let ?y = "x\<lparr>pending_initial_fin := False\<rparr>"
    have "tcb_wf ?y" using x v by (simp add: tcb_wf_def receive_ok_def initial_ok_def flight_ok_def recv_window_def in_flight_def)
    moreover have "0 < recv_window ?y" using True x v by (simp add: recv_window_def)
    ultimately show ?thesis using True x(5) v(4) by (simp add: u apply_initial_fin_def take_fin_wf)
  next
    case False
    then show ?thesis using x v
      by (simp add: u apply_initial_fin_def tcb_wf_def initial_ok_def flight_ok_def)
  qed
qed

lemma delayed_flag_wf [simp]: "tcb_wf (t\<lparr>delayed_ack_pending := b\<rparr>) = tcb_wf t"
  by (simp add: wf_defs)

lemma accept_in_order_wf:
  assumes "tcb_wf t" "tcb_state t \<notin> {SynSent, SynReceived}" "seg_payload_len s \<le> recv_window t"
    "contains (seg_flags s) FIN \<longrightarrow> seg_payload_len s < recv_window t"
  shows "tcb_wf (fst (accept_in_order t s))"
proof -
  let ?n = "seg_payload_len s"
  define v where "v = (if 0 < ?n then t\<lparr>recv_buffered := wadd (recv_buffered t) ?n,
     recv_next := wrapping_add (recv_next t) ?n\<rparr> else t)"
  have "receive_ok v" using assms(1,3) advance_recv_wf [of t ?n] by (simp add: v_def tcb_wf_def)
  moreover have w: "recv_window v = recv_window t - ?n"
    using assms(3) by (simp add: v_def recv_window_def distance_add_right)
  ultimately have v: "tcb_wf v" using assms(1,2)
    by (auto simp: v_def tcb_wf_def initial_ok_def flight_ok_def in_flight_def)
  have "contains (seg_flags s) FIN \<Longrightarrow> tcb_wf (fst (take_fin v))"
    using v w assms by (intro take_fin_wf) (auto simp: v_def)
  then show ?thesis using v unfolding v_def
    by (cases "0 < ?n") (simp_all add: accept_in_order_def Let_def split_beta)
qed


lemma process_ack_fields [simp]:
  "recv_next (fst (process_ack t s w c)) = recv_next t"
  "advertised_right_edge (fst (process_ack t s w c)) = advertised_right_edge t"
  "receive_window_scale (fst (process_ack t s w c)) = receive_window_scale t"
  "recv_buffered (fst (process_ack t s w c)) = recv_buffered t"
  "recv_capacity (fst (process_ack t s w c)) = recv_capacity t"
  "delayed_ack_pending (fst (process_ack t s w c)) = delayed_ack_pending t"
  by (simp_all add: process_ack_def advance_unacked_def enter_time_wait_def Let_def split_beta split: option.split)

lemma update_send_window_fields [simp]:
  "recv_next (update_send_window t s) = recv_next t"
  "advertised_right_edge (update_send_window t s) = advertised_right_edge t"
  "receive_window_scale (update_send_window t s) = receive_window_scale t"
  "recv_buffered (update_send_window t s) = recv_buffered t"
  "recv_capacity (update_send_window t s) = recv_capacity t"
  "tcb_state (update_send_window t s) = tcb_state t"
  "delayed_ack_pending (update_send_window t s) = delayed_ack_pending t"
  "send_next (update_send_window t s) = send_next t"
  "send_unacked (update_send_window t s) = send_unacked t"
  by (simp_all add: update_send_window_def split: option.split)

lemma trim_in_order_segment_props:
  assumes "seg_sequence (trim_in_order_segment t s) = recv_next t"
  shows "seg_payload_len (trim_in_order_segment t s) \<le> recv_window t"
    "contains (seg_flags (trim_in_order_segment t s)) FIN \<longrightarrow> seg_payload_len (trim_in_order_segment t s) < recv_window t"
  using assms by (auto simp: trim_in_order_segment_def Let_def recv_window_def split: if_splits)

lemma trim_seg [simp]:
  "seg_acknowledgment (trim_in_order_segment t s) = seg_acknowledgment s"
  "seg_window (trim_in_order_segment t s) = seg_window s"
  "seg_wf s \<Longrightarrow> seg_wf (trim_in_order_segment t s)"
  by (auto simp: trim_in_order_segment_def Let_def seg_wf_def)

text \<open>The block after the window update and the acknowledgment have been processed, with the actions
pushed so far; the rest of the segment path starts from it.\<close>

definition acked :: "TcpTcb \<Rightarrow> TcpSegmentMeta \<Rightarrow> TcpTcb \<times> TcpAction list" where
  "acked t s =
     (let s' = trim_in_order_segment t s; u = update_send_window t s';
          s'' = s'\<lparr>seg_window := (case try_u32 (peer_window u) of Some w \<Rightarrow> w | None \<Rightarrow> - 1)\<rparr>
      in process_ack u s'' (peer_window t) (seg_payload_len s > 0))"

lemma acked_fields [simp]:
  "recv_next (fst (acked t s)) = recv_next t"
  "advertised_right_edge (fst (acked t s)) = advertised_right_edge t"
  "receive_window_scale (fst (acked t s)) = receive_window_scale t"
  "recv_buffered (fst (acked t s)) = recv_buffered t"
  "recv_capacity (fst (acked t s)) = recv_capacity t"
  "delayed_ack_pending (fst (acked t s)) = delayed_ack_pending t"
  "recv_window (fst (acked t s)) = recv_window t"
  by (simp_all add: acked_def Let_def recv_window_def)

lemma acked_wf:
  "tcb_wf t \<Longrightarrow> seg_wf s \<Longrightarrow> tcb_state t \<notin> {SynSent, SynReceived} \<Longrightarrow> tcb_wf (fst (acked t s))"
  by (simp add: acked_def Let_def process_ack_wf)


end
