(* ===== verification/Tcp_Segment.thy ===== *)
theory Tcp_Segment
  imports Tcp_Facts
begin

text \<open>
  The segment path keeps the invariant: the three ways a segment that passed the sequence checks ends, the SYN-SENT path,
  and \<open>on_segment\<close> as a whole.
\<close>

lemma accept_in_order_window [simp]: "accept_in_order t (s\<lparr>seg_window := w\<rparr>) = accept_in_order t s"
  by (simp add: accept_in_order_def)

lemma on_acceptable_segment_unfold:
  "on_acceptable_segment t s acts =
     (let s' = trim_in_order_segment t s; u = fst (acked t s); as = acts @ snd (acked t s);
          answer = (fst (defend u), Ok (as @ snd (defend u)));
          carries = (0 < seg_payload_len s' \<or> contains (seg_flags s') FIN)
      in if tcb_state u = Closed then (u, Ok as)
         else if beyond_receive_window t s then answer
         else if peer_receive_closed u \<and> carries then answer
         else if carries then
           (if seg_sequence s' \<noteq> recv_next t then answer
            else if seg_payload_len s' > receive_available u then (u, Err ReceiveCreditExceeded)
            else (fst (accept_in_order u s'), Ok (as @ snd (accept_in_order u s'))))
         else (u, Ok as))"
  by (simp add: on_acceptable_segment_def acked_def Let_def split_beta)

lemma in_order_fits:
  assumes "tcb_wf t" "seg_wf s" "tcb_state t \<notin> {SynSent, SynReceived}"
    "seg_sequence (trim_in_order_segment t s) = recv_next t"
  shows "seg_payload_len (trim_in_order_segment t s) \<le> receive_available (fst (acked t s))"
proof -
  have "receive_ok (fst (acked t s))" using acked_wf [OF assms(1-3)] by (simp add: tcb_wf_def)
  then have "recv_window (fst (acked t s)) \<le> receive_available (fst (acked t s))" by (rule window_le_available)
  with trim_in_order_segment_props(1) [OF assms(4)] show ?thesis by simp
qed

text \<open>The three ways a segment that passed the checks ends.\<close>

lemma on_acceptable_segment_cases:
  assumes "tcb_wf t" "seg_wf s" "tcb_state t \<notin> {SynSent, SynReceived}"
  obtains (ack) "on_acceptable_segment t s acts = (fst (acked t s), Ok (acts @ snd (acked t s)))"
  | (answer) "on_acceptable_segment t s acts =
       (fst (defend (fst (acked t s))), Ok (acts @ snd (acked t s) @ snd (defend (fst (acked t s)))))"
       "tcb_state (fst (acked t s)) \<noteq> Closed"
  | (data) "on_acceptable_segment t s acts = (fst (accept_in_order (fst (acked t s)) (trim_in_order_segment t s)),
        Ok (acts @ snd (acked t s) @ snd (accept_in_order (fst (acked t s)) (trim_in_order_segment t s))))"
      "seg_sequence (trim_in_order_segment t s) = recv_next t"
      "\<not> peer_receive_closed (fst (acked t s))" "tcb_state (fst (acked t s)) \<noteq> Closed"
proof -
  let ?u = "fst (acked t s)" and ?as = "acts @ snd (acked t s)" and ?s = "trim_in_order_segment t s"
  let ?R = "on_acceptable_segment t s acts"
  have f: "seg_sequence ?s = recv_next t \<Longrightarrow> \<not> seg_payload_len ?s > receive_available ?u"
    using in_order_fits [OF assms] by simp
  have "?R = (?u, Ok ?as) \<or>
      (?R = (fst (defend ?u), Ok (acts @ snd (acked t s) @ snd (defend ?u))) \<and> tcb_state ?u \<noteq> Closed) \<or>
      (?R = (fst (accept_in_order ?u ?s), Ok (acts @ snd (acked t s) @ snd (accept_in_order ?u ?s))) \<and>
       seg_sequence ?s = recv_next t \<and> \<not> peer_receive_closed ?u \<and> tcb_state ?u \<noteq> Closed)"
    unfolding on_acceptable_segment_unfold Let_def using f by auto
  then show ?thesis using ack answer data by blast
qed

lemma accept_state: "tcb_state (fst (acked t s)) \<notin> {SynSent, SynReceived}" if "tcb_state t \<notin> {SynSent, SynReceived}"
  using that by (auto simp: acked_def process_ack_def advance_unacked_def enter_time_wait_def Let_def split_beta
     split: option.splits if_splits)

lemma on_acceptable_segment_wf:
  assumes "tcb_wf t" "seg_wf s" "tcb_state t \<notin> {SynSent, SynReceived}"
  shows "tcb_wf (fst (on_acceptable_segment t s acts))"
  using assms
proof (cases rule: on_acceptable_segment_cases [where acts = acts])
  case data
  then show ?thesis
    using accept_in_order_wf [OF acked_wf [OF assms] accept_state [OF assms(3)], of "trim_in_order_segment t s"]
      trim_in_order_segment_props [OF data(2)]
    by simp
qed (use acked_wf [OF assms] in simp_all)


lemma connecting_wf:
  assumes "tcb_wf t" "tcb_state t = SynSent" "seg_wf s" "x \<in> {SynReceived, Established}"
    "x = Established \<longrightarrow> una = send_next t" "x = SynReceived \<longrightarrow> una = send_unacked t"
  shows "tcb_wf (t\<lparr>recv_next := r, advertised_right_edge := wrapping_add r
       (advertisable_receive_capacity (recv_capacity t) (receive_window_scale t)),
       peer_window := unat (seg_window s), send_window_last_seq := l, send_window_last_ack := k,
       send_unacked := una, tcb_state := x\<rparr>)"
proof -
  let ?c = "advertisable_receive_capacity (recv_capacity t) (receive_window_scale t)"
  have c: "?c \<le> recv_capacity t" "?c \<le> max_window" by (rule advertisable_bounds)+
  then have "distance_from (wrapping_add r ?c) r = ?c" by (intro distance_wrapping_add) linarith
  then show ?thesis using assms c
    by (auto simp: tcb_wf_def receive_ok_def initial_ok_def flight_ok_def recv_window_def in_flight_def seg_wf_def)
qed

lemma closed_wf: "tcb_wf t \<Longrightarrow> tcb_wf (t\<lparr>tcb_state := Closed\<rparr>)"
  by (rule state_wf) (auto simp: tcb_wf_def flight_ok_def)

lemma on_syn_sent_segment_wf:
  assumes "tcb_wf t" "tcb_state t = SynSent" "seg_wf s"
  shows "tcb_wf (fst (on_syn_sent_segment t s))"
  using assms(1) closed_wf [OF assms(1)]
    connecting_wf [OF assms, where x = SynReceived and una = "send_unacked t" and l = "seg_sequence s"
       and k = "send_window_last_ack t" and r = "wrapping_add (seg_sequence s) 1"]
    connecting_wf [OF assms, where x = Established and una = "send_next t" and l = "seg_sequence s"
       and k = "send_next t" and r = "wrapping_add (seg_sequence s) 1"]
  by (simp add: on_syn_sent_segment_def Let_def split: option.split)

lemma handshake_state:
  "tcb_state t \<noteq> SynSent \<Longrightarrow> complete_passive_handshake t s = (True, u, acts) \<Longrightarrow>
   tcb_state u \<notin> {SynSent, SynReceived}"
  by (auto simp: complete_passive_handshake_def apply_initial_payload_def apply_initial_fin_def take_fin_def
      on_peer_fin_def cancel_delayed_ack_def enter_time_wait_def Let_def split_beta split: if_splits option.splits)

lemma simultaneous_seg_wf [simp]: "seg_wf s \<Longrightarrow> seg_wf (simultaneous_open_completion t s)"
  by (simp add: simultaneous_open_completion_def Let_def seg_wf_def)

lemma on_segment_wf:
  assumes "tcb_wf t" "seg_wf s"
  shows "tcb_wf (fst (on_segment t s))"
proof -
  define s' where "s' = (if active_open t \<and> tcb_state t = SynReceived then simultaneous_open_completion t s else s)"
  have s': "seg_wf s'" using assms(2) by (simp add: s'_def)
  obtain go u acts where h: "complete_passive_handshake t s' = (go, u, acts)" by (metis prod_cases3)
  have u: "tcb_wf u" using assms(1) h by (rule complete_passive_handshake_wf)
  have "tcb_wf (fst (on_acceptable_segment u s' acts))" if go "tcb_state t \<noteq> SynSent"
    using on_acceptable_segment_wf [OF u s'] handshake_state [of t s' u acts] h that by simp
  then show ?thesis
    using on_syn_sent_segment_wf [OF assms(1) _ assms(2)] closed_wf [OF assms(1)] assms(1) u
    by (simp add: on_segment_def s'_def [symmetric] h Let_def split_beta)
qed

end
