(* ===== verification/Tcp_Ops.thy ===== *)
theory Tcp_Ops
  imports Tcp_Segment
begin

text \<open>
  The invariant at construction and under the operations that are not segments: application
  events, timers, and the calls of the flow table.
\<close>

lemma reno_new_Ok:
  assumes "reno_new mss = Ok reno" "mss \<le> usize_max"
  shows "reno_wf reno" "0 < mss"
  using reno_new_wf [of mss] assms by (auto simp: reno_new_def Let_def split: if_splits)

lemma from_syn_wf:
  assumes "from_syn_with_options s iss reserved mss scale = Ok (t, acts)"
    "seg_wf s" "reserved \<le> usize_max" "mss \<le> usize_max"
  shows "tcb_wf t \<and> tcb_state t = SynReceived"
proof -
  let ?n = "max (advertisable_receive_capacity reserved (min scale 14)) (seg_payload_len s)"
  let ?r = "wrapping_add (seg_sequence s) 1"
  have fit: "seg_payload_len s \<le> reserved" using assms(1) by (auto simp: from_syn_with_options_def split: if_splits)
  obtain reno where r: "reno_new mss = (Ok reno :: (TcpError, NewReno) res)"
    using assms(1) by (auto simp: from_syn_with_options_def Let_def and_then_Ok_iff split: if_splits)
  note rw = reno_new_Ok [OF r assms(4)]
  have n: "?n \<le> reserved" "?n \<le> max_window"
    using advertisable_bounds [of reserved "min scale 14"] fit assms(2) by (auto simp: seg_wf_def)
  then have "distance_from (wrapping_add ?r ?n) ?r = ?n" by (intro distance_wrapping_add) linarith
  moreover have "distance_from (wrapping_add iss 1) iss = 1" by (rule distance_wrapping_add) simp
  ultimately have "recv_capacity t = reserved" "recv_buffered t = 0" "recv_window t = ?n" "in_flight t = 1"
    "tcb_state t = SynReceived" "receive_window_scale t = min scale 14"
    "pending_initial_payload_len t = seg_payload_len s"
    "pending_initial_fin t \<longrightarrow> seg_payload_len s < ?n" "peer_window t = unat (seg_window s)"
    "tcb_rto t = rto_default" "congestion t = reno"
    using assms(1) by (auto simp: from_syn_with_options_def Let_def r recv_window_def in_flight_def split: if_splits)
  then show ?thesis using assms(2,3) n rw(1)
    by (auto simp: tcb_wf_def receive_ok_def initial_ok_def flight_ok_def seg_wf_def)
qed

lemma connect_wf:
  assumes "connect iss reserved mss scale = Ok (t, acts)" "reserved \<le> usize_max" "mss \<le> usize_max"
  shows "tcb_wf t \<and> tcb_state t = SynSent"
proof -
  let ?n = "advertisable_receive_capacity reserved (min scale 14)"
  obtain reno where r: "reno_new mss = (Ok reno :: (TcpError, NewReno) res)"
    using assms(1) by (auto simp: connect_def Let_def and_then_Ok_iff)
  note rw = reno_new_Ok [OF r assms(3)]
  have n: "?n \<le> reserved" "?n \<le> max_window" by (rule advertisable_bounds)+
  then have "distance_from (wrapping_add 0 ?n) 0 = ?n" by (intro distance_wrapping_add) linarith
  moreover have "distance_from (wrapping_add iss 1) iss = 1" by (rule distance_wrapping_add) simp
  ultimately have "recv_capacity t = reserved" "recv_buffered t = 0" "recv_window t = ?n" "in_flight t = 1"
    "tcb_state t = SynSent" "receive_window_scale t = min scale 14" "pending_initial_payload_len t = 0"
    "\<not> pending_initial_fin t" "peer_window t = 0" "tcb_rto t = rto_default" "congestion t = reno"
    using assms(1) by (auto simp: connect_def Let_def r recv_window_def in_flight_def)
  then show ?thesis using assms(2) n rw(1)
    by (simp add: tcb_wf_def receive_ok_def initial_ok_def flight_ok_def)
qed

lemma after_window:
  assumes "after (wrapping_add r n) e" "distance_from e r \<le> max_window" "n \<le> max_window"
  shows "distance_from e r < n"
proof (rule ccontr)
  assume "\<not> ?thesis"
  then have le: "n \<le> distance_from e r" by simp
  then have "distance_from e (wrapping_add r n) = distance_from e r - n" by (rule distance_add_right)
  then have "distance_from e (wrapping_add r n) \<le> max_window" using assms(2) by linarith
  then show False using assms(1) by (auto simp: after_def before_iff)
qed

lemma on_consumed_wf:
  assumes "tcb_wf t"
  shows "tcb_wf (fst (on_consumed t n))"
proof (cases "n \<le> recv_buffered t")
  case True
  define u where "u = t\<lparr>recv_buffered := recv_buffered t - n\<rparr>"
  have "receive_ok u" "initial_ok u" using assms True
    by (auto simp: u_def tcb_wf_def receive_ok_def initial_ok_def tcb_frame)
  then have u: "tcb_wf u" using assms by (simp add: u_def tcb_wf_def tcb_frame)
  define c where "c = advertisable_receive_capacity (receive_available u) (receive_window_scale u)"
  have c: "c \<le> receive_available u" "c \<le> max_window" unfolding c_def by (rule advertisable_bounds)+
  have av: "receive_available u = recv_capacity u - recv_buffered u"
    using u by (simp add: tcb_wf_def receive_available_eq)
  let ?v = "u\<lparr>advertised_right_edge := wrapping_add (recv_next u) c\<rparr>"
  have "tcb_wf ?v" if "after (wrapping_add (recv_next u) c) (advertised_right_edge u)"
  proof -
    have d: "distance_from (wrapping_add (recv_next u) c) (recv_next u) = c"
      using c(2) by (intro distance_wrapping_add) linarith
    have "recv_window u < c" unfolding recv_window_def
      using that c(2) u by (intro after_window) (auto simp: tcb_wf_def receive_ok_def recv_window_def)
    moreover have "recv_window ?v = c" using d by (simp add: recv_window_def)
    ultimately have "receive_ok ?v" "initial_ok ?v" using u c av
      by (auto simp: tcb_wf_def receive_ok_def initial_ok_def)
    then show ?thesis using u by (simp add: tcb_wf_def tcb_frame)
  qed
  then show ?thesis using u True cancel_delayed_ack_wf [of ?v]
    by (simp add: on_consumed_def Let_def split_beta u_def [symmetric] c_def [symmetric])
qed (use assms in \<open>simp add: on_consumed_def\<close>)

lemma cancel_fields [simp]:
  "tcb_state (fst (cancel_delayed_ack t)) = tcb_state t" "send_next (fst (cancel_delayed_ack t)) = send_next t"
  "send_unacked (fst (cancel_delayed_ack t)) = send_unacked t" "recv_next (fst (cancel_delayed_ack t)) = recv_next t"
  "recv_buffered (fst (cancel_delayed_ack t)) = recv_buffered t" "recv_capacity (fst (cancel_delayed_ack t)) = recv_capacity t"
  "advertised_right_edge (fst (cancel_delayed_ack t)) = advertised_right_edge t"
  "receive_window_scale (fst (cancel_delayed_ack t)) = receive_window_scale t"
  "delayed_ack_pending (fst (cancel_delayed_ack t)) = False" "active_open (fst (cancel_delayed_ack t)) = active_open t"
  by (simp_all add: cancel_delayed_ack_def)

lemma send_next_wf:
  assumes "tcb_wf t" "in_flight t + n \<le> max_window" "tcb_state t \<in> {Established, CloseWait}"
  shows "tcb_wf (t\<lparr>send_next := wrapping_add (send_next t) n\<rparr>)"
proof -
  have "distance_from (wrapping_add (send_next t) n) (send_unacked t) = in_flight t + n"
    unfolding in_flight_def by (rule distance_add_left) (use assms(2) in \<open>simp add: in_flight_def\<close>)
  then have "in_flight (t\<lparr>send_next := wrapping_add (send_next t) n\<rparr>) = in_flight t + n"
    by (simp add: in_flight_def)
  then have "flight_ok (t\<lparr>send_next := wrapping_add (send_next t) n\<rparr>)" using assms(2,3)
    by (auto simp: flight_ok_def)
  then show ?thesis using assms(1) by (simp add: tcb_wf_def tcb_frame)
qed

lemma on_app_send_wf: "tcb_wf t \<Longrightarrow> tcb_wf (fst (on_app_send t n))"
proof -
  assume t: "tcb_wf t"
  have "in_flight t + n \<le> max_window" if "n \<le> send_available t" "n \<noteq> 0"
  proof -
    have "send_available t \<le> peer_window t - in_flight t" by (auto simp: send_available_def sat_sub_def)
    moreover have "peer_window t \<le> max_window" using t by (simp add: tcb_wf_def)
    ultimately show ?thesis using that by linarith
  qed
  then show ?thesis using t send_next_wf [OF t, of n]
    by (simp add: on_app_send_def Let_def split_beta)
qed

lemma start_close_wf:
  assumes "tcb_wf t" shows "tcb_wf (fst (start_close t))"
proof (cases "tcb_state t \<in> {Established, CloseWait}")
  case True
  have f: "in_flight t \<le> max_window" using assms True by (auto simp: tcb_wf_def flight_ok_def)
  then have "distance_from (wrapping_add (send_next t) 1) (send_unacked t) = in_flight t + 1"
    unfolding in_flight_def by (intro distance_add_left) simp
  then have n: "in_flight (t\<lparr>tcb_state := x, send_next := wrapping_add (send_next t) 1\<rparr>) = in_flight t + 1" for x
    by (simp add: in_flight_def)
  have "tcb_wf (t\<lparr>tcb_state := x, send_next := wrapping_add (send_next t) 1\<rparr>)" if "x \<in> {FinWait1, LastAck}" for x
  proof -
    have "initial_ok (t\<lparr>tcb_state := x\<rparr>)" using assms True that by (auto simp: tcb_wf_def initial_ok_def)
    moreover have "flight_ok (t\<lparr>tcb_state := x, send_next := wrapping_add (send_next t) 1\<rparr>)"
      using that f n [of x] by (auto simp: flight_ok_def)
    ultimately show ?thesis using assms by (simp add: tcb_wf_def tcb_frame)
  qed
  then show ?thesis using True by (auto simp: start_close_def Let_def)
qed (use assms in \<open>auto simp: start_close_def split: TcpState.split\<close>)

lemma on_app_event_wf: "tcb_wf t \<Longrightarrow> tcb_wf (fst (on_app_event t e))"
  using closed_wf [of t] cancel_delayed_ack_wf [of t] cancel_delayed_ack_wf [of "t\<lparr>tcb_state := Closed\<rparr>"]
  by (simp add: on_app_event_def Let_def split_beta on_consumed_wf on_app_send_wf start_close_wf
      split: AppEvent.split)

lemma loss_wf:
  "tcb_wf t \<Longrightarrow> reno_wf r \<Longrightarrow> tcb_wf (t\<lparr>congestion := r\<rparr>)"
  "tcb_wf t \<Longrightarrow> rto_wf x \<Longrightarrow> tcb_wf (t\<lparr>tcb_rto := x\<rparr>)"
  by (simp_all add: wf_defs)

lemma flight_usize: "tcb_wf t \<Longrightarrow> in_flight t \<le> usize_max"
  by (simp add: tcb_wf_def flight_ok_def)

lemma on_timer_wf:
  assumes "tcb_wf t" shows "tcb_wf (fst (on_timer t e))"
proof -
  let ?u = "t\<lparr>congestion := on_timeout (congestion t) (in_flight t), tcb_rto := backoff (tcb_rto t)\<rparr>"
  have "reno_wf (on_timeout (congestion t) (in_flight t))" "rto_wf (backoff (tcb_rto t))"
    using assms flight_usize [OF assms] by (simp_all add: tcb_wf_def)
  then have "tcb_wf ?u" using loss_wf assms by simp
  then show ?thesis using assms closed_wf [OF assms]
    by (simp add: on_timer_def on_retransmission_timeout_def Let_def split: TimerEvent.split option.split)
qed

lemma on_sack_loss_wf:
  assumes "tcb_wf t" shows "tcb_wf (fst (on_sack_loss t))"
proof -
  have "reno_wf (snd (reno_on_sack_loss (congestion t) (in_flight t) (send_next t)))"
    using assms flight_usize [OF assms] by (simp add: tcb_wf_def)
  then show ?thesis using assms by (simp add: on_sack_loss_def Let_def split_beta loss_wf)
qed


section \<open>Operations of the flow table\<close>

lemma accept_queued_payload_wf:
  assumes "tcb_wf t" "tcb_state t \<notin> {SynSent, SynReceived}" "n \<le> recv_window t"
  shows "tcb_wf (fst (accept_queued_payload t n))"
proof -
  let ?u = "t\<lparr>recv_buffered := wadd (recv_buffered t) n, recv_next := wrapping_add (recv_next t) n\<rparr>"
  have "receive_ok ?u" using assms(1,3) by (simp add: tcb_wf_def advance_recv_wf)
  moreover have "initial_ok ?u" using assms(1,2) by (auto simp: tcb_wf_def initial_ok_def)
  ultimately have "tcb_wf ?u" using assms(1) by (simp add: tcb_wf_def tcb_frame)
  then show ?thesis using assms(1) by (simp add: accept_queued_payload_def)
qed

lemma grow_receive_capacity_wf:
  assumes "tcb_wf t" "recv_capacity t + n \<le> usize_max"
  shows "tcb_wf (grow_receive_capacity t n)"
proof -
  have "receive_ok (t\<lparr>recv_capacity := wadd (recv_capacity t) n\<rparr>)"
    using assms by (auto simp: tcb_wf_def receive_ok_def wadd_small tcb_frame)
  then show ?thesis using assms(1) by (simp add: grow_receive_capacity_def Let_def tcb_wf_def tcb_frame)
qed

lemma withdraw_receive_window_scale_wf: "tcb_wf t \<Longrightarrow> tcb_wf (withdraw_receive_window_scale t)"
  by (auto simp: withdraw_receive_window_scale_def tcb_wf_def receive_ok_def tcb_frame)

lemma record_rtt_sample_wf: "tcb_wf t \<Longrightarrow> tcb_wf (record_rtt_sample t n)"
  by (simp add: record_rtt_sample_def loss_wf)

lemma force_ack_wf: "tcb_wf t \<Longrightarrow> tcb_wf (fst (force_ack t))"
  by (simp add: force_ack_def split_beta)

end
