(* ===== verification/Tcp_Effects.thy ===== *)
theory Tcp_Effects
  imports Tcp_Ops
begin

text \<open>
  What a call does, read off the actions it returns: how many bytes it delivers, what it does to the
  retransmission and delayed-acknowledgment timers, which window it announces, and which edge of
  the connection state machine it takes.
\<close>

section \<open>Reading an action list\<close>

fun delivered :: "TcpAction list \<Rightarrow> nat" where
  "delivered [] = 0"
| "delivered (DeliverPayload n # as) = n + delivered as"
| "delivered (_ # as) = delivered as"

fun half_closes :: "TcpAction list \<Rightarrow> nat" where
  "half_closes [] = 0"
| "half_closes (PeerHalfClosed # as) = Suc (half_closes as)"
| "half_closes (_ # as) = half_closes as"

text \<open>The state of the retransmission timer after the actions, from its state before them.\<close>

fun rexmit_timer :: "TcpAction list \<Rightarrow> bool \<Rightarrow> bool" where
  "rexmit_timer [] armed = armed"
| "rexmit_timer (ArmRetransmission _ # as) armed = rexmit_timer as True"
| "rexmit_timer (DisarmRetransmission # as) armed = rexmit_timer as False"
| "rexmit_timer (_ # as) armed = rexmit_timer as armed"

fun dack_timer :: "TcpAction list \<Rightarrow> bool \<Rightarrow> bool" where
  "dack_timer [] armed = armed"
| "dack_timer (ArmDelayedAck # as) armed = dack_timer as True"
| "dack_timer (DisarmDelayedAck # as) armed = dack_timer as False"
| "dack_timer (_ # as) armed = dack_timer as armed"

fun controls :: "TcpAction list \<Rightarrow> SendControl list" where
  "controls [] = []"
| "controls (Send c # as) = c # controls as"
| "controls (DefensiveAck c # as) = c # controls as"
| "controls (SendPayload c # as) = c # controls as"
| "controls (RetransmitPayload c # as) = c # controls as"
| "controls (_ # as) = controls as"

text \<open>The right edge a segment announces is not past the right edge of the block.\<close>

definition announces_within :: "SeqNumber \<Rightarrow> nat \<Rightarrow> SendControl \<Rightarrow> bool" where
  "announces_within edge scale c \<longleftrightarrow>
     unat (ctl_window c) * (if contains (ctl_flags c) SYN then 1 else 2 ^ scale)
       \<le> distance_from edge (ctl_acknowledgment c)"

text \<open>The edges of the RFC 9293 state diagram that this implementation uses.\<close>

inductive rfc_edge :: "TcpState \<Rightarrow> TcpState \<Rightarrow> bool" where
  "rfc_edge SynSent SynReceived"
| "rfc_edge SynSent Established"
| "rfc_edge SynReceived Established"
| "rfc_edge Established FinWait1"
| "rfc_edge Established CloseWait"
| "rfc_edge FinWait1 FinWait2"
| "rfc_edge FinWait1 Closing"
| "rfc_edge FinWait1 TimeWait"
| "rfc_edge FinWait2 TimeWait"
| "rfc_edge Closing TimeWait"
| "rfc_edge CloseWait LastAck"
| "s \<noteq> Closed \<Longrightarrow> rfc_edge s Closed"

inductive_simps rfc_edge_from_Closed [simp]: "rfc_edge Closed s"

definition effect :: "TcpTcb \<Rightarrow> TcpAction list \<Rightarrow> TcpTcb \<Rightarrow> bool" where
  "effect t as u \<longleftrightarrow>
     recv_next u = wrapping_add (recv_next t) (delivered as + half_closes as) \<and>
     recv_buffered u = recv_buffered t + delivered as \<and>
     advertised_right_edge u = advertised_right_edge t \<and>
     receive_window_scale u = receive_window_scale t \<and> recv_capacity u = recv_capacity t \<and>
     (tcb_state u \<noteq> Closed \<longrightarrow>
        rexmit_timer as (send_unacked t \<noteq> send_next t) = (send_unacked u \<noteq> send_next u) \<and>
        dack_timer as (delayed_ack_pending t) = delayed_ack_pending u) \<and>
     rfc_edge\<^sup>*\<^sup>* (tcb_state t) (tcb_state u) \<and>
     (\<forall>c \<in> set (controls as). announces_within (advertised_right_edge t) (receive_window_scale t) c)"

section \<open>Composition\<close>

lemma delivered_append [simp]: "delivered (as @ bs) = delivered as + delivered bs"
  by (induction as rule: delivered.induct) simp_all

lemma half_closes_append [simp]: "half_closes (as @ bs) = half_closes as + half_closes bs"
  by (induction as rule: half_closes.induct) simp_all

lemma rexmit_timer_append [simp]: "rexmit_timer (as @ bs) b = rexmit_timer bs (rexmit_timer as b)"
  by (induction as b rule: rexmit_timer.induct) simp_all

lemma dack_timer_append [simp]: "dack_timer (as @ bs) b = dack_timer bs (dack_timer as b)"
  by (induction as b rule: dack_timer.induct) simp_all

lemma controls_append [simp]: "controls (as @ bs) = controls as @ controls bs"
  by (induction as rule: controls.induct) simp_all

lemma Closed_absorbing: "rfc_edge\<^sup>*\<^sup>* Closed s \<Longrightarrow> s = Closed"
  by (erule converse_rtranclpE) simp_all

lemma effect_refl: "effect t [] t"
  by (simp add: effect_def)

lemma effect_trans:
  assumes "effect t as u" "effect u bs v"
  shows "effect t (as @ bs) v"
proof -
  have "tcb_state u \<noteq> Closed" if "tcb_state v \<noteq> Closed"
    using assms(2) that Closed_absorbing by (auto simp: effect_def)
  then show ?thesis using assms
    by (auto simp: effect_def wrapping_add_add add_ac intro: rtranclp_trans)
qed

lemma window_announced: "announces_within (advertised_right_edge t) (receive_window_scale t) (control t f s)"
proof -
  let ?d = "distance_from (advertised_right_edge t) (recv_next t)"
  have m: "unat (case try_u16 n of Some w \<Rightarrow> w | None \<Rightarrow> - 1) = min n 65535" for n
  proof (cases "n \<le> u16_max")
    case True
    then show ?thesis by (simp add: try_u16_def unat_word_of_nat16)
  next
    case False
    have "unat (- 1 :: u16) = 65535" by (simp add: unsigned_minus_1_eq_mask mask_eq_exp_minus_1)
    then show ?thesis using False by (simp add: try_u16_def)
  qed
  have "min (?d div 2 ^ receive_window_scale t) 65535 * 2 ^ receive_window_scale t
      \<le> ?d div 2 ^ receive_window_scale t * 2 ^ receive_window_scale t" by (rule mult_le_mono1) simp
  also have "\<dots> \<le> ?d" by (rule div_times_less_eq_dividend)
  finally show ?thesis
    by (simp add: announces_within_def control_def Let_def advertised_window_def m)
qed

lemma tcb_ack_announced: "announces_within (advertised_right_edge t) (receive_window_scale t) (tcb_ack t)"
  by (simp add: tcb_ack_def window_announced)

lemma announced_like:
  "advertised_right_edge u = e \<Longrightarrow> receive_window_scale u = k \<Longrightarrow> announces_within e k (control u f s)"
  "advertised_right_edge u = e \<Longrightarrow> receive_window_scale u = k \<Longrightarrow> announces_within e k (tcb_ack u)"
  using window_announced [of u] tcb_ack_announced [of u] by auto

section \<open>The helpers\<close>

lemma cancel_effect: "effect t (snd (cancel_delayed_ack t)) (fst (cancel_delayed_ack t))"
  by (simp add: effect_def cancel_delayed_ack_def)

lemma ack_effect: "effect t [Send (tcb_ack t)] t" "effect t [DefensiveAck (tcb_ack t)] t" "effect t [ChallengeAck] t"
  by (simp_all add: effect_def tcb_ack_announced)

lemma defend_effect: "effect t (snd (defend t)) (fst (defend t))"
  using effect_trans [OF cancel_effect ack_effect(2)] by (simp add: defend_def split_beta)

lemma take_fin_effect: "effect t (snd (take_fin t)) (fst (take_fin t))"
proof -
  let ?u = "t\<lparr>recv_next := wrapping_add (recv_next t) 1\<rparr>"
  have "effect t (snd (on_peer_fin ?u)) (fst (on_peer_fin ?u))"
    by (cases "tcb_state t") (auto simp: effect_def on_peer_fin_def enter_time_wait_def intro: rfc_edge.intros)
  from effect_trans [OF effect_trans [OF this cancel_effect] ack_effect(1)]
  show ?thesis by (simp add: take_fin_def split_beta Let_def)
qed

lemma update_send_window_effect: "effect t [] (update_send_window t s)"
  by (simp add: effect_def)

lemma advance_unacked_effect:
  "effect t (snd (advance_unacked t s a w c)) (fst (advance_unacked t s a w c))"
  by (simp add: effect_def advance_unacked_def Let_def split_beta announced_like)

lemma process_ack_effect: "effect t (snd (process_ack t s w c)) (fst (process_ack t s w c))"
proof (cases "seg_acknowledgment s")
  case None
  then show ?thesis by (simp add: process_ack_def effect_refl)
next
  case (Some a)
  let ?v = "fst (advance_unacked t s a w c)"
  define n where "n = (if tcb_state ?v = FinWait1 \<and> a = send_next ?v then (?v\<lparr>tcb_state := FinWait2\<rparr>, [])
    else if tcb_state ?v = Closing \<and> a = send_next ?v then enter_time_wait ?v
    else if tcb_state ?v = LastAck \<and> a = send_next ?v then (?v\<lparr>tcb_state := Closed\<rparr>, [ConnectionClosed])
    else (?v, []))"
  have "effect ?v (snd n) (fst n)"
    by (auto simp: n_def effect_def enter_time_wait_def intro: rfc_edge.intros)
  from effect_trans [OF advance_unacked_effect this] show ?thesis
    by (simp add: process_ack_def Some n_def split_beta)
qed

lemma acked_effect: "effect t (snd (acked t s)) (fst (acked t s))"
  using effect_trans [OF update_send_window_effect process_ack_effect] by (simp add: acked_def Let_def)

lemma deliver_effect:
  "recv_buffered t + n \<le> u64_max \<Longrightarrow>
   effect t [DeliverPayload n] (t\<lparr>recv_buffered := wadd (recv_buffered t) n, recv_next := wrapping_add (recv_next t) n\<rparr>)"
  by (simp add: effect_def wadd_small)

lemma delay_effect:
  "effect t [ArmDelayedAck] (t\<lparr>delayed_ack_pending := True\<rparr>)"
  "effect t [DisarmDelayedAck] (t\<lparr>delayed_ack_pending := False\<rparr>)"
  by (simp_all add: effect_def)

lemma accept_in_order_effect:
  assumes "recv_buffered t + seg_payload_len s \<le> u64_max"
  shows "effect t (snd (accept_in_order t s)) (fst (accept_in_order t s))"
proof -
  let ?n = "seg_payload_len s"
  define v where "v = (if 0 < ?n then (t\<lparr>recv_buffered := wadd (recv_buffered t) ?n,
     recv_next := wrapping_add (recv_next t) ?n\<rparr>, [DeliverPayload ?n]) else (t, []))"
  have v: "effect t (snd v) (fst v)" using deliver_effect [OF assms] by (simp add: v_def effect_refl)
  define r where "r = (if contains (seg_flags s) FIN then take_fin (fst v)
     else if 0 < ?n then
       (if delayed_ack_pending (fst v)
        then let u = (fst v)\<lparr>delayed_ack_pending := False\<rparr> in (u, [DisarmDelayedAck, Send (tcb_ack u)])
        else ((fst v)\<lparr>delayed_ack_pending := True\<rparr>, [ArmDelayedAck]))
     else (fst v, []))"
  have "effect (fst v) (snd r) (fst r)"
    using effect_trans [OF delay_effect(2) ack_effect(1), of "fst v"]
    by (simp add: r_def take_fin_effect effect_refl delay_effect(1) Let_def)
  moreover have "accept_in_order t s = (fst r, snd v @ snd r)"
    by (simp add: accept_in_order_def r_def v_def Let_def split_beta)
  ultimately show ?thesis using effect_trans [OF v] by simp
qed


lemma handshake_effect:
  assumes "tcb_wf t" "complete_passive_handshake t s = (go, u, acts)"
  shows "effect t acts u"
proof (cases "tcb_state t = SynReceived \<and> accepts_final_ack t s")
  case False
  have "send_unacked t \<noteq> send_next t" if "tcb_state t = SynReceived"
    using assms(1) that by (auto simp: tcb_wf_def flight_ok_def in_flight_def)
  with False show ?thesis using assms(2)
    by (auto simp: complete_passive_handshake_def effect_def announced_like split: if_splits option.splits)
next
  case True
  define v where "v = t\<lparr>send_unacked := send_next t, tcb_state := Established\<rparr>"
  let ?h = "[if active_open t then Connected else Accepted, DisarmRetransmission]"
  have v: "effect t ?h v"
    using True by (auto simp: v_def effect_def intro: rfc_edge.intros)
  define x where "x = fst (apply_initial_payload v)"
  have "recv_buffered t + pending_initial_payload_len t \<le> u64_max"
    using assms(1) True by (auto simp: tcb_wf_def receive_ok_def initial_ok_def)
  then have x: "effect v (snd (apply_initial_payload v)) x"
    by (auto simp: x_def v_def effect_def apply_initial_payload_def Let_def wadd_small)
  have y: "effect x (snd (apply_initial_fin x)) (fst (apply_initial_fin x))"
    using take_fin_effect [of "x\<lparr>pending_initial_fin := False\<rparr>"]
    by (simp add: apply_initial_fin_def effect_refl) (simp add: effect_def)
  have "active_open (fst (apply_initial_fin x)) = active_open t"
    by (simp add: x_def v_def apply_initial_fin_def apply_initial_payload_def take_fin_def on_peer_fin_def
        enter_time_wait_def Let_def split_beta split: TcpState.split)
  then have "u = fst (apply_initial_fin x)" "acts = ?h @ snd (apply_initial_payload v) @ snd (apply_initial_fin x)"
    using assms(2) True
    by (auto simp: complete_passive_handshake_def v_def [symmetric] x_def Let_def split_beta)
  then show ?thesis using effect_trans [OF effect_trans [OF v x] y] by simp
qed

lemma on_acceptable_segment_effect:
  assumes "tcb_wf t" "seg_wf s" "tcb_state t \<notin> {SynSent, SynReceived}" "effect p as t"
  shows "\<exists>bs. snd (on_acceptable_segment t s as) = Ok bs \<and> effect p bs (fst (on_acceptable_segment t s as))"
proof -
  note e = effect_trans [OF assms(4) acked_effect [of t s]]
  from assms(1-3) show ?thesis
  proof (cases rule: on_acceptable_segment_cases [where acts = as])
    case data
    have w: "receive_ok (fst (acked t s))" using acked_wf [OF assms(1-3)] by (simp add: tcb_wf_def)
    have "seg_payload_len (trim_in_order_segment t s) \<le> recv_window t"
      using trim_in_order_segment_props(1) [OF data(2)] .
    then have "recv_buffered (fst (acked t s)) + seg_payload_len (trim_in_order_segment t s) \<le> u64_max"
      using w by (auto simp: receive_ok_def)
    from effect_trans [OF e accept_in_order_effect [OF this]] show ?thesis by (simp add: data(1))
  next
    case answer
    from effect_trans [OF e defend_effect] show ?thesis by (simp add: answer(1))
  qed (use e in simp)
qed

text \<open>The whole segment path: on a well-formed block it never fails, and its actions account for what
it did to the block.\<close>

lemma on_segment_effect:
  assumes "tcb_wf t" "seg_wf s" "tcb_state t \<notin> {SynSent, Closed}"
  shows "\<exists>acts. snd (on_segment t s) = Ok acts \<and> effect t acts (fst (on_segment t s))"
proof -
  define s' where "s' = (if active_open t \<and> tcb_state t = SynReceived then simultaneous_open_completion t s else s)"
  have s': "seg_wf s'" using assms(2) by (simp add: s'_def)
  obtain go u acts where h: "complete_passive_handshake t s' = (go, u, acts)" by (metis prod_cases3)
  have u: "tcb_wf u" using assms(1) h by (rule complete_passive_handshake_wf)
  have e: "effect t acts u" using assms(1) h by (rule handshake_effect)
  have acc: "\<exists>bs. snd (on_acceptable_segment u s' acts) = Ok bs \<and> effect t bs (fst (on_acceptable_segment u s' acts))"
    if go using on_acceptable_segment_effect [OF u s' _ e] handshake_state [of t s' u acts] h that assms(3) by simp
  have final: "acts = [] \<and> u = t" if go "contains (seg_flags s') SYN \<or> \<not> contains (seg_flags s') ACK"
    using h that by (auto simp: complete_passive_handshake_def accepts_final_ack_def split: if_splits option.splits)
  have rst: "effect t [ConnectionClosed] (t\<lparr>tcb_state := Closed\<rparr>)"
    using assms(3) by (auto simp: effect_def intro: rfc_edge.intros)
  show ?thesis
    using assms(3) acc e final rst effect_trans [OF e defend_effect] effect_trans [OF e ack_effect(2)]
      ack_effect(3) [of t] effect_refl [of t]
    by (simp add: on_segment_def s'_def [symmetric] h Let_def split_beta)
qed

end
