(* ===== verification/Tcp_Machine.thy ===== *)
theory Tcp_Machine
  imports Tcp_Effects
begin

text \<open>
  A connection over its whole life: the control block together with the two timers its owner keeps
  for it, driven by segments, application calls, timer expirations and the calls of the flow table
  in any order.  The invariant of the reachable connections gives the properties of the TCP core.
\<close>

section \<open>Connections and their steps\<close>

record connection =
  conn_tcb :: TcpTcb
  rexmit_armed :: bool
  dack_armed :: bool

datatype conn_event =
  Segment TcpSegmentMeta
| App AppEvent
| Timer TimerEvent
| RttSample nat
| SackLoss
| QueuedPayload nat
| QueuedFin
| ForceAck
| RejectSegment
| GrowReceive nat
| WithdrawScale

definition result_actions :: "('e, TcpAction list) res \<Rightarrow> TcpAction list" where
  "result_actions r = (case r of Ok as \<Rightarrow> as | _ \<Rightarrow> [])"

text \<open>What an event does to the block, with the actions handed to the owner.\<close>

fun deliver :: "TcpTcb \<Rightarrow> conn_event \<Rightarrow> TcpTcb \<times> TcpAction list" where
  "deliver t (Segment s) = (let (u, r) = on_segment t s in (u, result_actions r))"
| "deliver t (App e) = (let (u, r) = on_app_event t e in (u, result_actions r))"
| "deliver t (Timer e) = (let (u, r) = on_timer t e in (u, result_actions r))"
| "deliver t (RttSample n) = (record_rtt_sample t n, [])"
| "deliver t SackLoss = on_sack_loss t"
| "deliver t (QueuedPayload n) =
     (let (u, r) = accept_queued_payload t n in (u, case r of Ok a \<Rightarrow> [a] | _ \<Rightarrow> []))"
| "deliver t QueuedFin = accept_queued_fin t"
| "deliver t ForceAck = force_ack t"
| "deliver t RejectSegment = reject_unacceptable_segment t"
| "deliver t (GrowReceive n) = (grow_receive_capacity t n, [])"
| "deliver t WithdrawScale = (withdraw_receive_window_scale t, [])"

text \<open>
  What the owner may do.  Segments come from the parser, with a window scaled by at most 14 bits.
  Queued payload and a queued FIN were admitted inside the announced window once the handshake was over;
  the budget never grows past the address space.
\<close>

fun allowed :: "TcpTcb \<Rightarrow> conn_event \<Rightarrow> bool" where
  "allowed t (Segment s) = seg_wf s"
| "allowed t (QueuedPayload n) =
     (tcb_state t \<notin> {SynSent, SynReceived} \<and> n \<le> recv_window t)"
| "allowed t QueuedFin = (tcb_state t \<notin> {SynSent, SynReceived} \<and> 0 < recv_window t)"
| "allowed t (GrowReceive n) = (recv_capacity t + n \<le> usize_max)"
| "allowed t _ = True"

text \<open>A timer that fires is no longer armed; the actions then arm and disarm timers in order.\<close>

definition step :: "connection \<Rightarrow> conn_event \<Rightarrow> connection" where
  "step c e =
     (let (u, as) = deliver (conn_tcb c) e
      in \<lparr>conn_tcb = u,
          rexmit_armed = rexmit_timer as (rexmit_armed c \<and> e \<noteq> Timer Retransmission),
          dack_armed = dack_timer as (dack_armed c \<and> e \<noteq> Timer DelayedAck)\<rparr>)"

inductive reachable :: "connection \<Rightarrow> bool" where
  listening: "from_syn_with_options s iss reserved mss scale = Ok (t, as) \<Longrightarrow> seg_wf s \<Longrightarrow>
     reserved \<le> usize_max \<Longrightarrow> mss \<le> usize_max \<Longrightarrow>
     reachable \<lparr>conn_tcb = t, rexmit_armed = rexmit_timer as False, dack_armed = dack_timer as False\<rparr>"
| connecting: "connect iss reserved mss scale = Ok (t, as) \<Longrightarrow>
     reserved \<le> usize_max \<Longrightarrow> mss \<le> usize_max \<Longrightarrow>
     reachable \<lparr>conn_tcb = t, rexmit_armed = rexmit_timer as False, dack_armed = dack_timer as False\<rparr>"
| step: "reachable c \<Longrightarrow> allowed (conn_tcb c) e \<Longrightarrow> reachable (step c e)"

definition timers_ok :: "connection \<Rightarrow> bool" where
  "timers_ok c \<longleftrightarrow> tcb_state (conn_tcb c) \<noteq> Closed \<longrightarrow>
     rexmit_armed c = (send_unacked (conn_tcb c) \<noteq> send_next (conn_tcb c)) \<and>
     dack_armed c = delayed_ack_pending (conn_tcb c)"

text \<open>An established connection with 500 bytes in flight and 1000 bytes buffered, for the examples.\<close>

definition example_tcb :: TcpTcb where
  "example_tcb = \<lparr>tcb_state = Established, recv_next = 1001, send_unacked = 5000, send_next = 5500,
     recv_capacity = 65535, recv_buffered = 1000, advertised_right_edge = 65536,
     update_threshold = 1460, peer_window = 20000, send_window_last_seq = 1, send_window_last_ack = 5000,
     receive_window_scale = 0, tcb_rto = rto_default,
     congestion = \<lparr>maximum_segment_size = 1460, congestion_window = 4380, slow_start_threshold = usize_max,
       congestion_avoidance_credit = 0, duplicate_acks = 0, recover = None\<rparr>,
     delayed_ack_pending = False, pending_initial_payload_len = 0, pending_initial_fin = False,
     active_open = False\<rparr>"

definition example_segment :: "TcpFlags \<Rightarrow> SeqNumber \<Rightarrow> nat \<Rightarrow> TcpSegmentMeta" where
  "example_segment flags seq n = \<lparr>seg_sequence = seq, seg_acknowledgment = Some 5200, seg_flags = flags,
     seg_window = 20000, seg_payload_len = n\<rparr>"

section \<open>Every event keeps the invariant\<close>

lemma deliver_wf:
  assumes "tcb_wf t" "allowed t e"
  shows "tcb_wf (fst (deliver t e))"
  using assms
  by (cases e)
     (simp_all add: split_beta on_segment_wf on_app_event_wf on_timer_wf record_rtt_sample_wf on_sack_loss_wf
       accept_queued_payload_wf accept_queued_fin_def take_fin_wf force_ack_wf reject_unacceptable_segment_def
       grow_receive_capacity_wf withdraw_receive_window_scale_wf)

text \<open>The timers after an event, from the timers before it, for the events that are not timer expirations.\<close>

definition timed :: "TcpTcb \<Rightarrow> TcpAction list \<Rightarrow> TcpTcb \<Rightarrow> bool" where
  "timed t as u \<longleftrightarrow> tcb_state u \<noteq> Closed \<longrightarrow>
     rexmit_timer as (send_unacked t \<noteq> send_next t) = (send_unacked u \<noteq> send_next u) \<and>
     dack_timer as (delayed_ack_pending t) = delayed_ack_pending u"

lemma effect_timed: "effect t as u \<Longrightarrow> timed t as u"
  by (simp add: effect_def timed_def)

lemma effect_edges: "effect t as u \<Longrightarrow> rfc_edge\<^sup>*\<^sup>* (tcb_state t) (tcb_state u)"
  by (simp add: effect_def)

lemma on_syn_sent_timed:
  assumes "tcb_wf t" "tcb_state t = SynSent"
  shows "timed t (snd (on_syn_sent_segment t s)) (fst (on_syn_sent_segment t s))"
proof -
  have "send_unacked t \<noteq> send_next t" using assms by (auto simp: tcb_wf_def flight_ok_def in_flight_def)
  then show ?thesis by (simp add: on_syn_sent_segment_def timed_def Let_def split: option.split)
qed

lemma on_consumed_timed: "timed t (result_actions (snd (on_consumed t n))) (fst (on_consumed t n))"
  by (simp add: on_consumed_def timed_def result_actions_def Let_def split_beta cancel_delayed_ack_def)

lemma wrapping_add_ne: "0 < n \<Longrightarrow> distance_from a b + n < 4294967296 \<Longrightarrow> wrapping_add a n \<noteq> b"
  using distance_add_left [of a b n] by auto

lemma on_app_send_timed:
  assumes "tcb_wf t"
  shows "timed t (result_actions (snd (on_app_send t n))) (fst (on_app_send t n))"
proof (cases "tcb_state t \<in> {Established, CloseWait} \<and> n \<le> send_available t \<and> n \<noteq> 0")
  case True
  have "send_available t \<le> peer_window t - in_flight t" by (auto simp: send_available_def sat_sub_def)
  moreover have "peer_window t \<le> max_window" using assms by (simp add: tcb_wf_def)
  ultimately have "distance_from (send_next t) (send_unacked t) + n < 4294967296"
    using True by (auto simp: in_flight_def)
  then have "send_unacked t \<noteq> wrapping_add (send_next t) n" using True wrapping_add_ne [of n "send_next t" "send_unacked t"] by auto
  then show ?thesis using True
    by (auto simp: on_app_send_def timed_def result_actions_def Let_def split_beta cancel_delayed_ack_def)
qed (auto simp: on_app_send_def timed_def result_actions_def)

lemma start_close_timed:
  assumes "tcb_wf t" "\<not> delayed_ack_pending t"
  shows "timed t (snd (start_close t)) (fst (start_close t))"
proof -
  have "distance_from (send_next t) (send_unacked t) + 1 < 4294967296"
    using assms(1) by (auto simp: tcb_wf_def flight_ok_def in_flight_def)
  then have "send_unacked t \<noteq> wrapping_add (send_next t) 1"
    using wrapping_add_ne [of 1 "send_next t" "send_unacked t"] by auto
  then show ?thesis using assms(2) by (simp add: start_close_def timed_def Let_def split: TcpState.split)
qed

lemma on_app_event_timed:
  assumes "tcb_wf t"
  shows "timed t (result_actions (snd (on_app_event t e))) (fst (on_app_event t e))"
proof -
  let ?u = "fst (cancel_delayed_ack t)"
  have "timed ?u (snd (start_close ?u)) (fst (start_close ?u))" using assms by (intro start_close_timed) simp_all
  then have "timed t (snd (cancel_delayed_ack t) @ snd (start_close ?u)) (fst (start_close ?u))"
    by (simp add: timed_def cancel_delayed_ack_def split: if_splits)
  then show ?thesis using on_consumed_timed on_app_send_timed [OF assms]
    by (simp add: on_app_event_def split_beta split: AppEvent.split)
       (simp add: timed_def result_actions_def)
qed


lemma deliver_timed:
  assumes "tcb_wf t" "allowed t e" "\<forall>x. e \<noteq> Timer x"
  shows "timed t (snd (deliver t e)) (fst (deliver t e))"
proof (cases e)
  case (Segment s)
  consider "tcb_state t = Closed" | "tcb_state t = SynSent" | "tcb_state t \<notin> {SynSent, Closed}" by blast
  then show ?thesis
  proof cases
    case 3
    then obtain acts where "snd (on_segment t s) = Ok acts" "effect t acts (fst (on_segment t s))"
      using on_segment_effect [OF assms(1), of s] assms(2) Segment by auto
    then show ?thesis by (simp add: Segment split_beta result_actions_def effect_timed)
  qed (use assms(1) on_syn_sent_timed [OF assms(1), of s] in
      \<open>simp_all add: Segment on_segment_def split_beta result_actions_def timed_def\<close>)
next
  case (App e)
  then show ?thesis using on_app_event_timed [OF assms(1)] by (simp add: split_beta)
next
  case (QueuedPayload n)
  then show ?thesis by (simp add: accept_queued_payload_def timed_def split_beta)
next
  case QueuedFin
  then show ?thesis by (simp add: accept_queued_fin_def effect_timed take_fin_effect)
next
  case ForceAck
  then show ?thesis
    using effect_timed [OF effect_trans [OF cancel_effect ack_effect(1)], of t] by (simp add: force_ack_def split_beta)
next
  case RejectSegment
  then show ?thesis by (simp add: reject_unacceptable_segment_def effect_timed defend_effect)
qed (use assms in \<open>simp_all add: timed_def record_rtt_sample_def on_sack_loss_def grow_receive_capacity_def
    withdraw_receive_window_scale_def Let_def split_beta\<close>)

lemma retransmission_outstanding:
  assumes "tcb_wf t" "tcb_state t \<noteq> Closed" "send_unacked t \<noteq> send_next t"
  shows "\<exists>a. retransmission_action t = Some a"
proof -
  have "0 < in_flight t" using assms(3) by (simp add: in_flight_def distance_pos_iff)
  then have "tcb_state t \<notin> {FinWait2, TimeWait}" using assms(1) by (auto simp: tcb_wf_def flight_ok_def)
  then show ?thesis using assms(2) by (cases "tcb_state t") (simp_all add: retransmission_action_def)
qed

lemma retransmission_timeout:
  assumes "tcb_wf t" "tcb_state t \<noteq> Closed" "send_unacked t \<noteq> send_next t"
  shows "\<exists>u a. on_timer t Retransmission = (u, Ok [a, ArmRetransmission (min (rto_ms (tcb_rto t) * 2) 60000)]) \<and>
     controls [a] \<noteq> [] \<and> ctl_sequence (hd (controls [a])) = send_unacked t \<and>
     send_unacked u = send_unacked t \<and> send_next u = send_next t \<and> tcb_state u = tcb_state t \<and>
     delayed_ack_pending u = delayed_ack_pending t"
proof -
  define u where "u = t\<lparr>congestion := on_timeout (congestion t) (in_flight t), tcb_rto := backoff (tcb_rto t)\<rparr>"
  have "tcb_wf u"
    using on_timer_wf [OF assms(1), of Retransmission] assms
    by (auto simp: on_timer_def on_retransmission_timeout_def u_def [symmetric] split: option.splits)
  then obtain a where a: "retransmission_action u = Some a"
    using retransmission_outstanding [of u] assms by (auto simp: u_def)
  have "rto_ms (tcb_rto u) = min (rto_ms (tcb_rto t) * 2) 60000"
    using assms(1) by (simp add: u_def backoff_rto tcb_wf_def)
  moreover have "controls [a] \<noteq> [] \<and> ctl_sequence (hd (controls [a])) = send_unacked t"
    using a by (auto simp: retransmission_action_def u_def control_def Let_def split: TcpState.splits if_splits)
  ultimately show ?thesis using assms(2,3) a
    by (simp add: on_timer_def on_retransmission_timeout_def u_def [symmetric])
       (simp add: u_def)
qed


lemma edge1: "rfc_edge a b \<Longrightarrow> rfc_edge\<^sup>*\<^sup>* a b"
  by (rule r_into_rtranclp)

lemma on_app_event_edges: "rfc_edge\<^sup>*\<^sup>* (tcb_state t) (tcb_state (fst (on_app_event t e)))"
  by (cases "tcb_state t")
     (auto simp: on_app_event_def on_consumed_def on_app_send_def start_close_def Let_def split_beta
       intro: rfc_edge.intros split: AppEvent.split)

lemma on_timer_edges: "rfc_edge\<^sup>*\<^sup>* (tcb_state t) (tcb_state (fst (on_timer t e)))"
  by (auto simp: on_timer_def on_retransmission_timeout_def Let_def intro: rfc_edge.intros
      split: TimerEvent.split option.split)

lemma on_syn_sent_edges:
  "tcb_state t = SynSent \<Longrightarrow> rfc_edge\<^sup>*\<^sup>* SynSent (tcb_state (fst (on_syn_sent_segment t s)))"
  by (auto simp: on_syn_sent_segment_def Let_def intro: rfc_edge.intros split: option.split)

lemma deliver_edges:
  assumes "tcb_wf t" "allowed t e"
  shows "rfc_edge\<^sup>*\<^sup>* (tcb_state t) (tcb_state (fst (deliver t e)))"
proof (cases e)
  case (Segment s)
  consider "tcb_state t = Closed" | "tcb_state t = SynSent" | "tcb_state t \<notin> {SynSent, Closed}" by blast
  then show ?thesis
  proof cases
    case 3
    then show ?thesis
      using on_segment_effect [OF assms(1), of s] assms(2) Segment by (auto simp: split_beta effect_edges)
  qed (use on_syn_sent_edges [of t s] in \<open>simp_all add: Segment on_segment_def split_beta\<close>)
next
  case QueuedFin
  then show ?thesis using effect_edges [OF take_fin_effect] by (simp add: accept_queued_fin_def)
next
  case RejectSegment
  then show ?thesis using effect_edges [OF defend_effect] by (simp add: reject_unacceptable_segment_def)
qed (simp_all add: split_beta on_app_event_edges on_timer_edges record_rtt_sample_def on_sack_loss_def
    accept_queued_payload_def force_ack_def grow_receive_capacity_def withdraw_receive_window_scale_def Let_def)

lemma sending_timers:
  "controls [a] \<noteq> [] \<Longrightarrow> rexmit_timer [a, ArmRetransmission n] b"
  "controls [a] \<noteq> [] \<Longrightarrow> dack_timer [a, ArmRetransmission n] b = b"
  by (cases a; simp)+

lemma step_timers:
  assumes "tcb_wf (conn_tcb c)" "timers_ok c" "allowed (conn_tcb c) e"
  shows "timers_ok (step c e)"
proof (cases "tcb_state (fst (deliver (conn_tcb c) e)) = Closed")
  case True
  then show ?thesis by (simp add: timers_ok_def step_def split_beta)
next
  case open_after: False
  let ?t = "conn_tcb c"
  have opened: "tcb_state ?t \<noteq> Closed"
    using deliver_edges [OF assms(1,3)] open_after Closed_absorbing by metis
  then have armed: "rexmit_armed c = (send_unacked ?t \<noteq> send_next ?t)" "dack_armed c = delayed_ack_pending ?t"
    using assms(2) by (simp_all add: timers_ok_def)
  show ?thesis
  proof (cases "\<exists>x. e = Timer x")
    case False
    then show ?thesis
      using deliver_timed [OF assms(1,3)] open_after
      by (simp add: timers_ok_def step_def split_beta armed timed_def)
  next
    case True
    then obtain x where e: "e = Timer x" by blast
    show ?thesis
    proof (cases "x = Retransmission \<and> send_unacked ?t \<noteq> send_next ?t")
      case True
      then show ?thesis
        using retransmission_timeout [OF assms(1) opened]
        by (auto simp: timers_ok_def step_def e split_beta result_actions_def armed sending_timers
            simp del: controls.simps)
    next
      case False
      then show ?thesis using opened
        by (cases x) (auto simp: timers_ok_def step_def e split_beta result_actions_def armed on_timer_def
            on_retransmission_timeout_def Let_def)
    qed
  qed
qed

lemma reachable_inv:
  assumes "reachable c"
  shows "tcb_wf (conn_tcb c) \<and> timers_ok c"
  using assms
proof (induction rule: reachable.induct)
  case (listening s iss reserved mss scale t as)
  then have "tcb_wf t" "tcb_state t = SynReceived" by (simp_all add: from_syn_wf)
  moreover from this have "send_unacked t \<noteq> send_next t" by (auto simp: tcb_wf_def flight_ok_def in_flight_def)
  moreover have "rexmit_timer as False" "\<not> dack_timer as False" "\<not> delayed_ack_pending t"
    using listening(1) by (auto simp: from_syn_with_options_def Let_def and_then_Ok_iff split: if_splits)
  ultimately show ?case by (simp add: timers_ok_def)
next
  case (connecting iss reserved mss scale t as)
  then have "tcb_wf t" "tcb_state t = SynSent" by (simp_all add: connect_wf)
  moreover from this have "send_unacked t \<noteq> send_next t" by (auto simp: tcb_wf_def flight_ok_def in_flight_def)
  moreover have "rexmit_timer as False" "\<not> dack_timer as False" "\<not> delayed_ack_pending t"
    using connecting(1) by (auto simp: connect_def Let_def and_then_Ok_iff split: if_splits)
  ultimately show ?case by (simp add: timers_ok_def)
next
  case (step c e)
  then show ?case using deliver_wf step_timers by (auto simp: step_def split_beta)
qed


lemma example_wf: "tcb_wf example_tcb"
  by (simp add: example_tcb_def tcb_wf_def receive_ok_def initial_ok_def flight_ok_def recv_window_def
      in_flight_def distance_from_def reno_wf_def)

lemma example_seg_wf: "n \<le> 65535 \<Longrightarrow> seg_wf (example_segment f q n)"
  by (simp add: example_segment_def seg_wf_def)

lemma example_reachable: "\<exists>c. reachable c \<and> tcb_state (conn_tcb c) = SynSent"
proof -
  obtain t as where t: "connect 100 65535 1460 0 = Ok (t, as)" by (simp add: connect_def Let_def reno_new_def)
  then have "tcb_state t = SynSent" using connect_wf by simp
  then show ?thesis using connecting [OF t] by force
qed

section \<open>Properties of the TCP core\<close>

text \<open>C7: the control block is well formed in every reachable state. Whatever sequence of segments, application
calls, timer expirations and flow-table calls drives a connection from its opening: the buffered
bytes and the announced window together never exceed the reserved receive capacity, the window is at
most 65535 times two to the 14, the bytes in flight are bounded and match the state (one for an unacknowledged SYN, none
in FIN-WAIT-2 and TIME-WAIT, at least the FIN while it is outstanding), the retransmission timeout lies
between one and 60 seconds, and the congestion window is at least one segment.\<close>

theorem tcp_invariant:
  assumes "reachable c"
  shows "tcb_wf (conn_tcb c)"
  using reachable_inv [OF assms] by simp

theorem tcp_invariant_witness:
  "\<exists>c. reachable c \<and> tcb_state (conn_tcb c) = SynSent \<and> tcb_wf (conn_tcb c)"
  using example_reachable tcp_invariant by blast



text \<open>C9: the receive path never fails and loses no byte. On a well-formed block past SYN-SENT, every segment is
answered without an error (in particular the receive credit is never exceeded, whatever the peer sends), the sequence number
expected next advances by exactly the bytes delivered to the application plus one for a FIN
reported as a half-close, and the buffered count grows by exactly the bytes delivered.\<close>

theorem tcp_receive_stream:
  assumes "tcb_wf t" "seg_wf s" "tcb_state t \<notin> {SynSent, Closed}"
  shows "\<exists>acts. snd (on_segment t s) = Ok acts \<and>
     recv_next (fst (on_segment t s)) = wrapping_add (recv_next t) (delivered acts + half_closes acts) \<and>
     recv_buffered (fst (on_segment t s)) = recv_buffered t + delivered acts \<and>
     recv_buffered (fst (on_segment t s)) \<le> recv_capacity t"
proof -
  obtain acts where a: "snd (on_segment t s) = Ok acts" "effect t acts (fst (on_segment t s))"
    using on_segment_effect [OF assms] by blast
  moreover have "recv_buffered (fst (on_segment t s)) \<le> recv_capacity (fst (on_segment t s))"
    using on_segment_wf [OF assms(1,2)] by (auto simp: tcb_wf_def receive_ok_def)
  ultimately show ?thesis by (auto simp: effect_def)
qed

theorem tcp_receive_stream_witness:
  "\<exists>acts. snd (on_segment example_tcb (example_segment ACK 1001 700)) = Ok acts \<and>
     recv_next (fst (on_segment example_tcb (example_segment ACK 1001 700))) =
       wrapping_add (recv_next example_tcb) (delivered acts + half_closes acts) \<and>
     recv_buffered (fst (on_segment example_tcb (example_segment ACK 1001 700))) = recv_buffered example_tcb + delivered acts \<and>
     recv_buffered (fst (on_segment example_tcb (example_segment ACK 1001 700))) \<le> recv_capacity example_tcb"
  using example_wf example_seg_wf [of 700] by (rule tcp_receive_stream) (simp_all add: example_tcb_def)





text \<open>C12: a blind reset does nothing. Past SYN-SENT only a reset whose sequence number is exactly the one expected
next closes the connection; any other reset leaves the block untouched and is answered by at most a challenge, and that
only when it falls inside the receive window. In SYN-SENT a reset counts only when it acknowledges
exactly our SYN.\<close>

theorem tcp_blind_reset:
  assumes "contains (seg_flags s) RST" "tcb_state t \<noteq> Closed"
  shows "if tcb_state t = SynSent then
       (if contains (seg_flags s) ACK \<and> seg_acknowledgment s = Some (send_next t)
        then on_segment t s = (t\<lparr>tcb_state := Closed\<rparr>, Ok [DisarmRetransmission, ConnectionClosed])
        else on_segment t s = (t, Ok []))
     else if seg_sequence s = recv_next t
     then on_segment t s = (t\<lparr>tcb_state := Closed\<rparr>, Ok [ConnectionClosed])
     else on_segment t s = (t, Ok (if sequence_in_receive_window t (seg_sequence s) then [ChallengeAck] else []))"
proof -
  have "simultaneous_open_completion t s = s" using assms(1) by (simp add: simultaneous_open_completion_def Let_def)
  then show ?thesis using assms
    by (simp add: on_segment_def on_syn_sent_segment_def Let_def split: option.split)
qed

theorem tcp_blind_reset_witness:
  "on_segment example_tcb (example_segment RST 2000 0) = (example_tcb, Ok [ChallengeAck])"
  using tcp_blind_reset [of "example_segment RST 2000 0" example_tcb]
  by (simp add: example_tcb_def example_segment_def contains_def sequence_in_receive_window_def before_iff
      distance_from_def)

text \<open>C13: sending respects both windows. A send that is accepted puts exactly the requested bytes in flight, starting at the
next sequence number, and the bytes in flight then exceed neither the peer's window nor the congestion
window with its limited-transmit allowance; a send that does not fit leaves the block unchanged and fails.\<close>

theorem tcp_send_within_windows:
  assumes "tcb_wf t" "tcb_state t \<in> {Established, CloseWait}" "0 < n"
  shows "if n \<le> send_available t then
       \<exists>u acts c. on_app_event t (AppSend n) = (u, Ok acts) \<and> SendPayload c \<in> set acts \<and>
         ctl_sequence c = send_next t \<and> in_flight u = in_flight t + n \<and>
         in_flight u \<le> peer_window u \<and>
         in_flight u \<le> congestion_window (congestion u) + limited_transmit_allowance (congestion u)
     else on_app_event t (AppSend n) = (t, Err SendWindowExceeded)"
proof (cases "n \<le> send_available t")
  case True
  let ?v = "t\<lparr>send_next := wrapping_add (send_next t) n\<rparr>"
  let ?u = "fst (cancel_delayed_ack ?v)"
  have a: "n \<le> peer_window t - in_flight t"
    "n \<le> sat_add (congestion_window (congestion t)) (limited_transmit_allowance (congestion t)) - in_flight t"
    using True by (auto simp: send_available_def sat_sub_def)
  have "peer_window t \<le> max_window" using assms(1) by (simp add: tcb_wf_def)
  then have "distance_from (send_next t) (send_unacked t) + n < 4294967296" using a(1) assms(3) by (auto simp: in_flight_def)
  then have "in_flight ?u = in_flight t + n" by (simp add: in_flight_def distance_add_left)
  moreover have "sat_add (congestion_window (congestion t)) (limited_transmit_allowance (congestion t))
      \<le> congestion_window (congestion t) + limited_transmit_allowance (congestion t)" by (simp add: sat_add_def)
  moreover have "peer_window ?u = peer_window t" "congestion ?u = congestion t"
    by (simp_all add: cancel_delayed_ack_def)
  ultimately have f: "in_flight ?u = in_flight t + n" "in_flight ?u \<le> peer_window ?u"
    "in_flight ?u \<le> congestion_window (congestion ?u) + limited_transmit_allowance (congestion ?u)"
    using a assms(3) by simp_all
  have "\<exists>acts. on_app_event t (AppSend n) = (?u, Ok acts) \<and> SendPayload (control ?u ACK (send_next t)) \<in> set acts"
    using assms(2,3) True by (auto simp: on_app_event_def on_app_send_def Let_def split_beta)
  then obtain acts where "on_app_event t (AppSend n) = (?u, Ok acts)"
    "SendPayload (control ?u ACK (send_next t)) \<in> set acts" by blast
  moreover have "ctl_sequence (control ?u ACK (send_next t)) = send_next t" by (simp add: control_def)
  ultimately have "\<exists>u acts c. on_app_event t (AppSend n) = (u, Ok acts) \<and> SendPayload c \<in> set acts \<and>
         ctl_sequence c = send_next t \<and> in_flight u = in_flight t + n \<and> in_flight u \<le> peer_window u \<and>
         in_flight u \<le> congestion_window (congestion u) + limited_transmit_allowance (congestion u)"
    using f by (intro exI [of _ ?u] exI [of _ acts] exI [of _ "control ?u ACK (send_next t)"] conjI)
  then show ?thesis using True by (simp only: if_True)
qed (use assms in \<open>auto simp: on_app_event_def on_app_send_def\<close>)

theorem tcp_send_within_windows_witness:
  "\<exists>u acts c. on_app_event example_tcb (AppSend 1000) = (u, Ok acts) \<and> SendPayload c \<in> set acts \<and>
     ctl_sequence c = 5500 \<and> in_flight u = in_flight example_tcb + 1000 \<and> in_flight u \<le> peer_window u \<and>
     in_flight u \<le> congestion_window (congestion u) + limited_transmit_allowance (congestion u)"
proof -
  have "1000 \<le> send_available example_tcb" "send_next example_tcb = 5500"
    by (simp_all add: example_tcb_def send_available_def sat_sub_def sat_add_def in_flight_def distance_from_def
        limited_transmit_allowance_def sat_mul_def)
  then show ?thesis
    using tcp_send_within_windows [OF example_wf, of 1000] by (simp add: example_tcb_def)
qed

text \<open>C14: completing a handshake reports it. The final acknowledgment of a half-open connection acknowledges our SYN,
reports the connection as accepted or connected, disarms the SYN timer and delivers the payload that came with the SYN:
no later check of the same segment can drop these actions.\<close>

theorem tcp_handshake_reported:
  assumes "tcb_wf t" "seg_wf s" "accepts_final_ack t s"
  shows "\<exists>acts. snd (on_segment t s) = Ok acts \<and>
     (if active_open t then Connected else Accepted) \<in> set acts \<and> DisarmRetransmission \<in> set acts \<and>
     pending_initial_payload_len t \<le> delivered acts \<and>
     (pending_initial_fin t \<longrightarrow> PeerHalfClosed \<in> set acts)"
proof -
  have st: "tcb_state t = SynReceived" and fl: "contains (seg_flags s) ACK" "\<not> contains (seg_flags s) RST"
    "\<not> contains (seg_flags s) SYN" using assms(3) by (simp_all add: accepts_final_ack_def)
  have sm: "simultaneous_open_completion t s = s" using fl by (simp add: simultaneous_open_completion_def Let_def)
  obtain go u acts where h: "complete_passive_handshake t s = (go, u, acts)" by (metis prod_cases3)
  have go: go using h assms(3) st by (auto simp: complete_passive_handshake_def Let_def split_beta)
  have pa: "pending_initial_fin (fst (apply_initial_payload x)) = pending_initial_fin x"
    "active_open (fst (apply_initial_payload x)) = active_open x" for x
    by (simp_all add: apply_initial_payload_def Let_def)
  have af: "active_open (fst (apply_initial_fin x)) = active_open x" for x
    by (simp add: apply_initial_fin_def take_fin_def on_peer_fin_def enter_time_wait_def Let_def split_beta
        split: TcpState.split)
  have a: "(if active_open t then Connected else Accepted) \<in> set acts" "DisarmRetransmission \<in> set acts"
    "pending_initial_payload_len t \<le> delivered acts" "pending_initial_fin t \<longrightarrow> PeerHalfClosed \<in> set acts"
    using h assms(3) st
    by (auto simp: complete_passive_handshake_def Let_def split_beta pa af apply_initial_payload_def [THEN arg_cong [where f = snd]]
        apply_initial_fin_def [THEN arg_cong [where f = snd]] take_fin_def on_peer_fin_def split: if_splits)
  have u: "tcb_wf u" "tcb_state u \<notin> {SynSent, SynReceived}"
    using complete_passive_handshake_wf [OF assms(1) h] handshake_state [of t s u acts] h go st by simp_all
  have "\<exists>bs. snd (on_acceptable_segment u s acts) = Ok (acts @ bs)"
    using on_acceptable_segment_cases [OF u(1) assms(2) u(2), of acts] by (metis snd_conv)
  then have "\<exists>bs. snd (on_segment t s) = Ok (acts @ bs)"
    using st fl go by (simp add: on_segment_def sm h Let_def split_beta)
  then obtain bs where "snd (on_segment t s) = Ok (acts @ bs)" by blast
  then show ?thesis using a by auto
qed

theorem tcp_handshake_reported_witness:
  "\<exists>t as acts. from_syn_with_options \<lparr>seg_sequence = 1, seg_acknowledgment = None, seg_flags = SYN,
       seg_window = 5000, seg_payload_len = 10\<rparr> 100 65535 1460 0 = Ok (t, as) \<and>
     snd (on_segment t \<lparr>seg_sequence = 12, seg_acknowledgment = Some 101, seg_flags = ACK,
       seg_window = 5000, seg_payload_len = 0\<rparr>) = Ok acts \<and> Accepted \<in> set acts \<and> 10 \<le> delivered acts"
proof -
  let ?syn = "\<lparr>seg_sequence = 1, seg_acknowledgment = None, seg_flags = SYN, seg_window = 5000, seg_payload_len = 10\<rparr>"
  let ?ack = "\<lparr>seg_sequence = 12, seg_acknowledgment = Some 101, seg_flags = ACK, seg_window = 5000, seg_payload_len = 0\<rparr>"
  have f: "contains SYN SYN" "\<not> contains SYN ACK" "\<not> contains SYN RST" "\<not> contains SYN FIN"
    "contains ACK ACK" "\<not> contains ACK SYN" "\<not> contains ACK RST"
    by (simp_all add: contains_def SYN_def ACK_def RST_def FIN_def)
  obtain t as where t: "from_syn_with_options ?syn 100 65535 1460 0 = Ok (t, as)"
    and p: "pending_initial_payload_len t = 10" "\<not> active_open t" "\<not> pending_initial_fin t"
      "send_next t = 101" "recv_next t = 2" "tcb_state t = SynReceived"
    by (auto simp: from_syn_with_options_def Let_def reno_new_def f wrapping_add_def)
  have "tcb_wf t" using from_syn_wf [OF t] by (simp add: seg_wf_def)
  moreover have "accepts_final_ack t ?ack"
    using p by (simp add: accepts_final_ack_def f pending_initial_len_def wadd_def wrapping_add_def)
  ultimately show ?thesis using tcp_handshake_reported [of t ?ack] t p by (auto simp: seg_wf_def)
qed

end
