(* ===== verification/Timer.thy ===== *)
theory Timer
  imports Prelude "HOL-Library.Product_Lexorder"
begin

unbundle bit_operations_syntax

text \<open>
  The hierarchical timer wheel of \<^verbatim>\<open>timer.rs\<close>: four levels of 256 buckets, one bit per bucket that
  holds a timer, and the map of live timers.  A bucket is an ordered set of identifiers, iterated in
  ascending order; the iteration order of the hash map is not observable, because its only two
  uses sort the result or insert it into sets.
\<close>

section \<open>The wheel\<close>

definition LEVELS :: nat where "LEVELS = 4"
definition SLOTS :: nat where "SLOTS = 256"
definition LARGE_ADVANCE_TICKS :: nat where "LARGE_ADVANCE_TICKS = 65536"

type_synonym TimerId = nat

datatype TimerError = ClockWentBackwards nat nat | DeadlineOutOfRange

record 'v Entry =
  deadline_tick :: nat
  en_level :: nat
  en_slot :: nat
  en_value :: 'v

record 'v TimerWheel =
  tick_ms :: nat
  current_tick :: nat
  next_id :: TimerId
  buckets :: "nat \<Rightarrow> nat \<Rightarrow> TimerId set"
  occupied :: "nat \<Rightarrow> nat \<Rightarrow> u64"
  entries :: "(TimerId, 'v Entry) fmap"

definition wheel_new :: "nat \<Rightarrow> nat \<Rightarrow> ('e, 'v TimerWheel) res" where
  "wheel_new tick now =
     (if \<not> 0 < tick then Panic
      else Ok \<lparr>tick_ms = tick, current_tick = now div tick, next_id = 0, buckets = (\<lambda>_ _. {}),
               occupied = (\<lambda>_ _. 0), entries = fmempty\<rparr>)"

definition now_ms :: "'v TimerWheel \<Rightarrow> nat" where
  "now_ms w = sat_mul (current_tick w) (tick_ms w)"

definition slot_for :: "nat \<Rightarrow> nat \<Rightarrow> nat" where
  "slot_for tick lev = tick div 2 ^ (8 * lev) mod 256"

definition bucket_for :: "nat \<Rightarrow> nat \<Rightarrow> nat \<times> nat" where
  "bucket_for current deadline =
     (let delta = sat_sub deadline current;
          lev = (if delta \<le> 255 then 0 else if delta \<le> 65535 then 1
                   else if delta \<le> 16777215 then 2 else 3)
      in (lev, slot_for deadline lev))"

subsection \<open>Buckets and their bits\<close>

definition set_bucket :: "nat \<Rightarrow> nat \<Rightarrow> TimerId set \<Rightarrow> 'v TimerWheel \<Rightarrow> 'v TimerWheel" where
  "set_bucket l s ids w = w\<lparr>buckets := (buckets w)(l := (buckets w l)(s := ids))\<rparr>"

definition set_word :: "nat \<Rightarrow> nat \<Rightarrow> u64 \<Rightarrow> 'v TimerWheel \<Rightarrow> 'v TimerWheel" where
  "set_word l k x w = w\<lparr>occupied := (occupied w)(l := (occupied w l)(k := x))\<rparr>"

definition insert_into :: "'v TimerWheel \<Rightarrow> nat \<Rightarrow> nat \<Rightarrow> TimerId \<Rightarrow> 'v TimerWheel" where
  "insert_into w l s i =
     (let w = set_bucket l s (insert i (buckets w l s)) w
      in set_word l (s div 64) (occupied w l (s div 64) OR push_bit (s mod 64) 1) w)"

definition remove_from :: "'v TimerWheel \<Rightarrow> nat \<Rightarrow> nat \<Rightarrow> TimerId \<Rightarrow> 'v TimerWheel" where
  "remove_from w l s i =
     (let w = set_bucket l s (buckets w l s - {i}) w in
      if buckets w l s = {}
      then set_word l (s div 64) (occupied w l (s div 64) AND NOT (push_bit (s mod 64) 1)) w
      else w)"

definition take_slot :: "'v TimerWheel \<Rightarrow> nat \<Rightarrow> nat \<Rightarrow> TimerId list \<times> 'v TimerWheel" where
  "take_slot w l s =
     (let w = set_word l (s div 64) (occupied w l (s div 64) AND NOT (push_bit (s mod 64) 1)) w
      in (sorted_list_of_set (buckets w l s), set_bucket l s {} w))"

definition place :: "'v TimerWheel \<Rightarrow> TimerId \<Rightarrow> nat \<Rightarrow> 'v TimerWheel" where
  "place w i deadline =
     (let (l, s) = bucket_for (current_tick w) deadline;
          w = (case fmlookup (entries w) i of
                 Some e \<Rightarrow> w\<lparr>entries := fmupd i (e\<lparr>en_level := l, en_slot := s\<rparr>) (entries w)\<rparr>
               | None \<Rightarrow> w)
      in insert_into w l s i)"

subsection \<open>Scheduling and cancelling\<close>

definition schedule :: "'v TimerWheel \<Rightarrow> nat \<Rightarrow> 'v \<Rightarrow> (TimerError, TimerId) res \<times> 'v TimerWheel" where
  "schedule w deadline_ms v =
     (let deadline = max (div_ceil deadline_ms (tick_ms w)) (sat_add (current_tick w) 1) in
      if 2 ^ 32 \<le> sat_sub deadline (current_tick w) then (Err DeadlineOutOfRange, w)
      else
        let i = next_id w;
            w = w\<lparr>next_id := wadd (next_id w) 1\<rparr>;
            (l, s) = bucket_for (current_tick w) deadline;
            w = w\<lparr>entries := fmupd i \<lparr>deadline_tick = deadline, en_level = l, en_slot = s, en_value = v\<rparr>
                   (entries w)\<rparr>
        in (Ok i, insert_into w l s i))"

definition cancel :: "'v TimerWheel \<Rightarrow> TimerId \<Rightarrow> 'v option \<times> 'v TimerWheel" where
  "cancel w i =
     (case fmlookup (entries w) i of
        None \<Rightarrow> (None, w)
      | Some e \<Rightarrow>
          (Some (en_value e), remove_from (w\<lparr>entries := fmdrop i (entries w)\<rparr>) (en_level e) (en_slot e) i))"

subsection \<open>Advancing\<close>

text \<open>The loop over the identifiers of a cascaded bucket.\<close>

fun replace_ids :: "'v TimerWheel \<Rightarrow> TimerId list \<Rightarrow> 'v TimerWheel" where
  "replace_ids w [] = w"
| "replace_ids w (i # ids) =
     replace_ids (case fmlookup (entries w) i of Some e \<Rightarrow> place w i (deadline_tick e) | None \<Rightarrow> w) ids"

definition cascade_level :: "'v TimerWheel \<Rightarrow> nat \<Rightarrow> 'v TimerWheel" where
  "cascade_level w l =
     (if current_tick w mod 2 ^ (8 * l) \<noteq> 0 then w
      else let (ids, w) = take_slot w l (slot_for (current_tick w) l) in replace_ids w ids)"

definition cascade_boundaries :: "'v TimerWheel \<Rightarrow> 'v TimerWheel" where
  "cascade_boundaries w = foldl cascade_level w (rev [1..<LEVELS])"

text \<open>The loop over the identifiers that are due in the current tick.\<close>

fun expire_ids :: "'v TimerWheel \<Rightarrow> TimerId list \<Rightarrow> 'v list \<times> 'v TimerWheel" where
  "expire_ids w [] = ([], w)"
| "expire_ids w (i # ids) =
     (case fmlookup (entries w) i of
        None \<Rightarrow> expire_ids w ids
      | Some e \<Rightarrow>
          let w = w\<lparr>entries := fmdrop i (entries w)\<rparr> in
          if deadline_tick e \<le> current_tick w then
            let (vs, w) = expire_ids w ids in (en_value e # vs, w)
          else
            expire_ids (place (w\<lparr>entries := fmupd i e (entries w)\<rparr>) i (deadline_tick e)) ids)"

definition advance_tick :: "'v TimerWheel \<Rightarrow> 'v list \<times> 'v TimerWheel" where
  "advance_tick w =
     (let w = cascade_boundaries (w\<lparr>current_tick := current_tick w + 1\<rparr>);
          (due, w) = take_slot w 0 (slot_for (current_tick w) 0)
      in expire_ids w due)"

text \<open>The body moves the clock by one tick, whatever it finds.\<close>

lemma current_insert_into [simp]: "current_tick (insert_into w l s i) = current_tick w"
  by (simp add: insert_into_def set_word_def set_bucket_def Let_def)

lemma current_place [simp]: "current_tick (place w i d) = current_tick w"
  by (simp add: place_def split_beta Let_def split: option.split)

lemma current_replace_ids [simp]: "current_tick (replace_ids w ids) = current_tick w"
  by (induction ids arbitrary: w) (simp_all split: option.split)

lemma current_take_slot [simp]: "current_tick (snd (take_slot w l s)) = current_tick w"
  by (simp add: take_slot_def set_word_def set_bucket_def Let_def)

lemma current_cascade_level [simp]: "current_tick (cascade_level w l) = current_tick w"
  by (simp add: cascade_level_def split_beta)

lemma current_cascade_boundaries [simp]: "current_tick (cascade_boundaries w) = current_tick w"
proof -
  have "current_tick (foldl cascade_level w ls) = current_tick w" for ls
    by (induction ls arbitrary: w) simp_all
  then show ?thesis by (simp add: cascade_boundaries_def)
qed

lemma current_expire_ids [simp]: "current_tick (snd (expire_ids w ids)) = current_tick w"
  by (induction ids arbitrary: w) (simp_all add: Let_def split_beta split: option.split)

lemma current_advance_tick [simp]: "current_tick (snd (advance_tick w)) = current_tick w + 1"
  by (simp add: advance_tick_def Let_def split_beta)

function advance_ticks :: "'v TimerWheel \<Rightarrow> nat \<Rightarrow> 'v list \<times> 'v TimerWheel" where
  "advance_ticks w target =
     (if current_tick w < target then
        let (vs, w) = advance_tick w; (vs', w) = advance_ticks w target in (vs @ vs', w)
      else ([], w))"
  by pat_completeness auto

termination
proof (relation "measure (\<lambda>(w, target). target - current_tick w)", goal_cases)
  case (2 w target x vs w')
  then have "current_tick w' = current_tick w + 1" using current_advance_tick [of w] by (metis snd_conv)
  with 2 show ?case by simp
qed simp

declare advance_ticks.simps [simp del]

definition large_advance :: "'v TimerWheel \<Rightarrow> nat \<Rightarrow> 'v list \<times> 'v TimerWheel" where
  "large_advance w target =
     (let w = w\<lparr>current_tick := target\<rparr>;
          ids = sorted_list_of_fset (fmdom (entries w));
          due = [(deadline_tick e, i). i \<leftarrow> ids, e \<leftarrow> (case fmlookup (entries w) i of Some e \<Rightarrow> [e] | None \<Rightarrow> []),
                   deadline_tick e \<le> target];
          due = sort due;
          expired = [en_value e. (_, i) \<leftarrow> due, e \<leftarrow> (case fmlookup (entries w) i of Some e \<Rightarrow> [e] | None \<Rightarrow> [])];
          w = w\<lparr>entries := fmfilter (\<lambda>i. i \<notin> snd ` set due) (entries w), buckets := (\<lambda>_ _. {}),
                occupied := (\<lambda>_ _. 0)\<rparr>
      in (expired, replace_ids w (sorted_list_of_fset (fmdom (entries w)))))"

definition advance_to :: "'v TimerWheel \<Rightarrow> nat \<Rightarrow> (TimerError, 'v list) res \<times> 'v TimerWheel" where
  "advance_to w now =
     (if now < now_ms w then (Err (ClockWentBackwards (now_ms w) now), w)
      else
        let target = (if now = u64_max then div_ceil now (tick_ms w) else now div tick_ms w) in
        if LARGE_ADVANCE_TICKS < sat_sub target (current_tick w)
        then let (vs, w) = large_advance w target in (Ok vs, w)
        else let (vs, w) = advance_ticks w target in (Ok vs, w))"

subsection \<open>The next deadline\<close>

definition trailing_zeros :: "u64 \<Rightarrow> nat" where
  "trailing_zeros x = length (takeWhile (\<lambda>i. \<not> bit x i) [0..<64])"

fun scan_words :: "(nat \<Rightarrow> u64) \<Rightarrow> nat \<Rightarrow> u64 \<Rightarrow> nat list \<Rightarrow> nat option" where
  "scan_words occ start msk [] = None"
| "scan_words occ start msk (k # ks) =
     (let hits = occ (k mod 4) AND msk in
      if hits \<noteq> 0 then
        let slot = (k mod 4) * 64 + trailing_zeros hits in Some ((slot + SLOTS - start) mod SLOTS)
      else scan_words occ start (- 1) ks)"

definition first_occupied :: "(nat \<Rightarrow> u64) \<Rightarrow> nat \<Rightarrow> nat option" where
  "first_occupied occ start =
     scan_words occ start (push_bit (start mod 64) (- 1)) [start div 64 ..< start div 64 + 5]"

text \<open>\<open>shl\<close> of a 64-bit integer: the bits shifted out are lost.\<close>

definition shl :: "nat \<Rightarrow> nat \<Rightarrow> nat" where
  "shl x n = (x * 2 ^ n) mod u64_size"

fun scan_levels :: "'v TimerWheel \<Rightarrow> nat option \<Rightarrow> nat list \<Rightarrow> nat option" where
  "scan_levels w soonest [] = soonest"
| "scan_levels w soonest (l # ls) =
     (let shift = 8 * l; window = current_tick w div 2 ^ shift in
      if (case soonest of Some tick \<Rightarrow> tick \<le> shl (sat_add window 1) shift | None \<Rightarrow> False) then soonest
      else case first_occupied (occupied w l) (slot_for (current_tick w) l) of
        None \<Rightarrow> scan_levels w soonest ls
      | Some ahead \<Rightarrow>
          let tick = max (shl (sat_add window ahead) shift) (wadd (current_tick w) 1)
          in scan_levels w (Some (case soonest of Some x \<Rightarrow> min x tick | None \<Rightarrow> tick)) ls)"

definition next_deadline_ms :: "'v TimerWheel \<Rightarrow> nat option" where
  "next_deadline_ms w =
     (if fmdom (entries w) = {||} then None
      else map_option (\<lambda>tick. sat_mul tick (tick_ms w)) (scan_levels w None [0..<LEVELS]))"

end
