(* ===== verification/Timer_Facts.thy ===== *)
theory Timer_Facts
  imports Timer
begin

text \<open>
  The invariant of the timer wheel, the contract of a timer service, and the proof that the wheel,
  ticking bucket by bucket or rebuilding after a long jump, implements it.
\<close>

section \<open>Invariant\<close>

text \<open>The bucket index of a tick on a level, before it is taken modulo 256.\<close>

abbreviation window_at :: "nat \<Rightarrow> nat \<Rightarrow> nat" where
  "window_at l tick \<equiv> tick div 2 ^ (8 * l)"

definition bucket_ids :: "(TimerId, 'v Entry) fmap \<Rightarrow> nat \<Rightarrow> nat \<Rightarrow> TimerId set" where
  "bucket_ids m l s = {i. \<exists>e. fmlookup m i = Some e \<and> en_level e = l \<and> en_slot e = s}"

definition occ_ok :: "'v TimerWheel \<Rightarrow> bool" where
  "occ_ok w \<longleftrightarrow> (\<forall>l s. s < 256 \<longrightarrow> bit (occupied w l (s div 64)) (s mod 64) = (buckets w l s \<noteq> {}))"

definition entry_ok :: "'v Entry \<Rightarrow> bool" where
  "entry_ok e \<longleftrightarrow> en_level e < 4 \<and> en_slot e = slot_for (deadline_tick e) (en_level e)"

text \<open>A timer waits in a bucket that is visited before it is due, within one turn of its level.\<close>

definition in_time :: "nat \<Rightarrow> nat \<Rightarrow> nat \<Rightarrow> bool" where
  "in_time c l d \<longleftrightarrow> window_at l c < window_at l d \<and> window_at l d \<le> window_at l c + 256"

text \<open>The wheel while the identifiers \<open>P\<close> are taken out of their buckets; the others satisfy \<open>R\<close>, a
condition on the level and the deadline.\<close>

definition wheel_core :: "'v TimerWheel \<Rightarrow> TimerId set \<Rightarrow> (nat \<Rightarrow> nat \<Rightarrow> bool) \<Rightarrow> bool" where
  "wheel_core w P R \<longleftrightarrow> occ_ok w \<and>
     (\<forall>l s. buckets w l s = bucket_ids (entries w) l s - P) \<and>
     (\<forall>i e. fmlookup (entries w) i = Some e \<longrightarrow> i \<notin> P \<longrightarrow> entry_ok e \<and> R (en_level e) (deadline_tick e))"

definition wheel_inv :: "'v TimerWheel \<Rightarrow> bool" where
  "wheel_inv w \<longleftrightarrow> 0 < tick_ms w \<and> wheel_core w {} (in_time (current_tick w)) \<and>
     (\<forall>i e. fmlookup (entries w) i = Some e \<longrightarrow>
        i < next_id w \<and> deadline_tick e \<le> u64_max \<and> deadline_tick e < current_tick w + 2 ^ 32)"

text \<open>The timers a wheel holds, without their places.\<close>

definition timers :: "'v TimerWheel \<Rightarrow> (TimerId, nat \<times> 'v) fmap" where
  "timers w = fmmap (\<lambda>e. (deadline_tick e, en_value e)) (entries w)"

section \<open>Buckets and bits\<close>

lemma slot_lt [simp]: "slot_for t l < 256"
  by (simp add: slot_for_def)

lemma same_bit: "(s::nat) div 64 = s' div 64 \<Longrightarrow> s mod 64 = s' mod 64 \<Longrightarrow> s = s'"
  by (metis div_mult_mod_eq)

lemma occ_set_bucket_insert:
  assumes "occ_ok w" "s < 256" shows "occ_ok (insert_into w l s i)"
  unfolding occ_ok_def
proof (intro allI impI)
  fix l' s' :: nat assume "s' < 256"
  have old: "bit (occupied w l' (s' div 64)) (s' mod 64) = (buckets w l' s' \<noteq> {})"
    using assms(1) \<open>s' < 256\<close> by (simp add: occ_ok_def)
  have m: "s' mod 64 < 64" by simp
  show "bit (occupied (insert_into w l s i) l' (s' div 64)) (s' mod 64) = (buckets (insert_into w l s i) l' s' \<noteq> {})"
    using old m same_bit [of s s']
    by (auto simp: insert_into_def set_word_def set_bucket_def Let_def bit_simps)
qed

lemma occ_take_slot:
  assumes "occ_ok w" "s < 256" shows "occ_ok (snd (take_slot w l s))"
  unfolding occ_ok_def
proof (intro allI impI)
  fix l' s' :: nat assume "s' < 256"
  have old: "bit (occupied w l' (s' div 64)) (s' mod 64) = (buckets w l' s' \<noteq> {})"
    using assms(1) \<open>s' < 256\<close> by (simp add: occ_ok_def)
  have m: "s' mod 64 < 64" by simp
  show "bit (occupied (snd (take_slot w l s)) l' (s' div 64)) (s' mod 64) = (buckets (snd (take_slot w l s)) l' s' \<noteq> {})"
    using old m same_bit [of s s']
    by (auto simp: take_slot_def set_word_def set_bucket_def Let_def bit_simps)
qed

lemma occ_remove_from:
  assumes "occ_ok w" "s < 256" shows "occ_ok (remove_from w l s i)"
  unfolding occ_ok_def
proof (intro allI impI)
  fix l' s' :: nat assume "s' < 256"
  have old: "bit (occupied w l' (s' div 64)) (s' mod 64) = (buckets w l' s' \<noteq> {})"
    using assms(1) \<open>s' < 256\<close> by (simp add: occ_ok_def)
  have m: "s' mod 64 < 64" by simp
  show "bit (occupied (remove_from w l s i) l' (s' div 64)) (s' mod 64) = (buckets (remove_from w l s i) l' s' \<noteq> {})"
    using old m same_bit [of s s']
    by (auto simp: remove_from_def set_word_def set_bucket_def Let_def bit_simps)
qed

lemma occ_entries [simp]: "occ_ok (w\<lparr>entries := m\<rparr>) = occ_ok w" "occ_ok (w\<lparr>current_tick := c\<rparr>) = occ_ok w"
  "occ_ok (w\<lparr>next_id := n\<rparr>) = occ_ok w"
  by (simp_all add: occ_ok_def)

lemma insert_into_fields [simp]:
  "entries (insert_into w l s i) = entries w" "tick_ms (insert_into w l s i) = tick_ms w"
  "next_id (insert_into w l s i) = next_id w"
  "buckets (insert_into w l s i) l' s' = (if l' = l \<and> s' = s then insert i (buckets w l s) else buckets w l' s')"
  by (auto simp: insert_into_def set_word_def set_bucket_def Let_def)

lemma remove_from_fields [simp]:
  "entries (remove_from w l s i) = entries w" "tick_ms (remove_from w l s i) = tick_ms w"
  "next_id (remove_from w l s i) = next_id w" "current_tick (remove_from w l s i) = current_tick w"
  "buckets (remove_from w l s i) l' s' = (if l' = l \<and> s' = s then buckets w l s - {i} else buckets w l' s')"
  by (auto simp: remove_from_def set_word_def set_bucket_def Let_def)

lemma take_slot_fields [simp]:
  "entries (snd (take_slot w l s)) = entries w" "tick_ms (snd (take_slot w l s)) = tick_ms w"
  "next_id (snd (take_slot w l s)) = next_id w"
  "buckets (snd (take_slot w l s)) l' s' = (if l' = l \<and> s' = s then {} else buckets w l' s')"
  "fst (take_slot w l s) = sorted_list_of_set (buckets w l s)"
  by (auto simp: take_slot_def set_word_def set_bucket_def Let_def)

section \<open>Where a timer is placed\<close>

lemma div_gap:
  fixes c d n :: nat assumes "0 < n"
  shows "c + n \<le> d \<Longrightarrow> c div n < d div n"
    and "d - c < 256 * n \<Longrightarrow> d div n \<le> c div n + 256"
    and "d - c < 256 * n \<Longrightarrow> c mod n = 0 \<Longrightarrow> d div n \<le> c div n + 255"
proof -
  assume "c + n \<le> d"
  then have "(c + n) div n \<le> d div n" by (rule div_le_mono)
  then show "c div n < d div n" using assms by simp
next
  assume "d - c < 256 * n"
  then have "d \<le> c + 256 * n" by linarith
  then have "d div n \<le> (c + 256 * n) div n" by (rule div_le_mono)
  then show "d div n \<le> c div n + 256" using assms by simp
next
  assume a: "d - c < 256 * n" "c mod n = 0"
  then obtain q where q: "c = n * q" by auto
  have "d < n * q + 256 * n" using a(1) q by linarith
  also have "\<dots> = (q + 256) * n" by (simp add: algebra_simps)
  finally have "d div n < q + 256" using assms by (simp add: div_less_iff_less_mult)
  then show "d div n \<le> c div n + 255" using q assms by simp
qed

lemma bucket_for_props:
  assumes "bucket_for c d = (l, s)" "c \<le> d" "d < c + 2 ^ 32"
  shows "l < 4" "s = slot_for d l" "l \<noteq> 0 \<or> c < d \<Longrightarrow> window_at l c < window_at l d"
    "window_at l d \<le> window_at l c + 256" "c mod 2 ^ (8 * l) = 0 \<Longrightarrow> window_at l d \<le> window_at l c + 255"
    "0 < k \<Longrightarrow> d < c + 2 ^ (8 * k) \<Longrightarrow> l < k" "l = 0 \<Longrightarrow> d \<le> c + 255"
proof -
  have ls: "(l = 0 \<and> d - c \<le> 255 \<or> l = 1 \<and> 256 \<le> d - c \<and> d - c \<le> 65535 \<or>
      l = 2 \<and> 65536 \<le> d - c \<and> d - c \<le> 16777215 \<or> l = 3 \<and> 16777216 \<le> d - c \<and> d - c < 4294967296) \<and> s = slot_for d l"
    using assms by (auto simp: bucket_for_def Let_def sat_sub_def split: if_splits)
  then show "l < 4" "s = slot_for d l" "l = 0 \<Longrightarrow> d \<le> c + 255" by auto
  have lo: "l \<noteq> 0 \<Longrightarrow> c + 2 ^ (8 * l) \<le> d" and hi: "d - c < 256 * 2 ^ (8 * l)" using ls assms(2) by auto
  show "window_at l c < window_at l d" if "l \<noteq> 0 \<or> c < d"
    using div_gap(1) [of "2 ^ (8 * l)" c d] lo that by (cases "l = 0") simp_all
  show "window_at l d \<le> window_at l c + 256" using div_gap(2) [OF _ hi] by simp
  show "c mod 2 ^ (8 * l) = 0 \<Longrightarrow> window_at l d \<le> window_at l c + 255" using div_gap(3) [OF _ hi] by simp
  show "l < k" if "0 < k" "d < c + 2 ^ (8 * k)"
  proof (rule ccontr)
    assume "\<not> l < k"
    then have "(2::nat) ^ (8 * k) \<le> 2 ^ (8 * l)" by (intro power_increasing) simp_all
    moreover have "l \<noteq> 0" using \<open>\<not> l < k\<close> that(1) by simp
    ultimately show False using lo that(2) by linarith
  qed
qed


section \<open>Moving timers between buckets\<close>

lemma bucket_ids_upd:
  "bucket_ids (fmupd i e m) l s =
     (if en_level e = l \<and> en_slot e = s then insert i (bucket_ids m l s) else bucket_ids m l s - {i})"
  by (auto simp: bucket_ids_def)

lemma bucket_ids_drop: "bucket_ids (fmdrop i m) l s = bucket_ids m l s - {i}"
  by (auto simp: bucket_ids_def)

lemma finite_bucket_ids [simp]: "finite (bucket_ids m l s)"
proof (rule finite_subset)
  show "bucket_ids m l s \<subseteq> fset (fmdom m)" by (auto simp: bucket_ids_def intro: fmdomI)
qed simp

lemma timers_fields [simp]:
  "timers (w\<lparr>current_tick := c\<rparr>) = timers w" "timers (w\<lparr>next_id := n\<rparr>) = timers w"
  "timers (insert_into w l s i) = timers w" "timers (remove_from w l s i) = timers w"
  "timers (snd (take_slot w l s)) = timers w"
  by (simp_all add: timers_def)

lemma place_fields [simp]:
  "timers (place w i d) = timers w" "tick_ms (place w i d) = tick_ms w" "next_id (place w i d) = next_id w"
proof -
  show "timers (place w i d) = timers w"
    by (auto simp: place_def timers_def split_beta Let_def intro!: fmap_ext split: option.split)
qed (simp_all add: place_def split_beta Let_def split: option.split)

definition placeable :: "nat \<Rightarrow> (nat \<Rightarrow> nat \<Rightarrow> bool) \<Rightarrow> nat \<Rightarrow> bool" where
  "placeable c R d \<longleftrightarrow> (\<forall>l s. bucket_for c d = (l, s) \<longrightarrow> l < 4 \<and> s = slot_for d l \<and> R l d)"

lemma place_core:
  assumes "wheel_core w P R" "i \<in> P" "fmlookup (entries w) i = Some e" "placeable (current_tick w) R (deadline_tick e)"
  shows "wheel_core (place w i (deadline_tick e)) (P - {i}) R"
proof -
  obtain l s where b: "bucket_for (current_tick w) (deadline_tick e) = (l, s)" by fastforce
  then have ls: "l < 4" "s = slot_for (deadline_tick e) l" "R l (deadline_tick e)"
    using assms(4) by (auto simp: placeable_def)
  let ?e = "e\<lparr>en_level := l, en_slot := s\<rparr>"
  let ?w = "w\<lparr>entries := fmupd i ?e (entries w)\<rparr>"
  have w: "place w i (deadline_tick e) = insert_into ?w l s i" by (simp add: place_def b assms(3))
  have "occ_ok (insert_into ?w l s i)" using assms(1) ls by (intro occ_set_bucket_insert) (simp_all add: wheel_core_def)
  moreover have "buckets (insert_into ?w l s i) l' s' = bucket_ids (entries (insert_into ?w l s i)) l' s' - (P - {i})" for l' s'
    using assms(1,2) by (auto simp: wheel_core_def bucket_ids_upd)
  moreover have "entry_ok x \<and> R (en_level x) (deadline_tick x)"
    if "fmlookup (entries (insert_into ?w l s i)) j = Some x" "j \<notin> P - {i}" for j x
    using that assms(1) ls by (auto simp: wheel_core_def entry_ok_def split: if_splits)
  ultimately show ?thesis unfolding w wheel_core_def by blast
qed

lemma place_lookup:
  "j \<noteq> i \<Longrightarrow> fmlookup (entries (place w i d)) j = fmlookup (entries w) j"
  by (simp add: place_def split_beta Let_def split: option.split)

lemma replace_ids_fields [simp]:
  "timers (replace_ids w ids) = timers w" "tick_ms (replace_ids w ids) = tick_ms w"
  "next_id (replace_ids w ids) = next_id w"
  by (induction ids arbitrary: w) (simp_all split: option.split)

lemma replace_ids_core:
  assumes "wheel_core w P R" "distinct ids" "set ids \<subseteq> P"
    "\<forall>i \<in> set ids. \<exists>e. fmlookup (entries w) i = Some e \<and> placeable (current_tick w) R (deadline_tick e)"
  shows "wheel_core (replace_ids w ids) (P - set ids) R"
  using assms
proof (induction ids arbitrary: w P)
  case (Cons i ids)
  obtain e where e: "fmlookup (entries w) i = Some e" "placeable (current_tick w) R (deadline_tick e)"
    using Cons.prems(4) by auto
  have "wheel_core (place w i (deadline_tick e)) (P - {i}) R"
    using Cons.prems(1,3) e by (intro place_core) simp_all
  moreover have "\<forall>j \<in> set ids. \<exists>x. fmlookup (entries (place w i (deadline_tick e))) j = Some x \<and>
      placeable (current_tick w) R (deadline_tick x)"
  proof
    fix j assume "j \<in> set ids"
    then have "j \<noteq> i" using Cons.prems(2) by auto
    then show "\<exists>x. fmlookup (entries (place w i (deadline_tick e))) j = Some x \<and> placeable (current_tick w) R (deadline_tick x)"
      using Cons.prems(4) \<open>j \<in> set ids\<close> by (simp add: place_lookup)
  qed
  moreover have "distinct ids" "set ids \<subseteq> P - {i}" using Cons.prems(2,3) by auto
  ultimately have "wheel_core (replace_ids (place w i (deadline_tick e)) ids) (P - {i} - set ids) R"
    by (intro Cons.IH) simp_all
  moreover have "P - {i} - set ids = P - set (i # ids)" by auto
  ultimately show ?case using e(1) by simp
qed simp

lemma wheel_core_mono:
  assumes "wheel_core w P R"
    "\<And>i e. fmlookup (entries w) i = Some e \<Longrightarrow> i \<notin> P \<Longrightarrow> entry_ok e \<Longrightarrow>
        R (en_level e) (deadline_tick e) \<Longrightarrow> R' (en_level e) (deadline_tick e)"
  shows "wheel_core w P R'"
  using assms unfolding wheel_core_def by blast

lemma take_slot_core:
  assumes "wheel_core w {} R" "s < 256"
  shows "wheel_core (snd (take_slot w l s)) (buckets w l s) (\<lambda>l' d. R l' d \<and> \<not> (l' = l \<and> slot_for d l = s))"
proof -
  have b: "buckets w l' s' = bucket_ids (entries w) l' s'" for l' s' using assms(1) by (simp add: wheel_core_def)
  have disj: "bucket_ids (entries w) l' s' \<inter> bucket_ids (entries w) l s = {}" if "\<not> (l' = l \<and> s' = s)" for l' s'
    using that by (auto simp: bucket_ids_def)
  have "occ_ok (snd (take_slot w l s))" using assms by (intro occ_take_slot) (simp_all add: wheel_core_def)
  moreover have "buckets (snd (take_slot w l s)) l' s' = bucket_ids (entries w) l' s' - buckets w l s" for l' s'
    using disj [of l' s'] by (auto simp: b)
  moreover have "entry_ok x \<and> R (en_level x) (deadline_tick x) \<and> \<not> (en_level x = l \<and> slot_for (deadline_tick x) l = s)"
    if "fmlookup (entries w) j = Some x" "j \<notin> buckets w l s" for j x
    using that assms(1) by (auto simp: wheel_core_def b bucket_ids_def entry_ok_def)
  ultimately show ?thesis unfolding wheel_core_def by simp
qed


section \<open>One tick\<close>

text \<open>While the levels from \<open>n\<close> up have been cascaded for the tick \<open>c\<close>.\<close>

definition cascaded :: "nat \<Rightarrow> nat \<Rightarrow> nat \<Rightarrow> nat \<Rightarrow> bool" where
  "cascaded c n l d \<longleftrightarrow> window_at l c \<le> window_at l d \<and> window_at l d \<le> window_at l c + 256 \<and>
     (c mod 2 ^ (8 * l) = 0 \<longrightarrow> window_at l d \<le> window_at l c + 255) \<and>
     (n \<le> l \<or> c mod 2 ^ (8 * l) \<noteq> 0 \<longrightarrow> window_at l c < window_at l d)"

lemma same_slot:
  fixes C W :: nat assumes "C \<le> W" "W \<le> C + 255" "W mod 256 = C mod 256" shows "W = C"
proof -
  have "256 dvd W - C" using assms(1,3) by (simp add: mod_eq_dvd_iff_nat)
  then obtain k where "W - C = 256 * k" by (rule dvdE)
  then show ?thesis using assms(1,2) by (cases k) simp_all
qed

lemma cascaded_start: "in_time c l d \<Longrightarrow> l < 4 \<Longrightarrow> cascaded (c + 1) 4 l d"
  using div_Suc [of c "2 ^ (8 * l)"] by (auto simp: in_time_def cascaded_def split: if_splits)

lemma cascaded_end: "cascaded c 1 l d \<Longrightarrow> l \<noteq> 0 \<or> d \<noteq> c \<Longrightarrow> in_time c l d"
  by (cases "l = 0") (auto simp: cascaded_def in_time_def)

lemma cascaded_level0: "cascaded c 1 0 d \<longleftrightarrow> c \<le> d \<and> d \<le> c + 255"
  by (auto simp: cascaded_def)

lemma slot_for_0: "slot_for t 0 = t mod 256"
  by (simp add: slot_for_def)

lemma aligned_below: "(c::nat) mod 2 ^ (8 * l) = 0 \<Longrightarrow> k \<le> l \<Longrightarrow> c mod 2 ^ (8 * k) = 0"
  by (metis dvd_imp_mod_0 dvd_trans le_imp_power_dvd mod_0_imp_dvd mult_le_mono2)

lemma cascaded_placeable:
  assumes "c mod 2 ^ (8 * l) = 0" "c \<le> d" "d < c + 2 ^ (8 * l)" "0 < l" "l < 4"
  shows "placeable c (cascaded c l) d"
  unfolding placeable_def
proof (intro allI impI)
  fix k s assume b: "bucket_for c d = (k, s)"
  have "(2::nat) ^ (8 * l) \<le> 2 ^ 32" using assms(5) by (intro power_increasing) simp_all
  then have "d < c + 2 ^ 32" using assms(3) by linarith
  note p = bucket_for_props [OF b assms(2) this]
  have k: "k < l" using p(6) assms(3,4) by simp
  then have "c mod 2 ^ (8 * k) = 0" using assms(1) by (simp add: aligned_below)
  moreover have "window_at k c \<le> window_at k d" using assms(2) by (rule div_le_mono)
  ultimately show "k < 4 \<and> s = slot_for d k \<and> cascaded c l k d"
    using p(1,2,4,5) k by (simp add: cascaded_def)
qed

lemma due_window:
  assumes "c mod 2 ^ (8 * l) = 0" "window_at l d = window_at l c"
  shows "c \<le> d" "d < c + 2 ^ (8 * l)"
proof -
  let ?n = "2 ^ (8 * l) :: nat"
  have c: "c = ?n * window_at l c" using assms(1) by (metis add_0_right mult_div_mod_eq)
  have d: "d = ?n * window_at l c + d mod ?n" using assms(2) by (metis mult_div_mod_eq)
  show "c \<le> d" using c d by (metis le_add1)
  have "d mod ?n < ?n" by simp
  then show "d < c + ?n" using c d by linarith
qed

lemma cascade_level_core:
  assumes "wheel_core w {} (cascaded (current_tick w) (Suc l))" "0 < l" "l < 4"
  shows "wheel_core (cascade_level w l) {} (cascaded (current_tick w) l)"
proof (cases "current_tick w mod 2 ^ (8 * l) = 0")
  case False
  have "wheel_core w {} (cascaded (current_tick w) l)"
    using assms(1) by (rule wheel_core_mono) (use False le_antisym in \<open>fastforce simp: cascaded_def\<close>)
  then show ?thesis using False by (simp add: cascade_level_def)
next
  case True
  let ?c = "current_tick w"
  let ?s = "slot_for ?c l"
  let ?u = "snd (take_slot w l ?s)" and ?P = "buckets w l ?s"
  have b: "?P = bucket_ids (entries w) l ?s" using assms(1) by (simp add: wheel_core_def)
  have "wheel_core ?u ?P (\<lambda>l' d. cascaded ?c (Suc l) l' d \<and> \<not> (l' = l \<and> slot_for d l = ?s))"
    using assms(1) by (rule take_slot_core) simp
  then have u: "wheel_core ?u ?P (cascaded ?c l)"
  proof (rule wheel_core_mono)
    fix i and e :: "'a Entry"
    assume e: "cascaded ?c (Suc l) (en_level e) (deadline_tick e) \<and> \<not> (en_level e = l \<and> slot_for (deadline_tick e) l = ?s)"
    show "cascaded ?c l (en_level e) (deadline_tick e)"
    proof (cases "en_level e = l")
      case True
      then have "window_at l (deadline_tick e) \<noteq> window_at l ?c" using e by (auto simp: slot_for_def)
      then show ?thesis using e True by (auto simp: cascaded_def)
    next
      case False
      then show ?thesis using e by (auto simp: cascaded_def)
    qed
  qed
  have "\<exists>e. fmlookup (entries ?u) i = Some e \<and> placeable ?c (cascaded ?c l) (deadline_tick e)" if i: "i \<in> ?P" for i
  proof -
    obtain e where e: "fmlookup (entries w) i = Some e" "en_level e = l" "en_slot e = ?s"
      using i unfolding b bucket_ids_def by blast
    then have r: "cascaded ?c (Suc l) l (deadline_tick e)" "slot_for (deadline_tick e) l = ?s"
      using assms(1) by (auto simp: wheel_core_def entry_ok_def)
    have "window_at l ?c \<le> window_at l (deadline_tick e)" "window_at l (deadline_tick e) \<le> window_at l ?c + 255"
      using r(1) True unfolding cascaded_def by blast+
    then have "window_at l (deadline_tick e) = window_at l ?c"
      using r(2) unfolding slot_for_def by (rule same_slot)
    then have "placeable ?c (cascaded ?c l) (deadline_tick e)"
      using due_window [OF True] True assms(2,3) by (intro cascaded_placeable) simp_all
    then show ?thesis using e(1) by simp
  qed
  then have "wheel_core (replace_ids ?u (sorted_list_of_set ?P)) (?P - set (sorted_list_of_set ?P)) (cascaded ?c l)"
    using u by (intro replace_ids_core) (simp_all add: b)
  then show ?thesis using True by (simp add: cascade_level_def split_beta b)
qed

lemma cascade_boundaries_core:
  assumes "wheel_core w {} (cascaded (current_tick w) 4)"
  shows "wheel_core (cascade_boundaries w) {} (cascaded (current_tick w) 1)"
proof -
  have "rev [1..<LEVELS] = [3, 2, 1]" by (simp add: LEVELS_def upt_rec)
  then have c: "cascade_boundaries w = cascade_level (cascade_level (cascade_level w 3) 2) 1"
    by (simp add: cascade_boundaries_def)
  have "wheel_core (cascade_level w 3) {} (cascaded (current_tick w) 3)"
    using assms cascade_level_core [of w 3] by simp
  then have "wheel_core (cascade_level (cascade_level w 3) 2) {} (cascaded (current_tick w) 2)"
    using cascade_level_core [of "cascade_level w 3" 2] by simp
  then show ?thesis unfolding c using cascade_level_core [of "cascade_level (cascade_level w 3) 2" 1]
    by (simp add: numeral_2_eq_2)
qed

lemma cascade_boundaries_fields [simp]:
  "timers (cascade_boundaries w) = timers w" "tick_ms (cascade_boundaries w) = tick_ms w"
  "next_id (cascade_boundaries w) = next_id w"
proof -
  have l: "timers (cascade_level w l) = timers w" "tick_ms (cascade_level w l) = tick_ms w"
    "next_id (cascade_level w l) = next_id w" for w :: "'a TimerWheel" and l
    by (simp_all add: cascade_level_def split_beta)
  have "timers (foldl cascade_level w ls) = timers w \<and> tick_ms (foldl cascade_level w ls) = tick_ms w \<and>
      next_id (foldl cascade_level w ls) = next_id w" for ls
    by (induction ls arbitrary: w) (simp_all add: l)
  then show "timers (cascade_boundaries w) = timers w" "tick_ms (cascade_boundaries w) = tick_ms w"
    "next_id (cascade_boundaries w) = next_id w" by (simp_all add: cascade_boundaries_def)
qed


section \<open>Expiry\<close>

lemma expire_ids_due:
  assumes "distinct ids" "\<forall>i \<in> set ids. \<exists>e. fmlookup (entries w) i = Some e \<and> deadline_tick e \<le> current_tick w"
  shows "expire_ids w ids = (map (\<lambda>i. en_value (the (fmlookup (entries w) i))) ids,
     w\<lparr>entries := fmfilter (\<lambda>i. i \<notin> set ids) (entries w)\<rparr>)"
  using assms
proof (induction ids arbitrary: w)
  case Nil
  have "fmfilter (\<lambda>i. True) (entries w) = entries w" by (rule fmap_ext) simp
  then show ?case by simp
next
  case (Cons i ids)
  obtain e where e: "fmlookup (entries w) i = Some e" "deadline_tick e \<le> current_tick w" using Cons.prems(2) by auto
  define u where "u = w\<lparr>entries := fmdrop i (entries w)\<rparr>"
  have u: "entries u = fmdrop i (entries w)" "current_tick u = current_tick w" by (simp_all add: u_def)
  have "\<forall>j \<in> set ids. \<exists>e. fmlookup (entries u) j = Some e \<and> deadline_tick e \<le> current_tick u"
    using Cons.prems by (auto simp: u)
  then have "expire_ids u ids = (map (\<lambda>i. en_value (the (fmlookup (entries u) i))) ids,
     u\<lparr>entries := fmfilter (\<lambda>i. i \<notin> set ids) (entries u)\<rparr>)"
    using Cons.prems(1) by (intro Cons.IH) simp_all
  moreover have f: "fmfilter (\<lambda>i. i \<notin> set ids) (fmdrop i (entries w)) = fmfilter (\<lambda>j. j \<notin> set (i # ids)) (entries w)"
    by (rule fmap_ext) simp
  moreover have "u\<lparr>entries := fmfilter (\<lambda>i. i \<notin> set ids) (entries u)\<rparr> =
      w\<lparr>entries := fmfilter (\<lambda>j. j \<notin> set (i # ids)) (entries w)\<rparr>"
    unfolding u(1) f unfolding u_def by simp
  moreover have "map (\<lambda>j. en_value (the (fmlookup (entries u) j))) ids = map (\<lambda>j. en_value (the (fmlookup (entries w) j))) ids"
    using Cons.prems(1) by (auto simp: u)
  ultimately show ?case using e by (simp add: Let_def u_def [symmetric] u(2))
qed

text \<open>The timers that are due at a tick, in the order of their deadlines and, within a tick, of their identifiers.\<close>

definition due_set :: "(TimerId, nat \<times> 'v) fmap \<Rightarrow> nat \<Rightarrow> (nat \<times> TimerId) set" where
  "due_set m t = {(d, i). \<exists>v. fmlookup m i = Some (d, v) \<and> d \<le> t}"

definition due_values :: "(TimerId, nat \<times> 'v) fmap \<Rightarrow> nat \<Rightarrow> 'v list" where
  "due_values m t = map (\<lambda>(d, i). snd (the (fmlookup m i))) (sorted_list_of_set (due_set m t))"

definition not_due :: "(TimerId, nat \<times> 'v) fmap \<Rightarrow> nat \<Rightarrow> (TimerId, nat \<times> 'v) fmap" where
  "not_due m t = fmfilter (\<lambda>i. \<forall>d v. fmlookup m i = Some (d, v) \<longrightarrow> t < d) m"

lemma finite_due_set [simp]: "finite (due_set m t)"
proof (rule finite_subset)
  show "due_set m t \<subseteq> (\<lambda>i. (fst (the (fmlookup m i)), i)) ` fset (fmdom m)"
    by (force simp: due_set_def intro: fmdomI)
qed simp

lemma lookup_not_due: "fmlookup (not_due m t) i = (case fmlookup m i of Some (d, v) \<Rightarrow> if t < d then Some (d, v) else None | None \<Rightarrow> None)"
  by (auto simp: not_due_def split: option.split)

lemma due_set_not_due: "due_set (not_due m t) u = {(d, i) \<in> due_set m u. t < d}"
  by (auto simp: due_set_def lookup_not_due split: option.splits if_splits)

lemma sorted_list_of_set_split:
  fixes A B :: "'a :: linorder set"
  assumes "finite A" "finite B" "\<And>a b. a \<in> A \<Longrightarrow> b \<in> B \<Longrightarrow> a < b"
  shows "sorted_list_of_set (A \<union> B) = sorted_list_of_set A @ sorted_list_of_set B"
proof (rule sorted_distinct_set_unique)
  show "sorted (sorted_list_of_set A @ sorted_list_of_set B)"
    using assms by (auto simp: sorted_append less_imp_le)
  show "distinct (sorted_list_of_set A @ sorted_list_of_set B)" using assms by fastforce
qed (use assms in simp_all)

text \<open>Expiring up to \<open>t\<close> and then up to a later \<open>u\<close> is expiring up to \<open>u\<close>.\<close>

lemma due_values_split:
  assumes "t \<le> u"
  shows "due_values m t @ due_values (not_due m t) u = due_values m u"
    "not_due (not_due m t) u = not_due m u"
proof -
  have s: "due_set m u = due_set m t \<union> due_set (not_due m t) u"
    unfolding due_set_not_due using assms by (auto simp: due_set_def)
  have "sorted_list_of_set (due_set m u) = sorted_list_of_set (due_set m t) @ sorted_list_of_set (due_set (not_due m t) u)"
    unfolding s
  proof (rule sorted_list_of_set_split)
    show "a < b" if "a \<in> due_set m t" "b \<in> due_set (not_due m t) u" for a b
      using that unfolding due_set_not_due by (auto simp: due_set_def less_prod_def)
  qed simp_all
  moreover have "snd (the (fmlookup (not_due m t) i)) = snd (the (fmlookup m i))" if "(d, i) \<in> due_set (not_due m t) u" for d i
    using that by (auto simp: due_set_def lookup_not_due split: option.splits if_splits)
  ultimately show "due_values m t @ due_values (not_due m t) u = due_values m u"
    by (auto simp: due_values_def)
  show "not_due (not_due m t) u = not_due m u"
    using assms by (intro fmap_ext) (auto simp: lookup_not_due split: option.split)
qed

lemma due_values_none:
  assumes "\<And>i d v. fmlookup m i = Some (d, v) \<Longrightarrow> t < d"
  shows "due_values m t = []" "not_due m t = m"
proof -
  have "due_set m t = {}" using assms by (auto simp: due_set_def) (metis not_le)
  then show "due_values m t = []" by (simp add: due_values_def)
  show "not_due m t = m" using assms by (intro fmap_ext) (auto simp: lookup_not_due split: option.split)
qed


lemma lookup_timers: "fmlookup (timers w) i = map_option (\<lambda>e. (deadline_tick e, en_value e)) (fmlookup (entries w) i)"
  by (simp add: timers_def)

lemma sorted_list_of_pairs:
  fixes P :: "nat set" and k :: nat
  assumes "finite P"
  shows "sorted_list_of_set (Pair k ` P) = map (Pair k) (sorted_list_of_set P)"
proof (rule sorted_distinct_set_unique)
  have "sorted (map (Pair k) xs) = sorted xs" for xs :: "nat list"
    by (induction xs) (auto simp: less_eq_prod_def)
  then show "sorted (map (Pair k) (sorted_list_of_set P))" using assms by simp
  show "distinct (map (Pair k) (sorted_list_of_set P))" using assms by (simp add: distinct_map inj_on_def)
qed (use assms in simp_all)

definition wheel_frame :: "'v TimerWheel \<Rightarrow> 'v TimerWheel \<Rightarrow> bool" where
  "wheel_frame w u \<longleftrightarrow> tick_ms u = tick_ms w \<and> next_id u = next_id w"

lemma wheel_invI:
  assumes "wheel_core u {} (in_time (current_tick u))" "timers u = m" "0 < tick_ms u"
    "\<And>i d v. fmlookup m i = Some (d, v) \<Longrightarrow> i < next_id u \<and> d \<le> u64_max \<and> d < current_tick u + 2 ^ 32"
  shows "wheel_inv u"
proof -
  have "i < next_id u \<and> deadline_tick e \<le> u64_max \<and> deadline_tick e < current_tick u + 2 ^ 32"
    if "fmlookup (entries u) i = Some e" for i e
    using assms(4) [of i "deadline_tick e" "en_value e"] that
    by (simp add: lookup_timers flip: assms(2))
  then show ?thesis using assms(1,3) by (simp add: wheel_inv_def)
qed

lemma wheel_inv_timers:
  assumes "wheel_inv w" "fmlookup (timers w) i = Some (d, v)"
  shows "i < next_id w" "d \<le> u64_max" "d < current_tick w + 2 ^ 32" "current_tick w < d"
proof -
  obtain e where e: "fmlookup (entries w) i = Some e" "d = deadline_tick e"
    using assms(2) by (auto simp: lookup_timers)
  then show "i < next_id w" "d \<le> u64_max" "d < current_tick w + 2 ^ 32"
    using assms(1) by (auto simp: wheel_inv_def)
  have "window_at (en_level e) (current_tick w) < window_at (en_level e) (deadline_tick e)"
    using assms(1) e by (auto simp: wheel_inv_def wheel_core_def in_time_def)
  then show "current_tick w < d" using div_le_mono [of d "current_tick w"] e(2) by (metis leD leI)
qed

lemma drop_pending_core:
  assumes "wheel_core w P R"
  shows "wheel_core (w\<lparr>entries := fmfilter (\<lambda>i. i \<notin> P) (entries w)\<rparr>) {} R"
proof -
  have "bucket_ids (fmfilter (\<lambda>i. i \<notin> P) m) l s = bucket_ids m l s - P" for m :: "(nat, 'a Entry) fmap" and l s
    by (auto simp: bucket_ids_def)
  then show ?thesis using assms by (auto simp: wheel_core_def)
qed

lemma advance_tick_due:
  assumes "wheel_inv w"
  defines "c \<equiv> current_tick w + 1"
  shows "fst (advance_tick w) = due_values (timers w) c \<and> timers (snd (advance_tick w)) = not_due (timers w) c \<and>
     wheel_inv (snd (advance_tick w)) \<and> wheel_frame w (snd (advance_tick w))"
proof -
  define w2 where "w2 = cascade_boundaries (w\<lparr>current_tick := c\<rparr>)"
  have c2: "current_tick w2 = c" by (simp add: w2_def)
  have t2: "timers w2 = timers w" "tick_ms w2 = tick_ms w" "next_id w2 = next_id w" by (simp_all add: w2_def)
  have "wheel_core (w\<lparr>current_tick := c\<rparr>) {} (cascaded c 4)"
    using assms(1) cascaded_start [of "current_tick w"]
    by (auto simp: wheel_inv_def wheel_core_def c_def entry_ok_def)
  then have core2: "wheel_core w2 {} (cascaded c 1)"
    using cascade_boundaries_core [of "w\<lparr>current_tick := c\<rparr>"] by (simp add: w2_def)
  define P where "P = buckets w2 0 (slot_for c 0)"
  have fin: "finite P" and Pb: "P = bucket_ids (entries w2) 0 (slot_for c 0)"
    using core2 by (simp_all add: P_def wheel_core_def)
  have iff: "i \<in> P \<longleftrightarrow> deadline_tick e = c" if "fmlookup (entries w2) i = Some e" for i e
  proof -
    have k: "cascaded c 1 (en_level e) (deadline_tick e)" "en_slot e = slot_for (deadline_tick e) (en_level e)"
      using core2 that by (auto simp: wheel_core_def entry_ok_def)
    show ?thesis
    proof
      assume "i \<in> P"
      then have l: "en_level e = 0" "slot_for (deadline_tick e) 0 = slot_for c 0" using that k(2) by (auto simp: Pb bucket_ids_def)
      have "c \<le> deadline_tick e" "deadline_tick e \<le> c + 255" using k(1) unfolding l(1) cascaded_level0 by blast+
      then show "deadline_tick e = c" using l(2) unfolding slot_for_0 by (rule same_slot)
    next
      assume d: "deadline_tick e = c"
      then have "\<not> 1 \<le> en_level e" using k(1) unfolding cascaded_def by (metis less_irrefl)
      then have "en_level e = 0" by simp
      then show "i \<in> P" using that k(2) d by (auto simp: Pb bucket_ids_def)
    qed
  qed
  let ?w3 = "snd (take_slot w2 0 (slot_for c 0))"
  have "wheel_core ?w3 P (\<lambda>l d. cascaded c 1 l d \<and> \<not> (l = 0 \<and> slot_for d 0 = slot_for c 0))"
    unfolding P_def using core2 by (rule take_slot_core) simp
  then have core3: "wheel_core ?w3 P (in_time c)"
    by (rule wheel_core_mono) (auto intro: cascaded_end)
  have "\<forall>i \<in> set (sorted_list_of_set P). \<exists>e. fmlookup (entries ?w3) i = Some e \<and> deadline_tick e \<le> current_tick ?w3"
  proof
    fix i assume "i \<in> set (sorted_list_of_set P)"
    then have "i \<in> P" using fin by simp
    moreover from this obtain e where "fmlookup (entries w2) i = Some e" by (auto simp: Pb bucket_ids_def)
    ultimately show "\<exists>e. fmlookup (entries ?w3) i = Some e \<and> deadline_tick e \<le> current_tick ?w3"
      using iff c2 by auto
  qed
  then have ex: "expire_ids ?w3 (sorted_list_of_set P) =
      (map (\<lambda>i. en_value (the (fmlookup (entries w2) i))) (sorted_list_of_set P),
       ?w3\<lparr>entries := fmfilter (\<lambda>i. i \<notin> P) (entries w2)\<rparr>)"
    using expire_ids_due [of "sorted_list_of_set P" ?w3]
    unfolding take_slot_fields(1) set_sorted_list_of_set [OF fin] by simp
  define u where "u = ?w3\<lparr>entries := fmfilter (\<lambda>i. i \<notin> P) (entries w2)\<rparr>"
  have adv: "advance_tick w = (map (\<lambda>i. en_value (the (fmlookup (entries w2) i))) (sorted_list_of_set P), u)"
    unfolding advance_tick_def c_def [symmetric] w2_def [symmetric] Let_def split_beta c2 take_slot_fields(5)
    by (simp add: P_def [symmetric] ex u_def)
  have "due_set (timers w) c = Pair c ` P"
    unfolding t2(1) [symmetric] due_set_def
  proof (intro set_eqI iffI, clarsimp simp: lookup_timers)
    fix i e assume e: "deadline_tick e \<le> c" "fmlookup (entries w2) i = Some e"
    have "current_tick w < deadline_tick e"
      using wheel_inv_timers(4) [OF assms(1), of i "deadline_tick e" "en_value e"] e(2) by (simp add: t2(1) [symmetric] lookup_timers)
    then have "deadline_tick e = c" using e(1) by (simp add: c_def)
    then show "(deadline_tick e, i) \<in> Pair c ` P" using iff [OF e(2)] by simp
  next
    fix x assume "x \<in> Pair c ` P"
    then obtain i where i: "x = (c, i)" "i \<in> P" by auto
    then obtain e where "fmlookup (entries w2) i = Some e" by (auto simp: Pb bucket_ids_def)
    then show "x \<in> {(d, i). \<exists>v. fmlookup (timers w2) i = Some (d, v) \<and> d \<le> c}"
      using i iff by (auto simp: lookup_timers)
  qed
  then have vals: "due_values (timers w) c = map (\<lambda>i. en_value (the (fmlookup (entries w2) i))) (sorted_list_of_set P)"
    using fin by (auto simp: due_values_def sorted_list_of_pairs t2(1) [symmetric] lookup_timers Pb bucket_ids_def)
  have tu: "timers u = not_due (timers w) c"
  proof (rule fmap_ext)
    fix i
    show "fmlookup (timers u) i = fmlookup (not_due (timers w) c) i"
    proof (cases "fmlookup (entries w2) i")
      case None
      then show ?thesis by (simp add: lookup_timers u_def lookup_not_due t2(1) [symmetric])
    next
      case (Some e)
      have "current_tick w < deadline_tick e"
        using wheel_inv_timers(4) [OF assms(1), of i "deadline_tick e" "en_value e"] Some by (simp add: t2(1) [symmetric] lookup_timers)
      then have "(i \<notin> P) = (c < deadline_tick e)" using iff [OF Some] by (auto simp: c_def)
      then show ?thesis using Some by (simp add: lookup_timers u_def lookup_not_due t2(1) [symmetric])
    qed
  qed
  have cu: "current_tick u = c" "tick_ms u = tick_ms w" "next_id u = next_id w" by (simp_all add: u_def c2 t2)
  have "wheel_core u {} (in_time c)" using drop_pending_core [OF core3] unfolding u_def take_slot_fields(1) .
  then have "wheel_inv u"
  proof (intro wheel_invI [OF _ tu])
    show "0 < tick_ms u" using assms(1) by (simp add: cu wheel_inv_def)
    fix i d v assume "fmlookup (not_due (timers w) c) i = Some (d, v)"
    then have "fmlookup (timers w) i = Some (d, v)" by (auto simp: lookup_not_due split: option.splits if_splits)
    from wheel_inv_timers [OF assms(1) this] show "i < next_id u \<and> d \<le> u64_max \<and> d < current_tick u + 2 ^ 32"
      by (simp add: cu c_def)
  qed (simp add: cu)
  then show ?thesis using adv vals tu cu by (simp add: wheel_frame_def)
qed


section \<open>Many ticks and the long jump\<close>

lemma advance_ticks_due:
  assumes "wheel_inv w" "current_tick w \<le> t"
  shows "fst (advance_ticks w t) = due_values (timers w) t \<and> timers (snd (advance_ticks w t)) = not_due (timers w) t \<and>
     wheel_inv (snd (advance_ticks w t)) \<and> wheel_frame w (snd (advance_ticks w t)) \<and>
     current_tick (snd (advance_ticks w t)) = t"
  using assms
proof (induction w t rule: advance_ticks.induct)
  case (1 w t)
  show ?case
  proof (cases "current_tick w < t")
    case False
    then have t: "t = current_tick w" using 1(3) by simp
    have n: "due_values (timers w) (current_tick w) = []" "not_due (timers w) (current_tick w) = timers w"
      using due_values_none [of "timers w" "current_tick w"] wheel_inv_timers(4) [OF 1(2)] by blast+
    show ?thesis using 1(2) n unfolding t
      by (simp add: advance_ticks.simps [of w "current_tick w"] wheel_frame_def)
  next
    case True
    obtain vs u where u: "advance_tick w = (vs, u)" by fastforce
    have a: "vs = due_values (timers w) (current_tick w + 1)" "timers u = not_due (timers w) (current_tick w + 1)"
      "wheel_inv u" "wheel_frame w u" "current_tick u = current_tick w + 1"
      using advance_tick_due [OF 1(2)] current_advance_tick [of w] by (simp_all add: u)
    have ih: "fst (advance_ticks u t) = due_values (timers u) t \<and> timers (snd (advance_ticks u t)) = not_due (timers u) t \<and>
     wheel_inv (snd (advance_ticks u t)) \<and> wheel_frame u (snd (advance_ticks u t)) \<and> current_tick (snd (advance_ticks u t)) = t"
      using 1(1) [OF True u [symmetric] refl a(3)] True a(5) by simp
    have r: "advance_ticks w t = (vs @ fst (advance_ticks u t), snd (advance_ticks u t))"
      using True by (simp add: advance_ticks.simps [of w t] u split_beta)
    have "current_tick w + 1 \<le> t" using True by simp
    then show ?thesis using ih a r due_values_split [of "current_tick w + 1" t "timers w"]
      by (simp add: wheel_frame_def)
  qed
qed

lemma distinct_fset_list: "distinct (sorted_list_of_fset X)"
  by (simp add: sorted_list_of_fset.rep_eq)

lemma large_advance_due_list:
  assumes "\<And>i. f i = (case fmlookup m i of Some e \<Rightarrow> [e] | None \<Rightarrow> [])"
  shows "sort [(deadline_tick e, i). i \<leftarrow> sorted_list_of_fset (fmdom m), e \<leftarrow> f i, deadline_tick e \<le> t]
     = sorted_list_of_set (due_set (fmmap (\<lambda>e. (deadline_tick e, en_value e)) m) t)"
    (is "sort ?xs = _")
proof (rule sorted_distinct_set_unique)
  have "(d, i) \<in> set ?xs \<longleftrightarrow> (d, i) \<in> due_set (fmmap (\<lambda>e. (deadline_tick e, en_value e)) m) t" for d i
  proof (cases "fmlookup m i")
    case None
    then show ?thesis by (auto simp: assms due_set_def split: option.splits)
  next
    case (Some e)
    then have "i \<in> fset (fmdom m)" by (rule fmdomI)
    then show ?thesis using Some by (auto simp: assms due_set_def split: option.splits)
  qed
  then show "set (sort ?xs) = set (sorted_list_of_set (due_set (fmmap (\<lambda>e. (deadline_tick e, en_value e)) m) t))"
    by (intro set_eqI) (auto simp del: set_concat)
  have "distinct [(deadline_tick e, i). i \<leftarrow> is, e \<leftarrow> f i, deadline_tick e \<le> t]" if "distinct is" for "is"
    using that by (induction "is") (auto simp: assms split: option.split)
  moreover have "distinct (sorted_list_of_fset (fmdom m))" by (rule distinct_fset_list)
  ultimately show "distinct (sort ?xs)" by simp
qed simp_all

lemma map_the_list:
  assumes "\<forall>x \<in> set xs. fmlookup m (snd x) \<noteq> None"
  shows "[en_value e. (_, i) \<leftarrow> xs, e \<leftarrow> (case fmlookup m i of Some e \<Rightarrow> [e] | None \<Rightarrow> [])] =
     map (\<lambda>(d, i). en_value (the (fmlookup m i))) xs"
  using assms by (induction xs) (auto split: option.split)

lemma large_advance_due:
  assumes "wheel_inv w" "current_tick w \<le> t"
  shows "fst (large_advance w t) = due_values (timers w) t \<and> timers (snd (large_advance w t)) = not_due (timers w) t \<and>
     wheel_inv (snd (large_advance w t)) \<and> wheel_frame w (snd (large_advance w t)) \<and>
     current_tick (snd (large_advance w t)) = t"
proof -
  define D where "D = due_set (timers w) t"
  have lk: "fmlookup (entries w) i \<noteq> None" if "(d, i) \<in> D" for d i
    using that by (auto simp: D_def due_set_def lookup_timers)
  have due: "sort [(deadline_tick e, i). i \<leftarrow> sorted_list_of_fset (fmdom (entries w)),
      e \<leftarrow> (case fmlookup (entries w) i of Some e \<Rightarrow> [e] | None \<Rightarrow> []), deadline_tick e \<le> t] = sorted_list_of_set D"
    using large_advance_due_list [OF refl, where m = "entries w" and t = t] by (simp add: D_def timers_def)
  define u where "u = w\<lparr>current_tick := t, entries := fmfilter (\<lambda>i. i \<notin> snd ` D) (entries w), buckets := (\<lambda>_ _. {}),
                occupied := (\<lambda>_ _. 0)\<rparr>"
  define ids where "ids = sorted_list_of_fset (fmdom (entries u))"
  have same_entries: "entries (w\<lparr>current_tick := t\<rparr>) = entries w" by simp
  have "set (sorted_list_of_set D) = D" by (simp add: D_def)
  then have la: "large_advance w t = ([en_value e. (_, i) \<leftarrow> sorted_list_of_set D,
       e \<leftarrow> (case fmlookup (entries w) i of Some e \<Rightarrow> [e] | None \<Rightarrow> [])], replace_ids u ids)"
    unfolding large_advance_def Let_def same_entries by (simp add: due u_def ids_def)
  have vals: "fst (large_advance w t) = due_values (timers w) t"
  proof -
    have "fst (large_advance w t) = map (\<lambda>(d, i). en_value (the (fmlookup (entries w) i))) (sorted_list_of_set D)"
      unfolding la fst_conv by (rule map_the_list) (use lk in \<open>auto simp: D_def\<close>)
    also have "\<dots> = due_values (timers w) t"
      unfolding due_values_def D_def [symmetric]
      by (rule map_cong [OF refl]) (use lk in \<open>fastforce simp: lookup_timers D_def\<close>)
    finally show ?thesis .
  qed
  have eu: "fmlookup (entries u) i = Some e \<longleftrightarrow> fmlookup (entries w) i = Some e \<and> t < deadline_tick e" for i e
  proof -
    have "i \<in> snd ` D \<longleftrightarrow> deadline_tick e \<le> t" if "fmlookup (entries w) i = Some e"
      using that by (force simp: D_def due_set_def lookup_timers)
    moreover have "fmlookup (entries u) i = (if i \<notin> snd ` D then fmlookup (entries w) i else None)" by (simp add: u_def)
    ultimately show ?thesis by (metis not_le option.distinct(1))
  qed
  have tu: "timers u = not_due (timers w) t"
  proof (rule fmap_ext)
    fix i
    have "fmlookup (entries u) i = (case fmlookup (entries w) i of None \<Rightarrow> None | Some e \<Rightarrow> if t < deadline_tick e then Some e else None)"
      using eu [of i "the (fmlookup (entries u) i)"] eu [of i "the (fmlookup (entries w) i)"]
      by (cases "fmlookup (entries w) i"; cases "fmlookup (entries u) i") simp_all
    then show "fmlookup (timers u) i = fmlookup (not_due (timers w) t) i"
      by (simp add: lookup_timers lookup_not_due split: option.split)
  qed
  have fu: "current_tick u = t" "tick_ms u = tick_ms w" "next_id u = next_id w" by (simp_all add: u_def)
  have idset: "set ids = fset (fmdom (entries u))" "distinct ids" by (simp_all add: ids_def distinct_fset_list)
  have "wheel_core u (set ids) (in_time t)"
  proof -
    have "bucket_ids (entries u) l s - set ids = {}" for l s
      by (auto simp: bucket_ids_def idset intro: fmdomI)
    then show ?thesis by (auto simp: wheel_core_def u_def occ_ok_def idset [unfolded u_def] intro: fmdomI)
  qed
  moreover have "\<exists>e. fmlookup (entries u) i = Some e \<and> placeable (current_tick u) (in_time t) (deadline_tick e)" if i: "i \<in> set ids" for i
  proof -
    obtain e where e: "fmlookup (entries u) i = Some e" using i idset(1) by (auto simp: fmlookup_dom_iff)
    then have d: "t < deadline_tick e" "fmlookup (entries w) i = Some e" using eu by auto
    have "deadline_tick e < t + 2 ^ 32" using assms d(2) by (force simp: wheel_inv_def)
    then have "placeable t (in_time t) (deadline_tick e)"
      using bucket_for_props [of t "deadline_tick e"] d(1) by (auto simp: placeable_def in_time_def)
    then show ?thesis using e fu(1) by auto
  qed
  ultimately have "wheel_core (replace_ids u ids) (set ids - set ids) (in_time t)"
    using idset(2) by (intro replace_ids_core) simp_all
  then have core: "wheel_core (replace_ids u ids) {} (in_time t)" by simp
  have "wheel_inv (replace_ids u ids)"
  proof (rule wheel_invI)
    show "timers (replace_ids u ids) = not_due (timers w) t" by (simp add: tu)
    show "wheel_core (replace_ids u ids) {} (in_time (current_tick (replace_ids u ids)))" using core by (simp add: fu)
    show "0 < tick_ms (replace_ids u ids)" using assms(1) by (simp add: fu wheel_inv_def)
    fix i d v assume "fmlookup (not_due (timers w) t) i = Some (d, v)"
    then have "fmlookup (timers w) i = Some (d, v)" by (auto simp: lookup_not_due split: option.splits if_splits)
    from wheel_inv_timers [OF assms(1) this] assms(2)
    show "i < next_id (replace_ids u ids) \<and> d \<le> u64_max \<and> d < current_tick (replace_ids u ids) + 2 ^ 32" by (simp add: fu)
  qed
  then show ?thesis using vals la tu fu by (simp add: wheel_frame_def)
qed

end
