(* ===== verification/Timer_Refine.thy ===== *)
theory Timer_Refine
  imports Timer_Facts
begin

text \<open>
  What each operation of the timer wheel does to the set of pending timers: \<open>schedule\<close>, \<open>cancel\<close> and \<open>advance_to\<close>
  keep the invariant and act on \<open>timers\<close> as on a finite map.
\<close>

section \<open>Scheduling and cancelling\<close>

text \<open>The tick a call of \<open>advance_to\<close> moves the clock to.\<close>

definition target_tick :: "'v TimerWheel \<Rightarrow> nat \<Rightarrow> nat" where
  "target_tick w now = (if now = u64_max then div_ceil now (tick_ms w) else now div tick_ms w)"

definition deadline_of :: "'v TimerWheel \<Rightarrow> nat \<Rightarrow> nat" where
  "deadline_of w deadline = max (div_ceil deadline (tick_ms w)) (current_tick w + 1)"

text \<open>The clock is a time the wheel can have been advanced to.\<close>

definition clock_ok :: "'v TimerWheel \<Rightarrow> bool" where
  "clock_ok w \<longleftrightarrow> current_tick w \<le> div_ceil u64_max (tick_ms w)"

lemma div_ceil_le: "0 < b \<Longrightarrow> div_ceil a b \<le> a"
  by (simp add: div_ceil_le_iff)

lemma schedule_eq:
  assumes "wheel_inv w" "current_tick w < u64_max" "next_id w < u64_max" "deadline \<le> u64_max"
    "deadline_of w deadline < current_tick w + 2 ^ 32"
  shows "fst (schedule w deadline v) = Ok (next_id w)"
    "timers (snd (schedule w deadline v)) = fmupd (next_id w) (deadline_of w deadline, v) (timers w)"
    "wheel_inv (snd (schedule w deadline v))" "tick_ms (snd (schedule w deadline v)) = tick_ms w"
    "current_tick (snd (schedule w deadline v)) = current_tick w"
    "next_id (snd (schedule w deadline v)) = next_id w + 1"
proof -
  let ?d = "deadline_of w deadline" and ?c = "current_tick w" and ?i = "next_id w"
  have d: "max (div_ceil deadline (tick_ms w)) (sat_add ?c 1) = ?d"
    using assms(2) by (simp add: deadline_of_def sat_add_def)
  obtain l s where b: "bucket_for ?c ?d = (l, s)" by fastforce
  have cd: "?c < ?d" by (simp add: deadline_of_def)
  note p = bucket_for_props [OF b less_imp_le [OF cd] assms(5)]
  define e where "e = \<lparr>deadline_tick = ?d, en_level = l, en_slot = s, en_value = v\<rparr>"
  define u where "u = w\<lparr>next_id := ?i + 1, entries := fmupd ?i e (entries w)\<rparr>"
  have eu: "entries u = fmupd ?i e (entries w)" "buckets u = buckets w" "current_tick u = ?c" "tick_ms u = tick_ms w"
    "next_id u = ?i + 1" by (simp_all add: u_def)
  have wi: "wadd ?i 1 = ?i + 1" using assms(3) by (simp add: wadd_def)
  have r: "\<not> 2 ^ 32 \<le> sat_sub ?d ?c" using assms(5) cd by (simp add: sat_sub_def)
  have s: "schedule w deadline v = (Ok ?i, insert_into u l s ?i)"
    unfolding schedule_def d Let_def wi if_not_P [OF r] by (simp add: b u_def e_def)
  have fresh: "fmlookup (entries w) ?i = None"
    using assms(1) by (cases "fmlookup (entries w) ?i") (auto simp: wheel_inv_def)
  have tm: "timers u = fmupd ?i (?d, v) (timers w)"
    by (rule fmap_ext) (simp add: lookup_timers eu e_def)
  have "wheel_core (insert_into u l s ?i) {} (in_time ?c)"
  proof -
    have nb: "?i \<notin> bucket_ids (entries w) l' s'" for l' s' using fresh by (simp add: bucket_ids_def)
    have "occ_ok u" using assms(1) by (simp add: u_def wheel_inv_def wheel_core_def)
    then have "occ_ok (insert_into u l s ?i)" using p(2) by (intro occ_set_bucket_insert) simp_all
    moreover have "buckets (insert_into u l s ?i) l' s' = bucket_ids (entries u) l' s'" for l' s'
      using assms(1) nb by (auto simp: eu bucket_ids_upd e_def wheel_inv_def wheel_core_def)
    moreover have "entry_ok x \<and> in_time ?c (en_level x) (deadline_tick x)" if "fmlookup (entries u) j = Some x" for j x
      using that assms(1) p cd
      by (auto simp: eu e_def wheel_inv_def wheel_core_def entry_ok_def in_time_def split: if_splits)
    ultimately show ?thesis by (simp add: wheel_core_def)
  qed
  moreover have "?d \<le> u64_max"
    using assms(1,2,4) div_ceil_le [of "tick_ms w" deadline] by (simp add: deadline_of_def wheel_inv_def)
  ultimately have "wheel_inv (insert_into u l s ?i)"
    using wheel_inv_timers [OF assms(1)] assms(1,5)
    by (intro wheel_invI [where m = "timers u"]) (auto simp: eu tm wheel_inv_def less_Suc_eq split: if_splits)
  then show "fst (schedule w deadline v) = Ok (next_id w)"
    "timers (snd (schedule w deadline v)) = fmupd (next_id w) (deadline_of w deadline, v) (timers w)"
    "wheel_inv (snd (schedule w deadline v))" "tick_ms (snd (schedule w deadline v)) = tick_ms w"
    "current_tick (snd (schedule w deadline v)) = current_tick w"
    "next_id (snd (schedule w deadline v)) = next_id w + 1"
    by (simp_all add: s tm eu)
qed

lemma schedule_out_of_range:
  assumes "current_tick w < u64_max" "current_tick w + 2 ^ 32 \<le> deadline_of w deadline"
  shows "schedule w deadline v = (Err DeadlineOutOfRange, w)"
proof -
  have "max (div_ceil deadline (tick_ms w)) (sat_add (current_tick w) 1) = deadline_of w deadline"
    using assms(1) by (simp add: deadline_of_def sat_add_def)
  moreover have "2 ^ 32 \<le> sat_sub (deadline_of w deadline) (current_tick w)" using assms(2) by (simp add: sat_sub_def)
  ultimately show ?thesis unfolding schedule_def by (simp only: Let_def if_True)
qed

lemma cancel_eq:
  assumes "wheel_inv w"
  shows "fst (cancel w i) = map_option snd (fmlookup (timers w) i)"
    "timers (snd (cancel w i)) = fmdrop i (timers w)" "wheel_inv (snd (cancel w i))"
    "current_tick (snd (cancel w i)) = current_tick w" "wheel_frame w (snd (cancel w i))"
proof -
  have "fst (cancel w i) = map_option snd (fmlookup (timers w) i) \<and>
    timers (snd (cancel w i)) = fmdrop i (timers w) \<and> wheel_inv (snd (cancel w i)) \<and>
    current_tick (snd (cancel w i)) = current_tick w \<and> wheel_frame w (snd (cancel w i))"
  proof (cases "fmlookup (entries w) i")
    case None
    have "fmdrop i (timers w) = timers w" by (rule fmap_ext) (simp add: lookup_timers None)
    then show ?thesis using assms None by (simp add: cancel_def lookup_timers wheel_frame_def)
  next
    case (Some e)
    define u where "u = w\<lparr>entries := fmdrop i (entries w)\<rparr>"
    have eu: "entries u = fmdrop i (entries w)" "buckets u = buckets w" "current_tick u = current_tick w"
      "tick_ms u = tick_ms w" "next_id u = next_id w" by (simp_all add: u_def)
    have c: "cancel w i = (Some (en_value e), remove_from u (en_level e) (en_slot e) i)"
      by (simp add: cancel_def Some u_def)
    have tm: "timers u = fmdrop i (timers w)" by (rule fmap_ext) (simp add: lookup_timers eu)
    have core: "wheel_core w {} (in_time (current_tick w))" using assms by (simp add: wheel_inv_def)
    have sl: "en_slot e < 256" using core Some by (auto simp: wheel_core_def entry_ok_def)
    have "occ_ok u" using core by (simp add: u_def wheel_core_def)
    then have "occ_ok (remove_from u (en_level e) (en_slot e) i)" using sl by (rule occ_remove_from)
    moreover have "buckets (remove_from u (en_level e) (en_slot e) i) l s = bucket_ids (entries u) l s" for l s
      using core Some by (auto simp: eu bucket_ids_drop wheel_core_def) (auto simp: bucket_ids_def)
    moreover have "entry_ok x \<and> in_time (current_tick w) (en_level x) (deadline_tick x)"
      if "fmlookup (entries u) j = Some x" for j x
      using that core by (auto simp: eu wheel_core_def split: if_splits)
    ultimately have "wheel_core (remove_from u (en_level e) (en_slot e) i) {} (in_time (current_tick w))"
      by (simp add: wheel_core_def)
    then have "wheel_inv (remove_from u (en_level e) (en_slot e) i)"
      using wheel_inv_timers [OF assms] assms
      by (intro wheel_invI [where m = "timers u"]) (auto simp: eu tm wheel_inv_def split: if_splits)
    then show ?thesis using Some by (simp add: c tm eu lookup_timers wheel_frame_def)
  qed
  then show "fst (cancel w i) = map_option snd (fmlookup (timers w) i)"
    "timers (snd (cancel w i)) = fmdrop i (timers w)" "wheel_inv (snd (cancel w i))"
    "current_tick (snd (cancel w i)) = current_tick w" "wheel_frame w (snd (cancel w i))" by simp_all
qed

section \<open>Advancing\<close>

lemma target_ge:
  assumes "wheel_inv w" "clock_ok w" "now_ms w \<le> now" "now \<le> u64_max"
  shows "current_tick w \<le> target_tick w now"
proof (cases "current_tick w * tick_ms w \<le> u64_max")
  case True
  have t: "0 < tick_ms w" using assms(1) by (simp add: wheel_inv_def)
  have "current_tick w * tick_ms w \<le> now" using assms(3) True by (simp add: now_ms_def sat_mul_def)
  then have "current_tick w \<le> now div tick_ms w" using t by (simp add: less_eq_div_iff_mult_less_eq)
  moreover have "now div tick_ms w \<le> div_ceil now (tick_ms w)" by (simp add: div_ceil_def)
  ultimately have "current_tick w \<le> div_ceil now (tick_ms w)" "current_tick w \<le> now div tick_ms w" by simp_all
  then show ?thesis unfolding target_tick_def by auto
next
  case False
  then have "now = u64_max" using assms(3,4) by (simp add: now_ms_def sat_mul_def)
  then show ?thesis using assms(2) by (simp add: target_tick_def clock_ok_def)
qed

lemma target_clock: "0 < tick_ms w \<Longrightarrow> now \<le> u64_max \<Longrightarrow> target_tick w now \<le> div_ceil u64_max (tick_ms w)"
proof -
  assume a: "0 < tick_ms w" "now \<le> u64_max"
  have "now div tick_ms w \<le> u64_max div tick_ms w" using a(2) by (rule div_le_mono)
  also have "\<dots> \<le> div_ceil u64_max (tick_ms w)" by (simp add: div_ceil_def)
  finally show ?thesis by (simp add: target_tick_def)
qed

lemma advance_to_eq:
  assumes "wheel_inv w" "clock_ok w" "now_ms w \<le> now" "now \<le> u64_max"
  defines "t \<equiv> target_tick w now"
  shows "fst (advance_to w now) = Ok (due_values (timers w) t)" "timers (snd (advance_to w now)) = not_due (timers w) t"
    "wheel_inv (snd (advance_to w now))" "clock_ok (snd (advance_to w now))"
    "current_tick (snd (advance_to w now)) = t" "wheel_frame w (snd (advance_to w now))"
proof -
  have t: "current_tick w \<le> t" unfolding t_def using assms(1-4) by (rule target_ge)
  have "0 < tick_ms w" using assms(1) by (simp add: wheel_inv_def)
  then have k: "t \<le> div_ceil u64_max (tick_ms w)" unfolding t_def using assms(4) by (rule target_clock)
  have "advance_to w now = (let (vs, u) = (if LARGE_ADVANCE_TICKS < sat_sub t (current_tick w) then large_advance w t
      else advance_ticks w t) in (Ok vs, u))"
    using assms(3) by (simp add: advance_to_def t_def target_tick_def Let_def)
  then show "fst (advance_to w now) = Ok (due_values (timers w) t)" "timers (snd (advance_to w now)) = not_due (timers w) t"
    "wheel_inv (snd (advance_to w now))" "clock_ok (snd (advance_to w now))"
    "current_tick (snd (advance_to w now)) = t" "wheel_frame w (snd (advance_to w now))"
    using advance_ticks_due [OF assms(1) t] large_advance_due [OF assms(1) t] k
    by (auto simp: split_beta clock_ok_def wheel_frame_def)
qed

end
