(* ===== verification/Timer_Scan.thy ===== *)
theory Timer_Scan
  imports Timer_Refine
begin

text \<open>
  The bitmap scan behind \<open>next_deadline_ms\<close>: the first occupied bucket at or after a position, in cyclic
  order, and why the scan of the levels never reports a time later than a pending timer.
\<close>

section \<open>The next deadline\<close>

lemma trailing_zeros_le:
  assumes "bit x j" shows "trailing_zeros x \<le> j" "bit x (trailing_zeros x)" "trailing_zeros x < 64"
proof -
  have j: "j < 64" using assms bit_imp_le_length [of x j] by simp
  let ?t = "length (takeWhile (\<lambda>i. \<not> bit x i) [0..<64])"
  show t: "trailing_zeros x \<le> j"
  proof (rule ccontr)
    assume "\<not> trailing_zeros x \<le> j"
    then have "j < ?t" by (simp add: trailing_zeros_def)
    then have "\<not> bit x ([0..<64] ! j)" using nth_mem [of j "takeWhile (\<lambda>i. \<not> bit x i) [0..<64]"]
      by (metis set_takeWhileD takeWhile_nth)
    then show False using assms j by simp
  qed
  show b: "trailing_zeros x < 64" using t j by simp
  then have "?t < length [0..<64]" by (simp add: trailing_zeros_def)
  then have "\<not> \<not> bit x ([0..<64] ! ?t)" by (rule nth_length_takeWhile)
  then show "bit x (trailing_zeros x)" using b by (simp add: trailing_zeros_def)
qed

lemma word_offset:
  assumes "start \<le> 64 * k + t" "64 * k + t < start + 256" "start < 256"
  shows "((k mod 4) * 64 + t + SLOTS - start) mod SLOTS = 64 * k + t - start"
proof -
  have "k = 4 * (k div 4) + k mod 4" by simp
  then have "64 * k + t + 256 - start = ((k mod 4) * 64 + t + 256 - start) + 256 * (k div 4)" using assms by linarith
  then have "((k mod 4) * 64 + t + 256 - start) mod 256 = (64 * k + t + 256 - start) mod 256" by (metis mod_mult_self2)
  also have "\<dots> = 64 * k + t - start"
  proof -
    define y where "y = 64 * k + t - start"
    have "64 * k + t + 256 - start = y + 256" "y < 256" using assms unfolding y_def by linarith+
    then show ?thesis unfolding y_def [symmetric] by simp
  qed
  finally show ?thesis by (simp add: SLOTS_def)
qed

lemma scan_words_least:
  assumes "bit (occ (k mod 4)) j" "k0 \<le> k" "k < k0 + n" "start \<le> 64 * k0" "64 * k + j < start + 256" "start < 256"
  shows "\<exists>a. scan_words occ start (- 1) [k0..<k0 + n] = Some a \<and> a \<le> 64 * k + j - start"
  using assms(2-4)
proof (induction n arbitrary: k0)
  case (Suc n)
  have u: "[k0..<k0 + Suc n] = k0 # [Suc k0..<Suc k0 + n]" by (simp add: upt_conv_Cons)
  show ?case
  proof (cases "occ (k0 mod 4) = 0")
    case True
    then have "k \<noteq> k0" using assms(1) by auto
    then show ?thesis using Suc.IH [of "Suc k0"] Suc.prems True unfolding u by simp
  next
    case False
    let ?t = "trailing_zeros (occ (k0 mod 4))"
    obtain i where "bit (occ (k0 mod 4)) i" using False by (metis bit_eqI bit_0_eq bot_apply bot_bool_def)
    then have t: "?t < 64" by (rule trailing_zeros_le)
    have le: "64 * k0 + ?t \<le> 64 * k + j"
    proof (cases "k = k0")
      case True then show ?thesis using assms(1) trailing_zeros_le(1) by auto
    next
      case False then show ?thesis using t Suc.prems(1) by linarith
    qed
    have "((k0 mod 4) * 64 + ?t + SLOTS - start) mod SLOTS = 64 * k0 + ?t - start"
      using le Suc.prems assms(5,6) by (intro word_offset) linarith+
    then show ?thesis using False le unfolding u by (simp add: Let_def)
  qed
qed simp

lemma first_occupied_least:
  assumes "bit (occ (s div 64)) (s mod 64)" "s < 256" "start < 256"
  shows "\<exists>a. first_occupied occ start = Some a \<and> a \<le> (s + 256 - start) mod 256"
proof -
  define d where "d = (s + 256 - start) mod 256"
  define k j q r where "k = (start + d) div 64" and "j = (start + d) mod 64" and "q = start div 64" and "r = start mod 64"
  let ?m = "push_bit r (- 1) :: u64"
  have "(start + d) mod 256 = (start + (s + 256 - start)) mod 256" unfolding d_def by (rule mod_add_right_eq)
  then have sd: "(start + d) mod 256 = s" using assms(2,3) by simp
  have kj: "64 * k + j = start + d" by (simp add: k_def j_def)
  have dl: "d < 256" by (simp add: d_def)
  have s6: "s = 64 * (k mod 4) + j" using sd mod_mult2_eq [of "start + d" 64 4] by (simp add: k_def j_def)
  have jl: "j < 64" by (simp add: j_def)
  have k4: "k mod 4 = s div 64" and j6: "j = s mod 64" using s6 jl by simp_all
  have "start div 64 \<le> (start + d) div 64" by (rule div_le_mono) simp
  moreover have "start + d < 64 * (start div 64 + 5)"
    using dl div_mult_mod_eq [of start 64] mod_less_divisor [of 64 start] by simp
  then have "(start + d) div 64 < start div 64 + 5" by (simp add: less_mult_imp_div_less mult.commute)
  ultimately have q: "q \<le> k" "k < q + 5" "q < 4" using assms(3) by (simp_all add: k_def q_def)
  have sq: "start = 64 * q + r" and rl: "r < 64" by (simp_all add: q_def r_def)
  have u: "[q..<q + 5] = q # [Suc q..<Suc q + 4]" by (simp add: upt_conv_Cons)
  have b: "bit (occ (k mod 4)) j" using assms(1) k4 j6 by simp
  show ?thesis
  proof (cases "occ (q mod 4) AND ?m = 0")
    case True
    have "k \<noteq> q"
    proof
      assume "k = q"
      then have "r \<le> j" using kj sq by linarith
      then have "bit (occ (q mod 4) AND ?m) j" using b \<open>k = q\<close> j6 by (simp add: bit_simps)
      then show False using True by simp
    qed
    then have kq: "Suc q \<le> k" "k < Suc q + 4" using q by simp_all
    have bd: "start \<le> 64 * Suc q" "64 * k + j < start + 256" using sq rl kj dl by simp_all
    have "\<exists>a. scan_words occ start (- 1) [Suc q..<Suc q + 4] = Some a \<and> a \<le> 64 * k + j - start"
      by (rule scan_words_least [of occ k j, OF b kq bd assms(3)])
    then show ?thesis using True u kj by (simp add: first_occupied_def q_def [symmetric] r_def [symmetric] d_def [symmetric])
  next
    case False
    let ?h = "occ (q mod 4) AND ?m"
    obtain i where i: "bit ?h i" using False by (metis bit_eqI bit_0_eq bot_apply bot_bool_def)
    note t = trailing_zeros_le [OF i]
    have ge: "r \<le> trailing_zeros ?h" using t(2,3) by (auto simp: bit_simps)
    have le: "64 * q + trailing_zeros ?h \<le> start + d"
    proof (cases "k = q")
      case True
      then have "r \<le> j" using kj sq by linarith
      then have "bit ?h j" using b True j6 by (simp add: bit_simps)
      then have "trailing_zeros ?h \<le> j" by (rule trailing_zeros_le)
      then show ?thesis using kj True by linarith
    next
      case False
      then show ?thesis using t(3) kj q(1) by linarith
    qed
    have "((q mod 4) * 64 + trailing_zeros ?h + SLOTS - start) mod SLOTS = 64 * q + trailing_zeros ?h - start"
      using le ge sq dl assms(3) by (intro word_offset) linarith+
    then show ?thesis using False le u
      by (simp add: first_occupied_def q_def [symmetric] r_def [symmetric] d_def [symmetric] Let_def)
  qed
qed

lemma mod_diff_nat:
  fixes x y n :: nat
  assumes "x \<le> y" "0 < n" shows "(y mod n + n - x mod n) mod n = (y - x) mod n"
proof -
  define z a b where "z = (y - x) mod n" and "a = x mod n" and "b = y mod n"
  have lt: "z < n" "a < n" using assms(2) by (simp_all add: z_def a_def)
  have "(z + a) mod n = ((y - x) + x) mod n" unfolding z_def a_def by (rule mod_add_eq)
  then have "(z + a) mod n = b" using assms(1) by (simp add: b_def)
  then have "b = z + a \<or> b + n = z + a" using lt by (cases "z + a < n") (auto simp: le_mod_geq)
  then have "b + n - a = z + n \<or> b + n - a = z" by auto
  then show ?thesis using lt(1) unfolding a_def [symmetric] b_def [symmetric] z_def [symmetric] by auto
qed

lemma shl_small: "x * 2 ^ n < u64_size \<Longrightarrow> shl x n = x * 2 ^ n"
  by (simp add: shl_def)

text \<open>What the scan of a level contributes is never later than a timer of that level.\<close>

lemma level_scan:
  assumes "wheel_inv w" "fmlookup (entries w) i = Some e"
  shows "\<exists>a. first_occupied (occupied w (en_level e)) (slot_for (current_tick w) (en_level e)) = Some a \<and>
    (window_at (en_level e) (current_tick w) + a) * 2 ^ (8 * en_level e) \<le> deadline_tick e"
proof -
  let ?l = "en_level e" and ?c = "current_tick w" and ?d = "deadline_tick e"
  have core: "wheel_core w {} (in_time ?c)" using assms(1) by (simp add: wheel_inv_def)
  then have e: "entry_ok e" "in_time ?c ?l ?d" using assms(2) by (auto simp: wheel_core_def)
  have "i \<in> buckets w ?l (en_slot e)" using core assms(2) by (auto simp: wheel_core_def bucket_ids_def)
  moreover have s: "en_slot e < 256" using e(1) by (simp add: entry_ok_def)
  ultimately have "bit (occupied w ?l (en_slot e div 64)) (en_slot e mod 64)"
    using core by (auto simp: wheel_core_def occ_ok_def)
  then obtain a where a: "first_occupied (occupied w ?l) (slot_for ?c ?l) = Some a"
    "a \<le> (en_slot e + 256 - slot_for ?c ?l) mod 256"
    using first_occupied_least [OF _ s slot_lt] by blast
  define x y where "x = window_at ?l ?c" and "y = window_at ?l ?d"
  have xy: "x < y" using e(2) by (simp add: in_time_def x_def y_def)
  have "en_slot e = y mod 256" "slot_for ?c ?l = x mod 256" using e(1) by (simp_all add: entry_ok_def slot_for_def x_def y_def)
  then have "a \<le> (y mod 256 + 256 - x mod 256) mod 256" using a(2) by simp
  also have "\<dots> = (y - x) mod 256" using xy by (intro mod_diff_nat) simp_all
  also have "\<dots> \<le> y - x" by simp
  finally have "(x + a) * 2 ^ (8 * ?l) \<le> y * 2 ^ (8 * ?l)" using xy by simp
  also have "\<dots> \<le> ?d" unfolding y_def by (simp add: div_times_less_eq_dividend)
  finally show ?thesis using a(1) by (auto simp: x_def)
qed

lemma first_occupied_lt: "first_occupied occ start = Some a \<Longrightarrow> a < 256"
proof -
  have "scan_words occ start m ks = Some a \<Longrightarrow> a < 256" for m ks
    by (induction occ start m ks rule: scan_words.induct) (auto simp: Let_def SLOTS_def split: if_splits)
  then show "first_occupied occ start = Some a \<Longrightarrow> a < 256" by (simp add: first_occupied_def)
qed

lemma next_window_mono: "(window_at l c + 1) * 2 ^ (8 * l) \<le> (window_at (l + k) c + 1) * 2 ^ (8 * (l + k))"
proof -
  have p: "(2::nat) ^ (8 * (l + k)) = 2 ^ (8 * l) * 2 ^ (8 * k)" by (simp add: power_add algebra_simps)
  have "window_at l c < (window_at (l + k) c + 1) * 2 ^ (8 * k)"
    unfolding p div_mult2_eq by (simp add: dividend_less_div_times)
  then have "window_at l c + 1 \<le> (window_at (l + k) c + 1) * 2 ^ (8 * k)" by simp
  then have "(window_at l c + 1) * 2 ^ (8 * l) \<le> (window_at (l + k) c + 1) * 2 ^ (8 * k) * 2 ^ (8 * l)"
    by (rule mult_le_mono1)
  then show ?thesis unfolding p by (simp only: mult.assoc mult.commute [of "2 ^ (8 * k)"])
qed

lemma level_numbers:
  assumes "current_tick w + 2 ^ 33 \<le> u64_max" "l < 4" "a \<le> 256"
  shows "shl (sat_add (window_at l (current_tick w)) a) (8 * l) = (window_at l (current_tick w) + a) * 2 ^ (8 * l)"
proof -
  let ?p = "2 ^ (8 * l) :: nat" and ?x = "window_at l (current_tick w)"
  have p: "?p \<le> 2 ^ 24" using assms(2) by (intro power_increasing) simp_all
  have "?x * ?p \<le> current_tick w" by (rule div_times_less_eq_dividend)
  moreover have "a * ?p \<le> 256 * 2 ^ 24" using assms(3) p by (rule mult_le_mono)
  ultimately have "?x * ?p + a * ?p \<le> current_tick w + 256 * 2 ^ 24" by (rule add_le_mono)
  then have le: "(?x + a) * ?p \<le> current_tick w + 2 ^ 32" unfolding add_mult_distrib by simp
  have "?x + a \<le> current_tick w + 256" using assms(3) by (intro add_le_mono div_le_dividend)
  also have "\<dots> \<le> u64_max" using assms(1) by simp
  finally have "?x + a \<le> u64_max" .
  moreover have "(?x + a) * ?p < u64_size" using le assms(1) by simp
  ultimately show ?thesis by (simp add: sat_add_def shl_small)
qed

lemma scan_levels_never_late:
  assumes "wheel_inv w" "current_tick w + 2 ^ 33 \<le> u64_max" "\<forall>l\<in>set ls. l < 4" "sorted ls"
    "\<forall>i e. fmlookup (entries w) i = Some e \<longrightarrow> en_level e \<in> set ls \<or> (\<exists>t. soonest = Some t \<and> t \<le> deadline_tick e)"
    "\<forall>t. soonest = Some t \<longrightarrow> current_tick w < t"
  shows "(\<forall>i e. fmlookup (entries w) i = Some e \<longrightarrow>
        (\<exists>t. scan_levels w soonest ls = Some t \<and> t \<le> deadline_tick e)) \<and>
    (\<forall>t. scan_levels w soonest ls = Some t \<longrightarrow> current_tick w < t)"
  using assms(3-)
proof (induction ls arbitrary: soonest)
  case Nil
  then show ?case by auto
next
  case (Cons l ls)
  let ?c = "current_tick w" and ?x = "window_at l (current_tick w)"
  have num: "shl (sat_add ?x a) (8 * l) = (?x + a) * 2 ^ (8 * l)" if "a \<le> 256" for a
    using assms(2) Cons.prems(1) that by (intro level_numbers) simp_all
  have later: "?c < deadline_tick e" "en_level e < 4" "in_time ?c (en_level e) (deadline_tick e)"
    if "fmlookup (entries w) i = Some e" for i e
  proof -
    show t: "in_time ?c (en_level e) (deadline_tick e)" and "en_level e < 4"
      using that assms(1) by (auto simp: wheel_inv_def wheel_core_def entry_ok_def)
    show "?c < deadline_tick e"
      using t div_le_mono [of "deadline_tick e" ?c "2 ^ (8 * en_level e)"] by (force simp: in_time_def)
  qed
  show ?case
  proof (cases "\<exists>t. soonest = Some t \<and> t \<le> shl (sat_add ?x 1) (8 * l)")
    case True
    then obtain t where t: "soonest = Some t" "t \<le> (?x + 1) * 2 ^ (8 * l)" using num [of 1] by auto
    have r: "scan_levels w soonest (l # ls) = soonest" using True by (auto simp: Let_def)
    have "t \<le> deadline_tick e" if e: "fmlookup (entries w) i = Some e" for i e
    proof (cases "en_level e \<in> set (l # ls)")
      case True
      then obtain k where k: "en_level e = l + k" using Cons.prems(2) by (metis le_iff_add list.set_cases order_refl set_ConsD sorted_simps(2))
      have "(?x + 1) * 2 ^ (8 * l) \<le> (window_at (l + k) ?c + 1) * 2 ^ (8 * (l + k))" by (rule next_window_mono)
      also have "\<dots> \<le> window_at (l + k) (deadline_tick e) * 2 ^ (8 * (l + k))"
        using later(3) [OF e] k by (intro mult_le_mono1) (simp add: in_time_def)
      also have "\<dots> \<le> deadline_tick e" by (rule div_times_less_eq_dividend)
      finally show ?thesis using t(2) by simp
    next
      case False
      then show ?thesis using Cons.prems(3) e t(1) by blast
    qed
    then show ?thesis using t(1) Cons.prems(4) unfolding r by blast
  next
    case False
    define s' where "s' = (case first_occupied (occupied w l) (slot_for ?c l) of None \<Rightarrow> soonest
      | Some a \<Rightarrow> Some (case soonest of Some x \<Rightarrow> min x (max (shl (sat_add ?x a) (8 * l)) (wadd ?c 1))
          | None \<Rightarrow> max (shl (sat_add ?x a) (8 * l)) (wadd ?c 1)))"
    have r: "scan_levels w soonest (l # ls) = scan_levels w s' ls"
      using False by (auto simp: Let_def s'_def split: option.split)
    have c1: "wadd ?c 1 = ?c + 1" using assms(2) by (simp add: wadd_def)
    have "en_level e \<in> set ls \<or> (\<exists>t. s' = Some t \<and> t \<le> deadline_tick e)" if e: "fmlookup (entries w) i = Some e" for i e
    proof (cases "en_level e = l")
      case True
      obtain a where a: "first_occupied (occupied w l) (slot_for ?c l) = Some a" "(?x + a) * 2 ^ (8 * l) \<le> deadline_tick e"
        using level_scan [OF assms(1) e] True by auto
      have "a \<le> 256" using first_occupied_lt [OF a(1)] by simp
      then have "max (shl (sat_add ?x a) (8 * l)) (wadd ?c 1) \<le> deadline_tick e"
        using num a(2) later(1) [OF e] c1 by simp
      then show ?thesis by (auto simp: s'_def a(1) min_def split: option.split)
    next
      case False
      then have "en_level e \<in> set ls \<or> (\<exists>t. soonest = Some t \<and> t \<le> deadline_tick e)" using Cons.prems(3) e by auto
      then show ?thesis by (auto simp: s'_def split: option.split)
    qed
    moreover have "?c < t" if "s' = Some t" for t
      using that Cons.prems(4) c1 by (auto simp: s'_def split: option.splits)
    ultimately show ?thesis unfolding r using Cons.prems(1,2) by (intro Cons.IH) auto
  qed
qed

end
