(* ===== verification/Timer_Service.thy ===== *)
theory Timer_Service
  imports Timer_Scan
begin

text \<open>
  The contract of a timer service as a locale, its interpretation by the wheel, the specification of sequences
  of calls, and the properties of the wheel the rest of the stack relies on.
\<close>

lemma set_due_values: "v \<in> set (due_values m t) \<longleftrightarrow> (\<exists>i d. fmlookup m i = Some (d, v) \<and> d \<le> t)"
proof -
  have "set (due_values m t) = (\<lambda>(d, i). snd (the (fmlookup m i))) ` due_set m t" by (simp add: due_values_def)
  also have "\<dots> = {v. \<exists>i d. fmlookup m i = Some (d, v) \<and> d \<le> t}"
    by (force simp: due_set_def image_iff)
  finally show ?thesis by simp
qed

section \<open>The contract of a timer service\<close>

text \<open>A service holds pending timers, each a deadline in ticks and a value, under identifiers.  Its clients
see time in milliseconds: \<open>tick_of\<close> is the tick an advance reaches and \<open>due_at\<close> the tick a deadline is
rounded to.\<close>

locale timer_service =
  fixes good :: "'s \<Rightarrow> bool"
    and pending :: "'s \<Rightarrow> (TimerId, nat \<times> 'v) fmap"
    and clock :: "'s \<Rightarrow> nat"
    and tick_of :: "'s \<Rightarrow> nat \<Rightarrow> nat"
    and due_at :: "'s \<Rightarrow> nat \<Rightarrow> nat"
    and accepts :: "'s \<Rightarrow> nat \<Rightarrow> bool"
    and sched :: "'s \<Rightarrow> nat \<Rightarrow> 'v \<Rightarrow> (TimerError, TimerId) res \<times> 's"
    and canc :: "'s \<Rightarrow> TimerId \<Rightarrow> 'v option \<times> 's"
    and adv :: "'s \<Rightarrow> nat \<Rightarrow> (TimerError, 'v list) res \<times> 's"
  assumes tick_mono: "good s \<Longrightarrow> x \<le> y \<Longrightarrow> y \<le> u64_max \<Longrightarrow> tick_of s x \<le> tick_of s y"
    and sched_law: "good s \<Longrightarrow> accepts s ms \<Longrightarrow> \<exists>i s'. sched s ms v = (Ok i, s') \<and> good s' \<and>
      fmlookup (pending s) i = None \<and> pending s' = fmupd i (due_at s ms, v) (pending s) \<and>
      clock s' = clock s \<and> tick_of s' = tick_of s"
    and canc_law: "good s \<Longrightarrow> \<exists>s'. canc s i = (map_option snd (fmlookup (pending s) i), s') \<and> good s' \<and>
      pending s' = fmdrop i (pending s) \<and> clock s' = clock s \<and> tick_of s' = tick_of s"
    and adv_law: "good s \<Longrightarrow> clock s \<le> now \<Longrightarrow> now \<le> u64_max \<Longrightarrow>
      \<exists>s'. adv s now = (Ok (due_values (pending s) (tick_of s now)), s') \<and> good s' \<and>
        pending s' = not_due (pending s) (tick_of s now) \<and> clock s' \<le> now \<and> tick_of s' = tick_of s"
begin

lemma advance_split:
  assumes "good s" "clock s \<le> now" "now \<le> later" "later \<le> u64_max"
  obtains vs vs' where "fst (adv s now) = Ok vs" "fst (adv (snd (adv s now)) later) = Ok vs'"
    "fst (adv s later) = Ok (vs @ vs')" "pending (snd (adv (snd (adv s now)) later)) = pending (snd (adv s later))"
proof -
  obtain s1 where 1: "adv s now = (Ok (due_values (pending s) (tick_of s now)), s1)" "good s1"
    "pending s1 = not_due (pending s) (tick_of s now)" "clock s1 \<le> now" "tick_of s1 = tick_of s"
    using adv_law [of s now] assms by auto
  have 2: "\<exists>s'. adv s1 later = (Ok (due_values (pending s1) (tick_of s1 later)), s') \<and> good s' \<and>
      pending s' = not_due (pending s1) (tick_of s1 later) \<and> clock s' \<le> later \<and> tick_of s' = tick_of s1"
    by (rule adv_law [OF 1(2) order_trans [OF 1(4) assms(3)] assms(4)])
  have 3: "\<exists>s'. adv s later = (Ok (due_values (pending s) (tick_of s later)), s') \<and> good s' \<and>
      pending s' = not_due (pending s) (tick_of s later) \<and> clock s' \<le> later \<and> tick_of s' = tick_of s"
    by (rule adv_law [OF assms(1) order_trans [OF assms(2,3)] assms(4)])
  have m: "tick_of s now \<le> tick_of s later" using assms by (intro tick_mono)
  show thesis
    by (rule that [of "due_values (pending s) (tick_of s now)"
        "due_values (not_due (pending s) (tick_of s now)) (tick_of s later)"])
      (use 1 2 3 due_values_split [OF m, of "pending s"] in auto)
qed

lemma fires_when_due:
  assumes "good s" "accepts s ms" "clock s \<le> now" "now \<le> u64_max"
    "\<forall>i d x. fmlookup (pending s) i = Some (d, x) \<longrightarrow> x \<noteq> v"
  obtains i vs where "fst (sched s ms v) = Ok i" "fst (adv (snd (sched s ms v)) now) = Ok vs"
    "v \<in> set vs \<longleftrightarrow> due_at s ms \<le> tick_of s now"
    "fmlookup (pending (snd (adv (snd (sched s ms v)) now))) i =
      (if due_at s ms \<le> tick_of s now then None else Some (due_at s ms, v))"
proof -
  obtain i s1 where 1: "sched s ms v = (Ok i, s1)" "good s1" "fmlookup (pending s) i = None"
    "pending s1 = fmupd i (due_at s ms, v) (pending s)" "clock s1 = clock s" "tick_of s1 = tick_of s"
    using sched_law assms(1,2) by blast
  obtain s2 where 2: "adv s1 now = (Ok (due_values (pending s1) (tick_of s now)), s2)"
    "pending s2 = not_due (pending s1) (tick_of s now)"
    using adv_law [of s1 now] 1 assms(3,4) by auto
  have "v \<in> set (due_values (pending s1) (tick_of s now)) \<longleftrightarrow> due_at s ms \<le> tick_of s now"
    using assms(5) 1(3) by (auto simp: set_due_values 1(4) split: if_splits)
  then show thesis
    by (intro that [of i "due_values (pending s1) (tick_of s now)"]) (simp_all add: 1 2 lookup_not_due)
qed

lemma cancelled_never_fires:
  assumes "good s" "fmlookup (pending s) i = Some (d, v)" "clock s \<le> now" "now \<le> u64_max"
    "\<forall>j d x. j \<noteq> i \<longrightarrow> fmlookup (pending s) j = Some (d, x) \<longrightarrow> x \<noteq> v"
  obtains vs where "fst (canc s i) = Some v" "fst (adv (snd (canc s i)) now) = Ok vs" "v \<notin> set vs"
proof -
  obtain s1 where 1: "canc s i = (Some v, s1)" "good s1" "pending s1 = fmdrop i (pending s)" "clock s1 = clock s"
    "tick_of s1 = tick_of s"
    using canc_law [OF assms(1), of i] assms(2) by auto
  obtain s2 where 2: "adv s1 now = (Ok (due_values (pending s1) (tick_of s now)), s2)"
    using adv_law [of s1 now] 1 assms(3,4) by auto
  have "v \<notin> set (due_values (pending s1) (tick_of s now))"
    using assms(5) by (auto simp: set_due_values 1(3) split: if_splits)
  then show thesis by (intro that) (simp_all add: 1 2)
qed

end

section \<open>The wheel is a timer service\<close>

text \<open>With a tick of at least two milliseconds the clock never reaches the last representable tick, so
\<open>schedule\<close> always finds a later one.\<close>

definition wheel_good :: "'v TimerWheel \<Rightarrow> bool" where
  "wheel_good w \<longleftrightarrow> wheel_inv w \<and> clock_ok w \<and> 2 \<le> tick_ms w"

definition wheel_accepts :: "'v TimerWheel \<Rightarrow> nat \<Rightarrow> bool" where
  "wheel_accepts w deadline \<longleftrightarrow> next_id w < u64_max \<and> deadline \<le> u64_max \<and>
     deadline_of w deadline < current_tick w + 2 ^ 32"

lemma wheel_good_clock: "wheel_good w \<Longrightarrow> current_tick w < u64_max"
proof -
  assume w: "wheel_good w"
  then have t: "2 \<le> tick_ms w" and c: "current_tick w \<le> div_ceil u64_max (tick_ms w)"
    by (simp_all add: wheel_good_def clock_ok_def)
  have "(2 ^ 63 :: nat) * 2 \<le> 2 ^ 63 * tick_ms w" using t by (intro mult_le_mono) simp_all
  then have "u64_max \<le> 2 ^ 63 * tick_ms w" by simp
  then have "div_ceil u64_max (tick_ms w) \<le> 2 ^ 63" using t by (simp add: div_ceil_le_iff mult.commute)
  with c show "current_tick w < u64_max" by simp
qed

lemma target_mono: "0 < tick_ms w \<Longrightarrow> x \<le> y \<Longrightarrow> y \<le> u64_max \<Longrightarrow> target_tick w x \<le> target_tick w y"
proof -
  assume a: "0 < tick_ms w" "x \<le> y" "y \<le> u64_max"
  show ?thesis
  proof (cases "y = u64_max")
    case True then show ?thesis using target_clock [OF a(1), of x] a by (simp add: target_tick_def)
  next
    case False
    then have "x \<noteq> u64_max" using a by auto
    then show ?thesis using False div_le_mono [OF a(2)] unfolding target_tick_def by auto
  qed
qed

lemma now_after_advance:
  "0 < tick_ms w \<Longrightarrow> now \<le> u64_max \<Longrightarrow> sat_mul (target_tick w now) (tick_ms w) \<le> now"
  by (auto simp: target_tick_def sat_mul_def min_def intro: order_trans [OF div_times_less_eq_dividend])

interpretation wheel: timer_service wheel_good timers now_ms target_tick deadline_of wheel_accepts schedule cancel advance_to
proof
  show "target_tick w x \<le> target_tick w y" if "wheel_good w" "x \<le> y" "y \<le> u64_max" for w :: "'v TimerWheel" and x y
    using that by (intro target_mono) (simp_all add: wheel_good_def)
next
  fix w :: "'v TimerWheel" and ms v
  assume w: "wheel_good w" and a: "wheel_accepts w ms"
  have 1: "wheel_inv w" "current_tick w < u64_max" "next_id w < u64_max" "ms \<le> u64_max"
    "deadline_of w ms < current_tick w + 2 ^ 32"
    using w a wheel_good_clock [OF w] by (simp_all add: wheel_good_def wheel_accepts_def)
  have "fmlookup (timers w) (next_id w) = None"
    using wheel_inv_timers [OF 1(1)] by (cases "fmlookup (timers w) (next_id w)") auto
  then show "\<exists>i w'. schedule w ms v = (Ok i, w') \<and> wheel_good w' \<and> fmlookup (timers w) i = None \<and>
      timers w' = fmupd i (deadline_of w ms, v) (timers w) \<and> now_ms w' = now_ms w \<and> target_tick w' = target_tick w"
    using schedule_eq [OF 1, of v] w
    by (intro exI [of _ "next_id w"] exI [of _ "snd (schedule w ms v)"])
      (auto simp: wheel_good_def clock_ok_def now_ms_def target_tick_def fun_eq_iff prod_eq_iff)
next
  fix w :: "'v TimerWheel" and i
  assume w: "wheel_good w"
  then have i: "wheel_inv w" by (simp add: wheel_good_def)
  show "\<exists>w'. cancel w i = (map_option snd (fmlookup (timers w) i), w') \<and> wheel_good w' \<and>
      timers w' = fmdrop i (timers w) \<and> now_ms w' = now_ms w \<and> target_tick w' = target_tick w"
    using cancel_eq [OF i, of i] w
    by (intro exI [of _ "snd (cancel w i)"])
      (auto simp: wheel_good_def clock_ok_def now_ms_def target_tick_def fun_eq_iff prod_eq_iff wheel_frame_def)
next
  fix w :: "'v TimerWheel" and now
  assume w: "wheel_good w" and n: "now_ms w \<le> now" "now \<le> u64_max"
  then have i: "wheel_inv w" "clock_ok w" "0 < tick_ms w" by (simp_all add: wheel_good_def)
  show "\<exists>w'. advance_to w now = (Ok (due_values (timers w) (target_tick w now)), w') \<and> wheel_good w' \<and>
      timers w' = not_due (timers w) (target_tick w now) \<and> now_ms w' \<le> now \<and> target_tick w' = target_tick w"
    using advance_to_eq [OF i(1,2) n] w now_after_advance [OF i(3) n(2)]
    by (intro exI [of _ "snd (advance_to w now)"])
      (auto simp: wheel_good_def now_ms_def target_tick_def fun_eq_iff prod_eq_iff wheel_frame_def)
qed

section \<open>Sequences of operations\<close>

text \<open>The service as a specification: a clock and a finite map of timers.\<close>

datatype 'v timer_op = OpSchedule nat 'v | OpCancel TimerId | OpAdvance nat

datatype 'v timer_out = Scheduled TimerId | Cancelled "'v option" | Expired "'v list" | Refused TimerError

record 'v timer_spec =
  ts_tick :: nat
  ts_now :: nat
  ts_next :: TimerId
  ts_timers :: "(TimerId, nat \<times> 'v) fmap"

definition timer_abs :: "'v TimerWheel \<Rightarrow> 'v timer_spec" where
  "timer_abs w = \<lparr>ts_tick = tick_ms w, ts_now = current_tick w, ts_next = next_id w, ts_timers = timers w\<rparr>"

fun spec_do :: "'v timer_spec \<Rightarrow> 'v timer_op \<Rightarrow> 'v timer_out \<times> 'v timer_spec" where
  "spec_do s (OpSchedule ms v) =
     (let d = max (div_ceil ms (ts_tick s)) (ts_now s + 1) in
      if ts_now s + 2 ^ 32 \<le> d then (Refused DeadlineOutOfRange, s)
      else (Scheduled (ts_next s), s\<lparr>ts_next := ts_next s + 1, ts_timers := fmupd (ts_next s) (d, v) (ts_timers s)\<rparr>))"
| "spec_do s (OpCancel i) =
     (Cancelled (map_option snd (fmlookup (ts_timers s) i)), s\<lparr>ts_timers := fmdrop i (ts_timers s)\<rparr>)"
| "spec_do s (OpAdvance now) =
     (let cur = sat_mul (ts_now s) (ts_tick s) in
      if now < cur then (Refused (ClockWentBackwards cur now), s)
      else let t = (if now = u64_max then div_ceil now (ts_tick s) else now div ts_tick s) in
        (Expired (due_values (ts_timers s) t), s\<lparr>ts_now := t, ts_timers := not_due (ts_timers s) t\<rparr>))"

definition refused :: "('a \<Rightarrow> 'v timer_out) \<Rightarrow> (TimerError, 'a) res \<Rightarrow> 'v timer_out option" where
  "refused f r = (case r of Ok x \<Rightarrow> Some (f x) | Err e \<Rightarrow> Some (Refused e) | Panic \<Rightarrow> None)"

fun wheel_do :: "'v TimerWheel \<Rightarrow> 'v timer_op \<Rightarrow> 'v timer_out option \<times> 'v TimerWheel" where
  "wheel_do w (OpSchedule ms v) = map_prod (refused Scheduled) id (schedule w ms v)"
| "wheel_do w (OpCancel i) = map_prod (Some \<circ> Cancelled) id (cancel w i)"
| "wheel_do w (OpAdvance now) = map_prod (refused Expired) id (advance_to w now)"

fun run_ops :: "('s \<Rightarrow> 'v timer_op \<Rightarrow> 'o \<times> 's) \<Rightarrow> 's \<Rightarrow> 'v timer_op list \<Rightarrow> 'o list \<times> 's" where
  "run_ops f s [] = ([], s)"
| "run_ops f s (p # ps) = (let (x, s1) = f s p; (xs, s2) = run_ops f s1 ps in (x # xs, s2))"

fun op_time :: "'v timer_op \<Rightarrow> nat" where
  "op_time (OpSchedule ms v) = ms"
| "op_time (OpCancel i) = 0"
| "op_time (OpAdvance now) = now"

lemma wheel_do_refines:
  assumes "wheel_good w" "next_id w < u64_max" "op_time p \<le> u64_max"
  shows "fst (wheel_do w p) = Some (fst (spec_do (timer_abs w) p))"
    "timer_abs (snd (wheel_do w p)) = snd (spec_do (timer_abs w) p)" "wheel_good (snd (wheel_do w p))"
    "next_id (snd (wheel_do w p)) \<le> next_id w + 1"
proof -
  have i: "wheel_inv w" "clock_ok w" and c: "current_tick w < u64_max"
    using assms(1) wheel_good_clock by (auto simp: wheel_good_def)
  have "fst (wheel_do w p) = Some (fst (spec_do (timer_abs w) p)) \<and>
    timer_abs (snd (wheel_do w p)) = snd (spec_do (timer_abs w) p) \<and> wheel_good (snd (wheel_do w p)) \<and>
    next_id (snd (wheel_do w p)) \<le> next_id w + 1"
  proof (cases p)
    case (OpSchedule ms v)
    have d: "max (div_ceil ms (tick_ms w)) (current_tick w + 1) = deadline_of w ms" by (simp add: deadline_of_def)
    show ?thesis
    proof (cases "deadline_of w ms < current_tick w + 2 ^ 32")
      case True
      have ms: "ms \<le> u64_max" using assms(3) OpSchedule by simp
      show ?thesis using schedule_eq [OF i(1) c assms(2) ms True, of v] True assms(1)
        by (auto simp: OpSchedule refused_def timer_abs_def Let_def d [simplified] wheel_good_def clock_ok_def)
    next
      case False
      then show ?thesis using schedule_out_of_range [OF c, of ms v] assms(1)
        by (simp add: OpSchedule refused_def timer_abs_def Let_def d [simplified])
    qed
  next
    case (OpCancel j)
    show ?thesis using cancel_eq [OF i(1), of j] assms(1)
      by (auto simp: OpCancel timer_abs_def wheel_good_def clock_ok_def wheel_frame_def)
  next
    case (OpAdvance now)
    show ?thesis
    proof (cases "now < now_ms w")
      case True
      then show ?thesis using assms(1) by (simp add: OpAdvance advance_to_def refused_def timer_abs_def now_ms_def Let_def)
    next
      case False
      have n: "now_ms w \<le> now" "now \<le> u64_max" using False assms(3) OpAdvance by simp_all
      have t: "target_tick w now = (if now = u64_max then div_ceil now (tick_ms w) else now div tick_ms w)"
        by (simp only: target_tick_def)
      show ?thesis using advance_to_eq [OF i n] False assms(1)
        unfolding OpAdvance wheel_do.simps spec_do.simps timer_abs_def timer_spec.simps Let_def t [symmetric]
          now_ms_def [symmetric]
        by (simp add: refused_def wheel_good_def wheel_frame_def)
    qed
  qed
  then show "fst (wheel_do w p) = Some (fst (spec_do (timer_abs w) p))"
    "timer_abs (snd (wheel_do w p)) = snd (spec_do (timer_abs w) p)" "wheel_good (snd (wheel_do w p))"
    "next_id (snd (wheel_do w p)) \<le> next_id w + 1" by simp_all
qed

lemma run_refines:
  assumes "wheel_good w" "next_id w + length ops \<le> u64_max" "\<forall>p\<in>set ops. op_time p \<le> u64_max"
  shows "fst (run_ops wheel_do w ops) = map Some (fst (run_ops spec_do (timer_abs w) ops)) \<and>
    timer_abs (snd (run_ops wheel_do w ops)) = snd (run_ops spec_do (timer_abs w) ops) \<and>
    wheel_good (snd (run_ops wheel_do w ops))"
  using assms
proof (induction ops arbitrary: w)
  case (Cons p ops)
  have "next_id w < u64_max" "op_time p \<le> u64_max" using Cons.prems by auto
  note s = wheel_do_refines [OF Cons.prems(1) this]
  have "next_id (snd (wheel_do w p)) + length ops \<le> u64_max" using s(4) Cons.prems(2) by simp
  then show ?case using Cons.IH [OF s(3)] Cons.prems(3) s(1,2) by (simp add: split_beta Let_def)
qed simp

lemma wheel_new_good:
  assumes "2 \<le> tick" "now \<le> u64_max"
  obtains w :: "'v TimerWheel" where "wheel_new tick now = Ok w" "wheel_good w" "next_id w = 0" "current_tick w = now div tick"
    "tick_ms w = tick" "timers w = fmempty"
proof -
  define w :: "'v TimerWheel" where "w = \<lparr>tick_ms = tick, current_tick = now div tick, next_id = 0,
      buckets = (\<lambda>_ _. {}), occupied = (\<lambda>_ _. 0), entries = fmempty\<rparr>"
  have "wheel_inv w" using assms(1)
    by (simp add: w_def wheel_inv_def wheel_core_def occ_ok_def bucket_ids_def)
  moreover have "clock_ok w" using target_clock [of w now] assms div_le_mono [OF assms(2), of tick]
    by (simp add: w_def clock_ok_def target_tick_def div_ceil_def)
  ultimately have "wheel_good w" using assms(1) by (simp add: wheel_good_def w_def)
  moreover have "timers w = fmempty" by (rule fmap_ext) (simp add: lookup_timers w_def)
  ultimately show thesis using assms(1) by (intro that [of w]) (simp_all add: wheel_new_def w_def)
qed

text \<open>A wheel with one timer, the input of the examples below.\<close>

definition empty_wheel :: "nat TimerWheel" where
  "empty_wheel = \<lparr>tick_ms = 10, current_tick = 2, next_id = 0, buckets = (\<lambda>_ _. {}), occupied = (\<lambda>_ _. 0),
     entries = fmempty\<rparr>"

definition sample_wheel :: "nat TimerWheel" where
  "sample_wheel = snd (schedule empty_wheel 41 7)"

lemma sample_facts:
  "wheel_good sample_wheel" "timers sample_wheel = fmupd 0 (5, 7) fmempty" "current_tick sample_wheel = 2"
  "tick_ms sample_wheel = 10" "next_id sample_wheel = 1"
proof -
  have e: "wheel_inv empty_wheel" "clock_ok empty_wheel" "tick_ms empty_wheel = 10" "current_tick empty_wheel = 2"
    "next_id empty_wheel = 0" "deadline_of empty_wheel 41 = 5"
    by (simp_all add: empty_wheel_def wheel_inv_def wheel_core_def occ_ok_def bucket_ids_def clock_ok_def div_ceil_def
        deadline_of_def)
  have "timers empty_wheel = fmempty" by (rule fmap_ext) (simp add: lookup_timers empty_wheel_def)
  then show "wheel_good sample_wheel" "timers sample_wheel = fmupd 0 (5, 7) fmempty" "current_tick sample_wheel = 2"
    "tick_ms sample_wheel = 10" "next_id sample_wheel = 1"
    using schedule_eq [of empty_wheel 41 7] e
    by (simp_all add: sample_wheel_def wheel_good_def clock_ok_def)
qed

section \<open>Properties\<close>

text \<open>C17: a timer wheel created with a tick of at least two milliseconds answers every sequence of \<open>schedule\<close>,
\<open>cancel\<close> and \<open>advance_to\<close> calls exactly as the specification: the same identifiers, the same cancelled
values, the same errors, and on every advance the values of all timers due by then, in the order of their
deadlines and then of their identifiers, whether the wheel ticks through its buckets or rebuilds them after a long jump.
No call panics.\<close>

theorem timer_wheel_refines:
  assumes "2 \<le> tick" "now \<le> u64_max" "length ops \<le> u64_max" "\<forall>p\<in>set ops. op_time p \<le> u64_max"
    "wheel_new tick now = (Ok w :: (unit, 'v TimerWheel) res)"
  shows "fst (run_ops wheel_do w ops) = map Some (fst (run_ops spec_do
      \<lparr>ts_tick = tick, ts_now = now div tick, ts_next = 0, ts_timers = fmempty\<rparr> ops))"
proof -
  obtain u :: "'v TimerWheel" where u: "wheel_new tick now = (Ok u :: (unit, 'v TimerWheel) res)" "wheel_good u"
    "next_id u = 0" "current_tick u = now div tick" "tick_ms u = tick" "timers u = fmempty"
    using assms(1,2) by (rule wheel_new_good)
  have "w = u" using u(1) assms(5) by simp
  moreover have "next_id u + length ops \<le> u64_max" using assms(3) u(3) by simp
  ultimately show ?thesis using run_refines [OF u(2) _ assms(4)] u(3-) by (simp add: timer_abs_def)
qed

lemma timer_wheel_refines_witness:
  "wheel_new 10 25 = (Ok \<lparr>tick_ms = 10, current_tick = 2, next_id = 0, buckets = (\<lambda>_ _. {}), occupied = (\<lambda>_ _. 0),
      entries = fmempty\<rparr> :: (unit, nat TimerWheel) res) \<and>
   fst (run_ops wheel_do \<lparr>tick_ms = 10, current_tick = 2, next_id = 0, buckets = (\<lambda>_ _. {}), occupied = (\<lambda>_ _. 0),
      entries = fmempty\<rparr> [OpSchedule 41 (7::nat), OpSchedule 900000 8, OpAdvance 50, OpCancel 1, OpAdvance 0]) =
    map Some (fst (run_ops spec_do \<lparr>ts_tick = 10, ts_now = 2, ts_next = 0, ts_timers = fmempty\<rparr>
      [OpSchedule 41 7, OpSchedule 900000 8, OpAdvance 50, OpCancel 1, OpAdvance 0]))"
proof -
  let ?w = "\<lparr>tick_ms = 10, current_tick = 2, next_id = 0, buckets = (\<lambda>_ _. {}), occupied = (\<lambda>_ _. 0),
      entries = fmempty\<rparr> :: nat TimerWheel"
  have w: "wheel_new 10 25 = (Ok ?w :: (unit, nat TimerWheel) res)" by (simp add: wheel_new_def)
  then show ?thesis
    using timer_wheel_refines [of 10 25 "[OpSchedule 41 (7::nat), OpSchedule 900000 8, OpAdvance 50, OpCancel 1, OpAdvance 0]" ?w]
    by simp
qed

text \<open>C18: a timer never fires early and is at most one tick late: after \<open>schedule\<close>, an advance returns the
value only if the deadline has passed, and it does return it once the deadline, rounded up to a tick, has passed.\<close>

theorem timer_fires_on_time:
  assumes "wheel_good w" "wheel_accepts w deadline" "now_ms w \<le> now" "now < u64_max"
    "\<forall>i d x. fmlookup (timers w) i = Some (d, x) \<longrightarrow> x \<noteq> v"
  shows "\<exists>i vs. fst (schedule w deadline v) = Ok i \<and> fst (advance_to (snd (schedule w deadline v)) now) = Ok vs \<and>
    (v \<in> set vs \<longrightarrow> deadline \<le> now) \<and>
    (max deadline (now_ms w + 1) + (tick_ms w - 1) \<le> now \<longrightarrow> v \<in> set vs) \<and>
    (v \<in> set vs \<longleftrightarrow> i |\<notin>| fmdom (timers (snd (advance_to (snd (schedule w deadline v)) now))))"
proof -
  have t: "0 < tick_ms w" using assms(1) by (simp add: wheel_good_def)
  have n: "now \<le> u64_max" using assms(4) by simp
  obtain i vs where f: "fst (schedule w deadline v) = Ok i" "fst (advance_to (snd (schedule w deadline v)) now) = Ok vs"
    "v \<in> set vs \<longleftrightarrow> deadline_of w deadline \<le> target_tick w now"
    "fmlookup (timers (snd (advance_to (snd (schedule w deadline v)) now))) i =
      (if deadline_of w deadline \<le> target_tick w now then None else Some (deadline_of w deadline, v))"
    using wheel.fires_when_due [OF assms(1-3) n assms(5)] by metis
  have tt: "target_tick w now = now div tick_ms w" using assms(4) unfolding target_tick_def by auto
  have c: "now_ms w = current_tick w * tick_ms w" using assms(3,4) by (auto simp: now_ms_def sat_mul_def min_def split: if_splits)
  define q where "q = now div tick_ms w * tick_ms w"
  have "deadline_of w deadline \<le> now div tick_ms w \<longleftrightarrow> deadline \<le> q \<and> (current_tick w + 1) * tick_ms w \<le> now"
    using div_ceil_le_iff [OF t, of deadline "now div tick_ms w"]
      less_eq_div_iff_mult_less_eq [OF t, of "current_tick w + 1" now]
    unfolding deadline_of_def max.bounded_iff q_def by blast
  moreover have "q \<le> now" "now < q + tick_ms w"
    using dividend_less_div_times [OF t, of now] by (simp_all add: add.commute q_def)
  ultimately have "(v \<in> set vs \<longrightarrow> deadline \<le> now) \<and> (max deadline (now_ms w + 1) + (tick_ms w - 1) \<le> now \<longrightarrow> v \<in> set vs)"
    using f(3) t c unfolding tt by auto
  then show ?thesis using f by (auto simp: fmlookup_dom_iff)
qed

lemma timer_fires_on_time_witness:
  "\<exists>i vs. fst (schedule sample_wheel 63 8) = Ok i \<and> fst (advance_to (snd (schedule sample_wheel 63 8)) 72) = Ok vs \<and>
    8 \<in> set vs \<and> i |\<notin>| fmdom (timers (snd (advance_to (snd (schedule sample_wheel 63 8)) 72)))"
proof -
  have "now_ms sample_wheel = 20" by (simp add: now_ms_def sat_mul_def sample_facts)
  moreover have p: "\<forall>i d x. fmlookup (timers sample_wheel) i = Some (d, x) \<longrightarrow> x \<noteq> 8"
    by (auto simp: sample_facts split: if_splits)
  ultimately show ?thesis
    using timer_fires_on_time [of sample_wheel 63 72 8] p
    by (fastforce simp: sample_facts(1,3-) wheel_accepts_def deadline_of_def div_ceil_def)
qed

text \<open>C19: advancing the clock in two steps returns the values that advancing it at once would, in the same
order, and leaves the same timers pending.\<close>

theorem timer_advance_split:
  assumes "wheel_good w" "now_ms w \<le> now" "now \<le> later" "later \<le> u64_max"
  shows "\<exists>vs vs'. fst (advance_to w now) = Ok vs \<and> fst (advance_to (snd (advance_to w now)) later) = Ok vs' \<and>
    fst (advance_to w later) = Ok (vs @ vs') \<and>
    timers (snd (advance_to (snd (advance_to w now)) later)) = timers (snd (advance_to w later))"
  using wheel.advance_split [OF assms] by metis

lemma timer_advance_split_witness:
  "\<exists>vs vs'. fst (advance_to sample_wheel 30) = Ok vs \<and> fst (advance_to (snd (advance_to sample_wheel 30)) 1000000) = Ok vs' \<and>
    fst (advance_to sample_wheel 1000000) = Ok (vs @ vs')"
proof -
  have "now_ms sample_wheel = 20" by (simp add: now_ms_def sat_mul_def sample_facts)
  then show ?thesis using timer_advance_split [of sample_wheel 30 1000000] by (auto simp: sample_facts)
qed

text \<open>C20: the time reported as the next deadline is never later than any pending timer and always ahead of the
clock, and it is reported exactly when a timer is pending, so a loop that sleeps until then
misses no timer and makes progress.\<close>

theorem timer_next_deadline:
  assumes "wheel_good w" "current_tick w + 2 ^ 33 \<le> u64_max"
  shows "(next_deadline_ms w = None \<longleftrightarrow> timers w = fmempty) \<and>
    (\<forall>n. next_deadline_ms w = Some n \<longrightarrow> (\<exists>t. n = sat_mul t (tick_ms w) \<and> current_tick w < t \<and>
      (\<forall>i d v. fmlookup (timers w) i = Some (d, v) \<longrightarrow> t \<le> d)))"
proof -
  have i: "wheel_inv w" using assms(1) by (simp add: wheel_good_def)
  have lv: "en_level e \<in> set [0..<LEVELS]" if "fmlookup (entries w) j = Some e" for j e
    using that i by (auto simp: wheel_inv_def wheel_core_def entry_ok_def LEVELS_def)
  have "\<forall>l\<in>set [0..<LEVELS]. l < 4" "sorted [0..<LEVELS]" by (simp_all add: LEVELS_def)
  then have s: "(\<forall>j e. fmlookup (entries w) j = Some e \<longrightarrow>
        (\<exists>t. scan_levels w None [0..<LEVELS] = Some t \<and> t \<le> deadline_tick e)) \<and>
      (\<forall>t. scan_levels w None [0..<LEVELS] = Some t \<longrightarrow> current_tick w < t)"
    using lv by (intro scan_levels_never_late [OF i assms(2)]) blast+
  have e: "fmdom (entries w) = {||} \<longleftrightarrow> timers w = fmempty"
    by (metis fmdom_empty fmdom_map timers_def fmrestrict_fset_dom fmrestrict_fset_null)
  show ?thesis
  proof (cases "timers w = fmempty")
    case True then show ?thesis using e by (simp add: next_deadline_ms_def)
  next
    case False
    then obtain j x where "fmlookup (entries w) j = Some x" using e by (metis fmap_ext fmdom_empty fmempty_lookup not_Some_eq)
    then obtain t where t: "scan_levels w None [0..<LEVELS] = Some t" using s by blast
    then have "current_tick w < t" using s by blast
    moreover have "t \<le> d" if "fmlookup (timers w) i = Some (d, v)" for i d v
    proof -
      obtain y where "fmlookup (entries w) i = Some y" "deadline_tick y = d"
        using \<open>fmlookup (timers w) i = Some (d, v)\<close> by (auto simp: lookup_timers)
      then show ?thesis using s t by force
    qed
    ultimately show ?thesis using False e t by (auto simp: next_deadline_ms_def)
  qed
qed

lemma timer_next_deadline_witness:
  "\<exists>n t. next_deadline_ms sample_wheel = Some n \<and> n = sat_mul t 10 \<and> 2 < t \<and> t \<le> 5"
proof -
  have "(next_deadline_ms sample_wheel = None \<longleftrightarrow> timers sample_wheel = fmempty) \<and>
    (\<forall>n. next_deadline_ms sample_wheel = Some n \<longrightarrow> (\<exists>t. n = sat_mul t (tick_ms sample_wheel) \<and> current_tick sample_wheel < t \<and>
      (\<forall>i d v. fmlookup (timers sample_wheel) i = Some (d, v) \<longrightarrow> t \<le> d)))"
    by (rule timer_next_deadline) (simp_all add: sample_facts)
  moreover have "fmlookup (timers sample_wheel) 0 = Some (5, 7)" by (simp add: sample_facts)
  ultimately show ?thesis unfolding sample_facts(3,4) by (metis fmempty_lookup not_Some_eq)
qed

end
