(* ===== verification/Budget.thy ===== *)
theory Budget
  imports Prelude "HOL-Library.Multiset"
begin

text \<open>
  The resource ledger of \<^verbatim>\<open>buffer/budget.rs\<close>: the budgets and their validation, the counters of the
  ledger, acquisition and release of leases, and the pressure levels.  This theory holds the
  operations run without interference; \<^verbatim>\<open>Budget_Threads\<close> has the interleaved ones.
\<close>

section \<open>Budgets\<close>

record ResourceBudget =
  total_bytes :: nat
  metadata_bytes :: nat
  tcp_payload_bytes :: nat
  packet_bytes :: nat
  control_packet_bytes :: nat
  fragment_bytes :: nat
  max_tcp_flows :: nat
  max_syn_received :: nat
  max_accept_queue :: nat
  max_udp_flows :: nat
  max_fragments :: nat
  max_time_wait :: nat
  max_pmtu_entries :: nat

datatype ResourceKind = MetadataBytes | TcpPayloadBytes | PacketBytes | ControlPacketBytes | FragmentBytes
  | TcpFlows | SynReceived | AcceptQueue | UdpFlows | Fragments | TimeWait | PmtuEntries

datatype BudgetError = Invalid string | Exhausted ResourceKind nat nat

definition validate :: "ResourceBudget \<Rightarrow> (BudgetError, ResourceBudget) res" where
  "validate b =
     and_then (ok_or (Option.bind (Option.bind (Option.bind (checked_add (metadata_bytes b) (tcp_payload_bytes b))
                (\<lambda>v. checked_add v (packet_bytes b))) (\<lambda>v. checked_add v (control_packet_bytes b)))
                (\<lambda>v. checked_add v (fragment_bytes b))) (Invalid ''byte pool sum overflows usize'')) (\<lambda>pools.
     if total_bytes b = 0 \<or> total_bytes b < pools
     then Err (Invalid ''byte pools must fit within a non-zero total_bytes'')
     else if max_tcp_flows b = 0 \<or> max_udp_flows b = 0 then Err (Invalid ''flow limits must be non-zero'')
     else if max_tcp_flows b < max_syn_received b \<or> max_tcp_flows b < max_accept_queue b
     then Err (Invalid ''TCP sub-state limits must not exceed max_tcp_flows'')
     else if max_fragments b = 0 \<or> max_time_wait b = 0 \<or> max_pmtu_entries b = 0
     then Err (Invalid ''fragment, TIME-WAIT, and PMTU limits must be non-zero'')
     else Ok b)"

definition tcp_receive_ceiling :: "ResourceBudget \<Rightarrow> nat" where
  "tcp_receive_ceiling b = tcp_payload_bytes b div 4 * 3"

definition tcp_optional_ceiling :: "ResourceBudget \<Rightarrow> nat" where
  "tcp_optional_ceiling b = tcp_payload_bytes b div 2"

datatype BudgetProfile = Mobile | Router | Desktop | Server

definition profile_budget :: "BudgetProfile \<Rightarrow> ResourceBudget" where
  "profile_budget p =
     (case p of
        Mobile \<Rightarrow> \<lparr>total_bytes = 24 * 1024 * 1024, metadata_bytes = 4 * 1024 * 1024,
          tcp_payload_bytes = 12 * 1024 * 1024, packet_bytes = 6 * 1024 * 1024 - 256 * 1024,
          control_packet_bytes = 256 * 1024, fragment_bytes = 2 * 1024 * 1024, max_tcp_flows = 4096,
          max_syn_received = 512, max_accept_queue = 512, max_udp_flows = 2048, max_fragments = 256,
          max_time_wait = 8192, max_pmtu_entries = 2048\<rparr>
      | Router \<Rightarrow> \<lparr>total_bytes = 16 * 1024 * 1024, metadata_bytes = 3 * 1024 * 1024,
          tcp_payload_bytes = 8 * 1024 * 1024, packet_bytes = 4 * 1024 * 1024 - 256 * 1024,
          control_packet_bytes = 256 * 1024, fragment_bytes = 1024 * 1024, max_tcp_flows = 2048,
          max_syn_received = 256, max_accept_queue = 256, max_udp_flows = 1024, max_fragments = 128,
          max_time_wait = 4096, max_pmtu_entries = 1024\<rparr>
      | Desktop \<Rightarrow> \<lparr>total_bytes = 128 * 1024 * 1024, metadata_bytes = 16 * 1024 * 1024,
          tcp_payload_bytes = 72 * 1024 * 1024, packet_bytes = 31 * 1024 * 1024,
          control_packet_bytes = 1024 * 1024, fragment_bytes = 8 * 1024 * 1024, max_tcp_flows = 32768,
          max_syn_received = 4096, max_accept_queue = 4096, max_udp_flows = 16384, max_fragments = 1024,
          max_time_wait = 65536, max_pmtu_entries = 16384\<rparr>
      | Server \<Rightarrow> \<lparr>total_bytes = 1024 * 1024 * 1024, metadata_bytes = 128 * 1024 * 1024,
          tcp_payload_bytes = 640 * 1024 * 1024, packet_bytes = 184 * 1024 * 1024,
          control_packet_bytes = 8 * 1024 * 1024, fragment_bytes = 64 * 1024 * 1024, max_tcp_flows = 262144,
          max_syn_received = 32768, max_accept_queue = 32768, max_udp_flows = 131072, max_fragments = 8192,
          max_time_wait = 524288, max_pmtu_entries = 131072\<rparr>)"

section \<open>The ledger\<close>

definition is_bytes :: "ResourceKind \<Rightarrow> bool" where
  "is_bytes k \<longleftrightarrow> k \<in> {MetadataBytes, TcpPayloadBytes, PacketBytes, ControlPacketBytes, FragmentBytes}"

record ResourceLedger =
  led_budget :: ResourceBudget
  led_total :: nat
  led_used :: "ResourceKind \<Rightarrow> nat"
  led_peaks :: "ResourceKind \<Rightarrow> nat"
  led_denied :: nat

record BudgetLease =
  lease_kind :: ResourceKind
  lease_amount :: nat

definition ledger_new :: "ResourceBudget \<Rightarrow> (BudgetError, ResourceLedger) res" where
  "ledger_new b = and_then (validate b) (\<lambda>b.
     Ok \<lparr>led_budget = b, led_total = 0, led_used = (\<lambda>_. 0), led_peaks = (\<lambda>_. 0), led_denied = 0\<rparr>)"

definition limit :: "ResourceLedger \<Rightarrow> ResourceKind \<Rightarrow> nat" where
  "limit led k =
     (case k of
        MetadataBytes \<Rightarrow> metadata_bytes (led_budget led)
      | TcpPayloadBytes \<Rightarrow> tcp_payload_bytes (led_budget led)
      | PacketBytes \<Rightarrow> packet_bytes (led_budget led)
      | ControlPacketBytes \<Rightarrow> control_packet_bytes (led_budget led)
      | FragmentBytes \<Rightarrow> fragment_bytes (led_budget led)
      | TcpFlows \<Rightarrow> max_tcp_flows (led_budget led)
      | SynReceived \<Rightarrow> max_syn_received (led_budget led)
      | AcceptQueue \<Rightarrow> max_accept_queue (led_budget led)
      | UdpFlows \<Rightarrow> max_udp_flows (led_budget led)
      | Fragments \<Rightarrow> max_fragments (led_budget led)
      | TimeWait \<Rightarrow> max_time_wait (led_budget led)
      | PmtuEntries \<Rightarrow> max_pmtu_entries (led_budget led))"

definition record_denial :: "ResourceLedger \<Rightarrow> ResourceLedger" where
  "record_denial led = led\<lparr>led_denied := (if led_denied led \<noteq> usize_max then led_denied led + 1 else led_denied led)\<rparr>"

text \<open>\<open>reserve\<close> of a counter holding \<open>current\<close>: its new value, or the refusal.  Run without interference
the compare-exchange succeeds at once.\<close>

definition reserve :: "nat \<Rightarrow> nat \<Rightarrow> ResourceKind \<Rightarrow> nat \<Rightarrow> (BudgetError, nat) res" where
  "reserve current lim k amount =
     (case checked_add current amount of
        None \<Rightarrow> Err (Exhausted k amount (sat_sub lim current))
      | Some n \<Rightarrow> if lim < n then Err (Exhausted k amount (sat_sub lim current)) else Ok n)"

definition try_acquire_within ::
  "ResourceLedger \<Rightarrow> ResourceKind \<Rightarrow> nat \<Rightarrow> nat \<Rightarrow> (BudgetError, BudgetLease) res \<times> ResourceLedger" where
  "try_acquire_within led k amount ceil =
     (if amount = 0 then (Ok \<lparr>lease_kind = k, lease_amount = amount\<rparr>, led)
      else
        case (if is_bytes k then reserve (led_total led) (total_bytes (led_budget led)) k amount else Ok (led_total led)) of
          Err e \<Rightarrow> (Err e, record_denial led)
        | Panic \<Rightarrow> (Panic, led)
        | Ok tot \<Rightarrow>
            (let led1 = led\<lparr>led_total := tot\<rparr>; lim = min (limit led1 k) ceil in
             case reserve (led_used led1 k) lim k amount of
               Err e \<Rightarrow>
                 (let led2 = record_denial led1 in
                  (Err e, if is_bytes k then led2\<lparr>led_total := wsub (led_total led2) amount\<rparr> else led2))
             | Panic \<Rightarrow> (Panic, led1)
             | Ok n \<Rightarrow>
                 (let led2 = led1\<lparr>led_used := (led_used led1)(k := n)\<rparr> in
                  (Ok \<lparr>lease_kind = k, lease_amount = amount\<rparr>,
                   led2\<lparr>led_peaks := (led_peaks led2)(k := max (led_peaks led2 k) (led_used led2 k))\<rparr>))))"

definition try_acquire :: "ResourceLedger \<Rightarrow> ResourceKind \<Rightarrow> nat \<Rightarrow> (BudgetError, BudgetLease) res \<times> ResourceLedger" where
  "try_acquire led k amount = try_acquire_within led k amount usize_max"

text \<open>\<open>fetch_sub\<close> of the two counters, the effect of dropping a lease.\<close>

definition give_back :: "ResourceLedger \<Rightarrow> ResourceKind \<Rightarrow> nat \<Rightarrow> ResourceLedger" where
  "give_back led k released =
     (let led1 = led\<lparr>led_used := (led_used led)(k := wsub (led_used led k) released)\<rparr> in
      if is_bytes k then led1\<lparr>led_total := wsub (led_total led1) released\<rparr> else led1)"

definition drop_lease :: "ResourceLedger \<Rightarrow> BudgetLease \<Rightarrow> ResourceLedger" where
  "drop_lease led l = (if lease_amount l = 0 then led else give_back led (lease_kind l) (lease_amount l))"

definition shrink_to :: "ResourceLedger \<Rightarrow> BudgetLease \<Rightarrow> nat \<Rightarrow> ('e, BudgetLease \<times> ResourceLedger) res" where
  "shrink_to led l amount =
     (if \<not> amount \<le> lease_amount l then Panic
      else let released = lease_amount l - amount in
        if released = 0 then Ok (l, led)
        else Ok (l\<lparr>lease_amount := amount\<rparr>, give_back led (lease_kind l) released))"

definition lease_split_off :: "BudgetLease \<Rightarrow> nat \<Rightarrow> ('e, BudgetLease \<times> BudgetLease) res" where
  "lease_split_off l at =
     (if \<not> at \<le> lease_amount l then Panic
      else let remainder = lease_amount l - at in
        Ok (l\<lparr>lease_amount := at\<rparr>, \<lparr>lease_kind = lease_kind l, lease_amount = remainder\<rparr>))"

text \<open>Several acquisitions in a row, each ended by \<open>?\<close>: a refusal drops the leases already held.\<close>

fun acquire_each ::
  "('l \<Rightarrow> ResourceKind \<Rightarrow> nat \<Rightarrow> (BudgetError, BudgetLease) res \<times> 'l) \<Rightarrow> ('l \<Rightarrow> BudgetLease \<Rightarrow> 'l) \<Rightarrow>
    'l \<Rightarrow> (ResourceKind \<times> nat) list \<Rightarrow> BudgetLease list \<Rightarrow> (BudgetError, BudgetLease list) res \<times> 'l" where
  "acquire_each acq rel led [] acc = (Ok acc, led)"
| "acquire_each acq rel led ((k, a) # cs) acc =
     (case acq led k a of
        (Ok l, led') \<Rightarrow> acquire_each acq rel led' cs (acc @ [l])
      | (Err e, led') \<Rightarrow> (Err e, foldl rel led' acc)
      | (Panic, led') \<Rightarrow> (Panic, led'))"

section \<open>Pressure\<close>

datatype PressureLevel = Normal | Constrained | Critical | Exhausted_level

fun severity :: "PressureLevel \<Rightarrow> nat" where
  "severity Normal = 0"
| "severity Constrained = 1"
| "severity Critical = 2"
| "severity Exhausted_level = 3"

instantiation PressureLevel :: linorder
begin

definition less_eq_PressureLevel :: "PressureLevel \<Rightarrow> PressureLevel \<Rightarrow> bool" where
  "less_eq_PressureLevel a b \<longleftrightarrow> severity a \<le> severity b"

definition less_PressureLevel :: "PressureLevel \<Rightarrow> PressureLevel \<Rightarrow> bool" where
  "less_PressureLevel a b \<longleftrightarrow> severity a < severity b"

instance
proof
  fix x y z :: PressureLevel
  show "x < y \<longleftrightarrow> x \<le> y \<and> \<not> y \<le> x" by (auto simp: less_eq_PressureLevel_def less_PressureLevel_def)
  show "x \<le> x" by (simp add: less_eq_PressureLevel_def)
  show "x \<le> y \<Longrightarrow> y \<le> z \<Longrightarrow> x \<le> z" by (simp add: less_eq_PressureLevel_def)
  show "x \<le> y \<Longrightarrow> y \<le> x \<Longrightarrow> x = y"
    by (cases x; cases y) (simp_all add: less_eq_PressureLevel_def)
  show "x \<le> y \<or> y \<le> x" by (auto simp: less_eq_PressureLevel_def)
qed

end

definition pressure_level :: "nat \<Rightarrow> nat \<Rightarrow> PressureLevel" where
  "pressure_level v lim =
     (let v = sat_mul v 1000 in
      if sat_mul lim 1000 \<le> v then Exhausted_level
      else if sat_mul lim 850 \<le> v then Critical
      else if sat_mul lim 700 \<le> v then Constrained
      else Normal)"

definition all_kinds :: "ResourceKind list" where
  "all_kinds = [MetadataBytes, TcpPayloadBytes, PacketBytes, ControlPacketBytes, FragmentBytes,
     TcpFlows, SynReceived, AcceptQueue, UdpFlows, Fragments, TimeWait, PmtuEntries]"

definition pressure_of :: "ResourceLedger \<Rightarrow> nat \<Rightarrow> (ResourceKind \<Rightarrow> nat) \<Rightarrow> ResourceKind option \<Rightarrow> PressureLevel" where
  "pressure_of led tot used except =
     fold (\<lambda>k level. if Some k = except then level else max level (pressure_level (used k) (limit led k)))
       all_kinds (pressure_level tot (total_bytes (led_budget led)))"

definition pressure :: "ResourceLedger \<Rightarrow> PressureLevel" where
  "pressure led = pressure_of led (led_total led) (led_used led) None"

definition admission :: "ResourceLedger \<Rightarrow> PressureLevel" where
  "admission led = pressure_of led (led_total led) (led_used led) (Some TcpPayloadBytes)"

record BudgetSnapshot =
  snap_total_bytes :: nat
  snap_used :: "ResourceKind \<Rightarrow> nat"
  snap_peaks :: "ResourceKind \<Rightarrow> nat"
  snap_denied :: nat
  snap_pressure :: PressureLevel
  snap_admission :: PressureLevel

definition snapshot :: "ResourceLedger \<Rightarrow> BudgetSnapshot" where
  "snapshot led =
     \<lparr>snap_total_bytes = led_total led, snap_used = led_used led, snap_peaks = led_peaks led,
      snap_denied = led_denied led, snap_pressure = pressure led, snap_admission = admission led\<rparr>"

section \<open>Accounting without interference\<close>

text \<open>What a multiset of live leases charges.\<close>

definition charged :: "BudgetLease multiset \<Rightarrow> ResourceKind \<Rightarrow> nat" where
  "charged ls k = sum_mset (image_mset (\<lambda>l. if lease_kind l = k then lease_amount l else 0) ls)"

definition charged_bytes :: "BudgetLease multiset \<Rightarrow> nat" where
  "charged_bytes ls = sum_mset (image_mset (\<lambda>l. if is_bytes (lease_kind l) then lease_amount l else 0) ls)"

definition budget_ok :: "ResourceBudget \<Rightarrow> bool" where
  "budget_ok b \<longleftrightarrow> validate b = Ok b"

text \<open>The limits of a budget are machine integers.\<close>

definition representable :: "ResourceLedger \<Rightarrow> bool" where
  "representable led \<longleftrightarrow> (\<forall>k. limit led k \<le> usize_max) \<and> total_bytes (led_budget led) \<le> usize_max"

definition ledger_ok :: "ResourceLedger \<Rightarrow> BudgetLease multiset \<Rightarrow> bool" where
  "ledger_ok led ls \<longleftrightarrow> representable led \<and>
     led_total led = charged_bytes ls \<and> charged_bytes ls \<le> total_bytes (led_budget led) \<and>
     (\<forall>k. led_used led k = charged ls k) \<and> (\<forall>k. charged ls k \<le> limit led k) \<and>
     (\<forall>k. charged ls k \<le> led_peaks led k) \<and> (\<forall>k. led_peaks led k \<le> limit led k)"

lemma charged_add [simp]:
  "charged (add_mset l ls) k = (if lease_kind l = k then lease_amount l else 0) + charged ls k"
  "charged_bytes (add_mset l ls) = (if is_bytes (lease_kind l) then lease_amount l else 0) + charged_bytes ls"
  "charged {#} k = 0" "charged_bytes {#} = 0"
  by (simp_all add: charged_def charged_bytes_def)

lemma limit_frame [simp]:
  "limit (led\<lparr>led_total := t\<rparr>) k = limit led k" "limit (led\<lparr>led_used := u\<rparr>) k = limit led k"
  "limit (led\<lparr>led_peaks := p\<rparr>) k = limit led k" "limit (led\<lparr>led_denied := d\<rparr>) k = limit led k"
  by (simp_all add: limit_def cong: ResourceKind.case_cong)

lemma limit_cong: "led_budget led = led_budget led' \<Longrightarrow> limit led = limit led'"
  unfolding limit_def by simp

lemma reserve_Ok_iff: "lim \<le> usize_max \<Longrightarrow> reserve cur lim k a = Ok n \<longleftrightarrow> n = cur + a \<and> cur + a \<le> lim"
  by (auto simp: reserve_def checked_add_def)

lemma reserve_not_Ok:
  assumes "\<not> cur + a \<le> lim" shows "reserve cur lim k a = Err (Exhausted k a (lim - cur))"
  using assms by (auto simp: reserve_def checked_add_def sat_sub_def)

lemma reserve_eq:
  "lim \<le> usize_max \<Longrightarrow> reserve cur lim k a = (if cur + a \<le> lim then Ok (cur + a) else Err (Exhausted k a (lim - cur)))"
  by (auto simp: reserve_def checked_add_def sat_sub_def)

definition fits :: "ResourceLedger \<Rightarrow> ResourceKind \<Rightarrow> nat \<Rightarrow> nat \<Rightarrow> bool" where
  "fits led k amount ceil \<longleftrightarrow> amount = 0 \<or>
     (is_bytes k \<longrightarrow> led_total led + amount \<le> total_bytes (led_budget led)) \<and>
     led_used led k + amount \<le> min (limit led k) ceil"

lemma wsub_back: "a + b \<le> usize_max \<Longrightarrow> wsub (a + b) b = a"
  by (simp add: wsub_def)

lemma try_acquire_granted:
  assumes "representable led" "fits led k amount ceil"
  shows "try_acquire_within led k amount ceil = (Ok \<lparr>lease_kind = k, lease_amount = amount\<rparr>,
    if amount = 0 then led
    else led\<lparr>led_total := (if is_bytes k then led_total led + amount else led_total led),
      led_used := (led_used led)(k := led_used led k + amount),
      led_peaks := (led_peaks led)(k := max (led_peaks led k) (led_used led k + amount))\<rparr>)"
proof -
  have "min (limit led k) ceil \<le> usize_max" "total_bytes (led_budget led) \<le> usize_max"
    using assms(1) by (auto simp: representable_def min_le_iff_disj)
  then show ?thesis using assms(2) by (auto simp: try_acquire_within_def fits_def reserve_eq Let_def)
qed

lemma try_acquire_refused:
  assumes "representable led" "\<not> fits led k amount ceil" "led_total led \<le> total_bytes (led_budget led)"
  shows "\<exists>avail. try_acquire_within led k amount ceil = (Err (Exhausted k amount avail), record_denial led)"
proof -
  have "min (limit led k) ceil \<le> usize_max" "total_bytes (led_budget led) \<le> usize_max"
    using assms(1) by (auto simp: representable_def min_le_iff_disj)
  then show ?thesis using assms(2,3)
    by (auto simp: try_acquire_within_def fits_def reserve_eq Let_def record_denial_def wsub_back)
qed

lemma try_acquire_keeps:
  assumes "ledger_ok led ls" "try_acquire_within led k amount ceil = (Ok l, led')"
  shows "ledger_ok led' (add_mset l ls)" "led_budget led' = led_budget led"
    "lease_kind l = k" "lease_amount l = amount" "amount \<noteq> 0 \<longrightarrow> led_used led' k \<le> ceil"
proof -
  have r: "representable led" "led_total led \<le> total_bytes (led_budget led)" using assms(1) by (simp_all add: ledger_ok_def)
  have f: "fits led k amount ceil"
    using try_acquire_refused [OF r(1) _ r(2)] assms(2) by fastforce
  show "ledger_ok led' (add_mset l ls)" "led_budget led' = led_budget led"
    "lease_kind l = k" "lease_amount l = amount" "amount \<noteq> 0 \<longrightarrow> led_used led' k \<le> ceil"
    using assms f unfolding try_acquire_granted [OF r(1) f]
    by (auto simp: ledger_ok_def representable_def fits_def split: if_splits)
qed

lemma try_acquire_failed:
  assumes "ledger_ok led ls" "fst (try_acquire_within led k amount ceil) \<noteq> Ok \<lparr>lease_kind = k, lease_amount = amount\<rparr>"
  shows "\<exists>avail. try_acquire_within led k amount ceil = (Err (Exhausted k amount avail), record_denial led)"
    "ledger_ok (record_denial led) ls"
proof -
  have r: "representable led" "led_total led \<le> total_bytes (led_budget led)" using assms(1) by (simp_all add: ledger_ok_def)
  have "\<not> fits led k amount ceil" using try_acquire_granted [OF r(1), of k amount ceil] assms(2) by auto
  then show "\<exists>avail. try_acquire_within led k amount ceil = (Err (Exhausted k amount avail), record_denial led)"
    by (rule try_acquire_refused [OF r(1) _ r(2)])
  show "ledger_ok (record_denial led) ls"
    using assms(1) by (simp add: ledger_ok_def record_denial_def representable_def)
qed

lemma give_back_keeps:
  assumes "ledger_ok led (add_mset l ls)" "released \<le> lease_amount l"
  shows "ledger_ok (give_back led (lease_kind l) released)
    (add_mset (l\<lparr>lease_amount := lease_amount l - released\<rparr>) ls)"
proof -
  let ?k = "lease_kind l"
  have u: "led_used led ?k = (charged ls ?k + (lease_amount l - released)) + released"
    using assms by (auto simp: ledger_ok_def)
  have "charged (add_mset l ls) ?k \<le> limit led ?k" "limit led ?k \<le> usize_max"
    using assms(1) unfolding ledger_ok_def representable_def by blast+
  then have a: "wsub (led_used led ?k) released = charged ls ?k + (lease_amount l - released)"
    unfolding u using assms(2) by (intro wsub_back) simp
  have b: "wsub (led_total led) released = charged_bytes ls + (lease_amount l - released)" if "is_bytes ?k"
  proof -
    have t: "led_total led = (charged_bytes ls + (lease_amount l - released)) + released"
      using assms that by (auto simp: ledger_ok_def)
    have "charged_bytes (add_mset l ls) \<le> total_bytes (led_budget led)" "total_bytes (led_budget led) \<le> usize_max"
      using assms(1) unfolding ledger_ok_def representable_def by blast+
    then show ?thesis unfolding t using assms(2) that by (intro wsub_back) simp
  qed
  have c: "charged (add_mset (l\<lparr>lease_amount := lease_amount l - released\<rparr>) ls) k \<le> charged (add_mset l ls) k" for k by simp
  have "charged (add_mset (l\<lparr>lease_amount := lease_amount l - released\<rparr>) ls) k \<le> limit led k \<and>
      charged (add_mset (l\<lparr>lease_amount := lease_amount l - released\<rparr>) ls) k \<le> led_peaks led k" for k
    using assms(1) order_trans [OF c] unfolding ledger_ok_def by blast
  moreover have "charged_bytes (add_mset (l\<lparr>lease_amount := lease_amount l - released\<rparr>) ls) \<le> total_bytes (led_budget led)"
    using assms(1) by (auto simp: ledger_ok_def)
  ultimately show ?thesis using assms(1) a b
    by (auto simp: ledger_ok_def give_back_def Let_def representable_def)
qed

lemma charged_zero: "lease_amount l = 0 \<Longrightarrow> ledger_ok led (add_mset l ls) = ledger_ok led ls"
  by (simp add: ledger_ok_def)

lemma drop_lease_keeps:
  assumes "ledger_ok led (add_mset l ls)" shows "ledger_ok (drop_lease led l) ls"
proof (cases "lease_amount l = 0")
  case True
  then show ?thesis using assms by (simp add: drop_lease_def charged_zero)
next
  case False
  then show ?thesis using give_back_keeps [OF assms order_refl] by (simp add: drop_lease_def charged_zero)
qed

lemma shrink_to_keeps:
  assumes "ledger_ok led (add_mset l ls)" "amount \<le> lease_amount l"
  obtains l' led' where "shrink_to led l amount = Ok (l', led')" "ledger_ok led' (add_mset l' ls)"
    "lease_amount l' = amount" "lease_kind l' = lease_kind l"
proof (cases "amount = lease_amount l")
  case True
  show thesis by (rule that [of l led]) (use True assms in \<open>simp_all add: shrink_to_def\<close>)
next
  case False
  have "ledger_ok (give_back led (lease_kind l) (lease_amount l - amount)) (add_mset (l\<lparr>lease_amount := amount\<rparr>) ls)"
    using give_back_keeps [OF assms(1), of "lease_amount l - amount"] assms(2) by simp
  then show thesis using that assms(2) False by (simp add: shrink_to_def)
qed

lemma lease_split_off_charges:
  assumes "lease_split_off l at = Ok (a, b)"
  shows "charged (add_mset a (add_mset b ls)) = charged (add_mset l ls)"
    "charged_bytes (add_mset a (add_mset b ls)) = charged_bytes (add_mset l ls)"
  using assms by (auto simp: lease_split_off_def Let_def split: if_splits)

subsection \<open>Budgets and pressure\<close>

lemma validate_Ok_iff:
  "validate b = Ok b' \<longleftrightarrow> b' = b \<and> total_bytes b \<noteq> 0 \<and>
     metadata_bytes b + tcp_payload_bytes b + packet_bytes b + control_packet_bytes b + fragment_bytes b \<le> min (total_bytes b) usize_max \<and>
     max_tcp_flows b \<noteq> 0 \<and> max_udp_flows b \<noteq> 0 \<and> max_syn_received b \<le> max_tcp_flows b \<and>
     max_accept_queue b \<le> max_tcp_flows b \<and> max_fragments b \<noteq> 0 \<and> max_time_wait b \<noteq> 0 \<and> max_pmtu_entries b \<noteq> 0"
  by (auto simp: validate_def checked_add_def ok_or_def split: if_splits)

lemma profile_valid: "validate (profile_budget p) = Ok (profile_budget p)"
  by (cases p) (simp_all add: validate_Ok_iff profile_budget_def)

lemma set_all_kinds: "set all_kinds = UNIV"
proof -
  have "k \<in> set all_kinds" for k by (cases k) (simp_all add: all_kinds_def)
  then show ?thesis by blast
qed

lemma fold_max_le:
  fixes x0 :: "'a::linorder"
  shows "fold (\<lambda>k x. if P k then x else max x (f k)) ks x0 \<le> y \<longleftrightarrow> x0 \<le> y \<and> (\<forall>k\<in>set ks. \<not> P k \<longrightarrow> f k \<le> y)"
  by (induction ks arbitrary: x0) auto

lemma pressure_of_le_iff:
  "pressure_of led tot used ex \<le> y \<longleftrightarrow> pressure_level tot (total_bytes (led_budget led)) \<le> y \<and>
     (\<forall>k. Some k \<noteq> ex \<longrightarrow> pressure_level (used k) (limit led k) \<le> y)"
  by (simp add: pressure_of_def fold_max_le set_all_kinds)

lemma admission_le_pressure: "admission led \<le> pressure led"
proof -
  let ?p = "pressure_of led (led_total led) (led_used led) None"
  have "pressure_level (led_total led) (total_bytes (led_budget led)) \<le> ?p \<and>
      (\<forall>k. Some k \<noteq> None \<longrightarrow> pressure_level (led_used led k) (limit led k) \<le> ?p)"
    by (rule pressure_of_le_iff [THEN iffD1]) (rule order_refl)
  then show ?thesis unfolding admission_def pressure_def by (subst pressure_of_le_iff) simp
qed

section \<open>The contract of a ledger\<close>

text \<open>What the buffers and the reassembler rely on: a grant adds its lease to the live ones, a refusal leaves them, and
a drop takes one out.\<close>

locale credit_ledger =
  fixes good :: "'l \<Rightarrow> BudgetLease multiset \<Rightarrow> bool"
    and acq :: "'l \<Rightarrow> ResourceKind \<Rightarrow> nat \<Rightarrow> (BudgetError, BudgetLease) res \<times> 'l"
    and rel :: "'l \<Rightarrow> BudgetLease \<Rightarrow> 'l"
  assumes acq_Ok: "good led ls \<Longrightarrow> acq led k a = (Ok l, led') \<Longrightarrow>
      good led' (add_mset l ls) \<and> lease_kind l = k \<and> lease_amount l = a"
    and acq_Err: "good led ls \<Longrightarrow> acq led k a = (Err e, led') \<Longrightarrow> good led' ls"
    and acq_no_panic: "good led ls \<Longrightarrow> fst (acq led k a) \<noteq> Panic"
    and rel_good: "good led (add_mset l ls) \<Longrightarrow> good (rel led l) ls"
begin

lemma release_all: "good led (mset acc + ls) \<Longrightarrow> good (foldl rel led acc) ls"
proof (induction acc arbitrary: led)
  case (Cons l acc)
  then have "good (rel led l) (mset acc + ls)" by (intro rel_good) simp
  then show ?case using Cons.IH by simp
qed simp

lemma acquire_each_cases:
  assumes "good led (mset acc + ls)"
  obtains (granted) new led' where "acquire_each acq rel led cs acc = (Ok (acc @ new), led')"
      "good led' (mset (acc @ new) + ls)" "map (\<lambda>l. (lease_kind l, lease_amount l)) new = cs"
    | (refused) e led' where "acquire_each acq rel led cs acc = (Err e, led')" "good led' ls"
  using assms
proof (induction cs arbitrary: led acc thesis)
  case Nil
  show ?case by (rule Nil(1) [of "[]" led]) (use Nil(3) in simp_all)
next
  case (Cons c cs)
  obtain k a where c: "c = (k, a)" by fastforce
  show ?case
  proof (cases "acq led k a")
    case (Pair r led1)
    show ?thesis
    proof (cases r)
      case (Ok l)
      then have g: "good led1 (mset (acc @ [l]) + ls)" "lease_kind l = k" "lease_amount l = a"
        using acq_Ok [OF Cons.prems(3), of k a l led1] Pair by simp_all
      have e: "acquire_each acq rel led (c # cs) acc = acquire_each acq rel led1 cs (acc @ [l])" by (simp add: c Pair Ok)
      show ?thesis
      proof (rule Cons.IH [OF _ _ g(1)])
        fix new led' assume n: "acquire_each acq rel led1 cs (acc @ [l]) = (Ok ((acc @ [l]) @ new), led')"
          "good led' (mset ((acc @ [l]) @ new) + ls)" "map (\<lambda>l. (lease_kind l, lease_amount l)) new = cs"
        show ?thesis by (rule Cons.prems(1) [of "l # new" led']) (use n g e c in simp_all)
      next
        fix x led' assume n: "acquire_each acq rel led1 cs (acc @ [l]) = (Err x, led')" "good led' ls"
        show ?thesis by (rule Cons.prems(2) [of x led']) (use n e in simp_all)
      qed
    next
      case (Err x)
      have "good led1 (mset acc + ls)" using acq_Err [OF Cons.prems(3)] Pair Err by blast
      then show ?thesis by (intro Cons.prems(2) [of x "foldl rel led1 acc"]) (simp_all add: c Pair Err release_all)
    next
      case Panic
      then show ?thesis using acq_no_panic [OF Cons.prems(3), of k a] Pair by simp
    qed
  qed
qed

end

interpretation ledger: credit_ledger ledger_ok try_acquire drop_lease
proof
  fix led ls k a l led'
  assume ok: "ledger_ok led ls"
  show "try_acquire led k a = (Ok l, led') \<Longrightarrow> ledger_ok led' (add_mset l ls) \<and> lease_kind l = k \<and> lease_amount l = a"
    unfolding try_acquire_def by (simp add: try_acquire_keeps [OF ok])
  show "try_acquire led k a = (Err e, led') \<Longrightarrow> ledger_ok led' ls" for e
    using try_acquire_failed [OF ok, of k a usize_max] unfolding try_acquire_def by fastforce
  show "fst (try_acquire led k a) \<noteq> Panic"
    using try_acquire_failed [OF ok, of k a usize_max] unfolding try_acquire_def by force
next
  show "ledger_ok led (add_mset l ls) \<Longrightarrow> ledger_ok (drop_lease led l) ls" for led l ls by (rule drop_lease_keeps)
qed

end
