(* ===== verification/Budget_Threads.thy ===== *)
theory Budget_Threads
  imports Budget
begin

text \<open>
  The ledger under concurrent use.  Threads run \<open>try_acquire_within\<close>, \<open>shrink_to\<close> and the drop of a lease
  one atomic operation at a time, in any interleaving: a load, a compare-exchange that may fail for no
  reason and then reports the current value, a \<open>fetch_sub\<close> or a \<open>fetch_max\<close>.  Every access is to a single
  counter, so the order of the accesses to each counter is all the orderings of the source promise and all
  the model uses.
\<close>

section \<open>Threads\<close>

text \<open>Where a thread is: the request it works on, and what it has read.  \<open>Deny\<close> carries whether the total
has to be given back after the refusal is recorded.\<close>

datatype thread =
    Idle
  | TotalCas ResourceKind nat nat nat
  | UsedLoad ResourceKind nat nat
  | UsedCas ResourceKind nat nat nat
  | PeakLoad ResourceKind nat
  | PeakMax ResourceKind nat nat
  | Deny ResourceKind nat bool nat
  | Rollback ResourceKind nat
  | DropUsed ResourceKind nat
  | DropTotal ResourceKind nat

record shared =
  sh_ledger :: ResourceLedger
  sh_leases :: "BudgetLease multiset"
  sh_threads :: "thread list"

definition refused_at :: "nat \<Rightarrow> nat \<Rightarrow> nat \<Rightarrow> bool" where
  "refused_at current lim amount \<longleftrightarrow> (case checked_add current amount of None \<Rightarrow> True | Some n \<Rightarrow> lim < n)"

definition goto :: "shared \<Rightarrow> nat \<Rightarrow> thread \<Rightarrow> shared" where
  "goto m i t = m\<lparr>sh_threads := (sh_threads m)[i := t]\<rparr>"

abbreviation at :: "shared \<Rightarrow> nat \<Rightarrow> thread \<Rightarrow> bool" where
  "at m i t \<equiv> i < length (sh_threads m) \<and> sh_threads m ! i = t"

abbreviation with_ledger :: "shared \<Rightarrow> ResourceLedger \<Rightarrow> shared" where
  "with_ledger m led \<equiv> m\<lparr>sh_ledger := led\<rparr>"

inductive ledger_step :: "shared \<Rightarrow> shared \<Rightarrow> bool" where
  acquire_nothing: "at m i Idle \<Longrightarrow>
    ledger_step m (m\<lparr>sh_leases := add_mset \<lparr>lease_kind = k, lease_amount = 0\<rparr> (sh_leases m)\<rparr>)"
| acquire_bytes: "at m i Idle \<Longrightarrow> 0 < amount \<Longrightarrow> is_bytes k \<Longrightarrow>
    ledger_step m (goto m i (TotalCas k amount ceil (led_total (sh_ledger m))))"
| acquire_units: "at m i Idle \<Longrightarrow> 0 < amount \<Longrightarrow> \<not> is_bytes k \<Longrightarrow>
    ledger_step m (goto m i (UsedLoad k amount ceil))"
| total_refuse: "at m i (TotalCas k amount ceil cur) \<Longrightarrow> refused_at cur (total_bytes (led_budget (sh_ledger m))) amount \<Longrightarrow>
    ledger_step m (goto m i (Deny k amount False (led_denied (sh_ledger m))))"
| total_retry: "at m i (TotalCas k amount ceil cur) \<Longrightarrow>
    \<not> refused_at cur (total_bytes (led_budget (sh_ledger m))) amount \<Longrightarrow>
    ledger_step m (goto m i (TotalCas k amount ceil (led_total (sh_ledger m))))"
| total_take: "at m i (TotalCas k amount ceil cur) \<Longrightarrow>
    \<not> refused_at cur (total_bytes (led_budget (sh_ledger m))) amount \<Longrightarrow> led_total (sh_ledger m) = cur \<Longrightarrow>
    ledger_step m (goto (with_ledger m (sh_ledger m\<lparr>led_total := cur + amount\<rparr>)) i (UsedLoad k amount ceil))"
| used_load: "at m i (UsedLoad k amount ceil) \<Longrightarrow>
    ledger_step m (goto m i (UsedCas k amount ceil (led_used (sh_ledger m) k)))"
| used_refuse: "at m i (UsedCas k amount ceil cur) \<Longrightarrow> refused_at cur (min (limit (sh_ledger m) k) ceil) amount \<Longrightarrow>
    ledger_step m (goto m i (Deny k amount (is_bytes k) (led_denied (sh_ledger m))))"
| used_retry: "at m i (UsedCas k amount ceil cur) \<Longrightarrow> \<not> refused_at cur (min (limit (sh_ledger m) k) ceil) amount \<Longrightarrow>
    ledger_step m (goto m i (UsedCas k amount ceil (led_used (sh_ledger m) k)))"
| used_take: "at m i (UsedCas k amount ceil cur) \<Longrightarrow> \<not> refused_at cur (min (limit (sh_ledger m) k) ceil) amount \<Longrightarrow>
    led_used (sh_ledger m) k = cur \<Longrightarrow>
    ledger_step m (goto (with_ledger m (sh_ledger m\<lparr>led_used := (led_used (sh_ledger m))(k := cur + amount)\<rparr>)) i (PeakLoad k amount))"
| peak_load: "at m i (PeakLoad k amount) \<Longrightarrow>
    ledger_step m (goto m i (PeakMax k amount (led_used (sh_ledger m) k)))"
| peak_max: "at m i (PeakMax k amount seen) \<Longrightarrow>
    ledger_step m (goto (m\<lparr>sh_ledger := sh_ledger m\<lparr>led_peaks := (led_peaks (sh_ledger m))(k := max (led_peaks (sh_ledger m) k) seen)\<rparr>,
      sh_leases := add_mset \<lparr>lease_kind = k, lease_amount = amount\<rparr> (sh_leases m)\<rparr>) i Idle)"
| deny_full: "at m i (Deny k amount undo d) \<Longrightarrow> d = usize_max \<Longrightarrow>
    ledger_step m (goto m i (if undo then Rollback k amount else Idle))"
| deny_retry: "at m i (Deny k amount undo d) \<Longrightarrow> d \<noteq> usize_max \<Longrightarrow>
    ledger_step m (goto m i (Deny k amount undo (led_denied (sh_ledger m))))"
| deny_count: "at m i (Deny k amount undo d) \<Longrightarrow> d \<noteq> usize_max \<Longrightarrow> led_denied (sh_ledger m) = d \<Longrightarrow>
    ledger_step m (goto (with_ledger m (sh_ledger m\<lparr>led_denied := d + 1\<rparr>)) i (if undo then Rollback k amount else Idle))"
| rollback: "at m i (Rollback k amount) \<Longrightarrow>
    ledger_step m (goto (with_ledger m (sh_ledger m\<lparr>led_total := wsub (led_total (sh_ledger m)) amount\<rparr>)) i Idle)"
| drop_nothing: "at m i Idle \<Longrightarrow> sh_leases m = add_mset l ls \<Longrightarrow> lease_amount l = 0 \<Longrightarrow>
    ledger_step m (m\<lparr>sh_leases := ls\<rparr>)"
| drop_start: "at m i Idle \<Longrightarrow> sh_leases m = add_mset l ls \<Longrightarrow> 0 < lease_amount l \<Longrightarrow>
    ledger_step m (goto (m\<lparr>sh_leases := ls\<rparr>) i (DropUsed (lease_kind l) (lease_amount l)))"
| shrink_start: "at m i Idle \<Longrightarrow> sh_leases m = add_mset l ls \<Longrightarrow> amount < lease_amount l \<Longrightarrow>
    ledger_step m (goto (m\<lparr>sh_leases := add_mset (l\<lparr>lease_amount := amount\<rparr>) ls\<rparr>) i
      (DropUsed (lease_kind l) (lease_amount l - amount)))"
| drop_used: "at m i (DropUsed k amount) \<Longrightarrow>
    ledger_step m (goto (with_ledger m (sh_ledger m\<lparr>led_used := (led_used (sh_ledger m))(k := wsub (led_used (sh_ledger m) k) amount)\<rparr>)) i
      (if is_bytes k then DropTotal k amount else Idle))"
| drop_total: "at m i (DropTotal k amount) \<Longrightarrow>
    ledger_step m (goto (with_ledger m (sh_ledger m\<lparr>led_total := wsub (led_total (sh_ledger m)) amount\<rparr>)) i Idle)"
| split_lease: "at m i Idle \<Longrightarrow> sh_leases m = add_mset l ls \<Longrightarrow> lease_split_off l at' = (Ok (a, b) :: (unit, BudgetLease \<times> BudgetLease) res) \<Longrightarrow>
    ledger_step m (m\<lparr>sh_leases := add_mset a (add_mset b ls)\<rparr>)"

inductive ledger_reachable :: "ResourceLedger \<Rightarrow> nat \<Rightarrow> shared \<Rightarrow> bool" for led0 n where
  start: "ledger_reachable led0 n \<lparr>sh_ledger = led0, sh_leases = {#}, sh_threads = replicate n Idle\<rparr>"
| step: "ledger_reachable led0 n m \<Longrightarrow> ledger_step m m' \<Longrightarrow> ledger_reachable led0 n m'"

section \<open>What a thread holds\<close>

text \<open>The share of the two counters that belongs to a request in progress.\<close>

fun holds_total :: "thread \<Rightarrow> nat" where
  "holds_total (UsedLoad k a c) = (if is_bytes k then a else 0)"
| "holds_total (UsedCas k a c x) = (if is_bytes k then a else 0)"
| "holds_total (PeakLoad k a) = (if is_bytes k then a else 0)"
| "holds_total (PeakMax k a x) = (if is_bytes k then a else 0)"
| "holds_total (Deny k a undo d) = (if undo then a else 0)"
| "holds_total (Rollback k a) = a"
| "holds_total (DropUsed k a) = (if is_bytes k then a else 0)"
| "holds_total (DropTotal k a) = a"
| "holds_total _ = 0"

fun holds_used :: "ResourceKind \<Rightarrow> thread \<Rightarrow> nat" where
  "holds_used k (PeakLoad k' a) = (if k' = k then a else 0)"
| "holds_used k (PeakMax k' a x) = (if k' = k then a else 0)"
| "holds_used k (DropUsed k' a) = (if k' = k then a else 0)"
| "holds_used k _ = 0"

fun seen_ok :: "ResourceLedger \<Rightarrow> thread \<Rightarrow> bool" where
  "seen_ok led (PeakMax k a x) \<longleftrightarrow> x \<le> limit led k"
| "seen_ok led (TotalCas k a c x) \<longleftrightarrow> is_bytes k"
| "seen_ok led _ \<longleftrightarrow> True"

definition held :: "(thread \<Rightarrow> nat) \<Rightarrow> shared \<Rightarrow> nat" where
  "held f m = sum_list (map f (sh_threads m))"

definition shared_ok :: "ResourceBudget \<Rightarrow> shared \<Rightarrow> bool" where
  "shared_ok b m \<longleftrightarrow> led_budget (sh_ledger m) = b \<and>
     led_total (sh_ledger m) = charged_bytes (sh_leases m) + held holds_total m \<and>
     led_total (sh_ledger m) \<le> total_bytes b \<and>
     (\<forall>k. led_used (sh_ledger m) k = charged (sh_leases m) k + held (holds_used k) m) \<and>
     (\<forall>k. led_used (sh_ledger m) k \<le> limit (sh_ledger m) k) \<and>
     (\<forall>k. led_peaks (sh_ledger m) k \<le> limit (sh_ledger m) k) \<and>
     (\<forall>t\<in>set (sh_threads m). seen_ok (sh_ledger m) t)"

lemma sum_list_swap:
  fixes f :: "'a \<Rightarrow> nat"
  shows "i < length ts \<Longrightarrow> sum_list (map f (ts[i := x])) + f (ts ! i) = sum_list (map f ts) + f x"
  by (induction ts arbitrary: i) (auto split: nat.split)

lemma held_ge: "at m i t \<Longrightarrow> f t \<le> held f m"
  by (auto simp: held_def intro!: member_le_sum_list)

lemma seen_ok_frame [simp]: "seen_ok (led\<lparr>led_total := x\<rparr>) t = seen_ok led t"
  "seen_ok (led\<lparr>led_used := u\<rparr>) t = seen_ok led t" "seen_ok (led\<lparr>led_peaks := p\<rparr>) t = seen_ok led t"
  "seen_ok (led\<lparr>led_denied := d\<rparr>) t = seen_ok led t"
  by (cases t; simp)+

text \<open>A step of thread \<open>i\<close> from \<open>t\<close> to \<open>t'\<close> keeps the invariant when what the counters, the leases and the thread
hold stays in balance and the counters stay within their limits.\<close>

lemma shared_okI:
  assumes "shared_ok b m" "at m i t" "sh_threads m' = (sh_threads m)[i := t']" "led_budget (sh_ledger m') = b"
    "led_total (sh_ledger m') + charged_bytes (sh_leases m) + holds_total t =
       led_total (sh_ledger m) + charged_bytes (sh_leases m') + holds_total t'"
    "\<And>k. led_used (sh_ledger m') k + charged (sh_leases m) k + holds_used k t =
       led_used (sh_ledger m) k + charged (sh_leases m') k + holds_used k t'"
    "led_total (sh_ledger m') \<le> total_bytes b" "\<And>k. led_used (sh_ledger m') k \<le> limit (sh_ledger m) k"
    "\<And>k. led_peaks (sh_ledger m') k \<le> limit (sh_ledger m) k" "seen_ok (sh_ledger m) t'"
  shows "shared_ok b m'"
proof -
  have l: "limit (sh_ledger m') = limit (sh_ledger m)"
    by (rule limit_cong) (use assms(1,4) in \<open>simp add: shared_ok_def\<close>)
  have s: "seen_ok (sh_ledger m') = seen_ok (sh_ledger m)"
  proof
    fix t show "seen_ok (sh_ledger m') t = seen_ok (sh_ledger m) t" by (cases t) (simp_all add: l)
  qed
  have "sum_list (map f (sh_threads m')) + f t = sum_list (map f (sh_threads m)) + f t'" for f :: "thread \<Rightarrow> nat"
    using sum_list_swap [of i "sh_threads m" f t'] assms(2,3) by simp
  then have h: "held f m' + f t = held f m + f t'" for f by (simp add: held_def)
  have "led_total (sh_ledger m') = charged_bytes (sh_leases m') + held holds_total m'"
    using assms(1,5) h [of holds_total] by (simp add: shared_ok_def)
  moreover have "led_used (sh_ledger m') k = charged (sh_leases m') k + held (holds_used k) m'" for k
  proof -
    have "led_used (sh_ledger m) k = charged (sh_leases m) k + held (holds_used k) m" using assms(1) by (simp add: shared_ok_def)
    then show ?thesis using assms(6) [of k] h [of "holds_used k"] by linarith
  qed
  moreover have "\<forall>t\<in>set (sh_threads m'). seen_ok (sh_ledger m') t"
    using assms(1,3,10) set_update_subset_insert [of "sh_threads m" i t'] by (auto simp: shared_ok_def s)
  ultimately show ?thesis using assms(4,7-9) by (simp add: shared_ok_def l)
qed

lemma refused_at_iff: "lim \<le> usize_max \<Longrightarrow> refused_at cur lim a \<longleftrightarrow> lim < cur + a"
  by (auto simp: refused_at_def checked_add_def)

lemma goto_fields [simp]: "sh_ledger (goto m i t) = sh_ledger m" "sh_leases (goto m i t) = sh_leases m"
  "sh_threads (goto m i t) = (sh_threads m)[i := t]"
  by (simp_all add: goto_def)

lemma stay: "at m i t \<Longrightarrow> sh_threads m = (sh_threads m)[i := t]"
  by (metis list_update_id)

lemma shared_okD:
  assumes "shared_ok b m"
  shows "led_budget (sh_ledger m) = b" "led_total (sh_ledger m) = charged_bytes (sh_leases m) + held holds_total m"
    "led_total (sh_ledger m) \<le> total_bytes b" "led_used (sh_ledger m) k = charged (sh_leases m) k + held (holds_used k) m"
    "led_used (sh_ledger m) k \<le> limit (sh_ledger m) k" "led_peaks (sh_ledger m) k \<le> limit (sh_ledger m) k"
    "at m i t \<Longrightarrow> seen_ok (sh_ledger m) t"
  using assms by (auto simp: shared_ok_def)

lemma wsub_eq: "b \<le> a \<Longrightarrow> a \<le> usize_max \<Longrightarrow> wsub a b = a - b"
  using wsub_back [of "a - b" b] by simp

lemma ledger_step_keeps:
  assumes "ledger_step m m'" "shared_ok b m" "representable (sh_ledger m)"
  shows "shared_ok b m'"
proof -
  note ok = shared_okD [OF assms(2)]
  have lim: "limit (sh_ledger m) k \<le> usize_max" for k using assms(3) by (simp add: representable_def)
  have tb: "total_bytes b \<le> usize_max" using assms(3) ok(1) by (simp add: representable_def)
  have sub_total: "wsub (led_total (sh_ledger m)) a = led_total (sh_ledger m) - a" "a \<le> led_total (sh_ledger m)"
    if "at m i t" "holds_total t = a" for i t a
  proof -
    show "a \<le> led_total (sh_ledger m)" using held_ge [OF that(1), of holds_total] that(2) ok(2) by simp
    then show "wsub (led_total (sh_ledger m)) a = led_total (sh_ledger m) - a"
      by (rule wsub_eq) (rule order_trans [OF ok(3) tb])
  qed
  have sub_used: "wsub (led_used (sh_ledger m) k) a = led_used (sh_ledger m) k - a" "a \<le> led_used (sh_ledger m) k"
    if "at m i (DropUsed k a)" for i k a
  proof -
    show "a \<le> led_used (sh_ledger m) k" using held_ge [OF that, of "holds_used k"] ok(4) [of k] by simp
    then show "wsub (led_used (sh_ledger m) k) a = led_used (sh_ledger m) k - a"
      by (rule wsub_eq) (rule order_trans [OF ok(5) lim])
  qed
  show ?thesis using assms(1)
  proof cases
    case (acquire_nothing i k)
    show ?thesis by (rule shared_okI [OF assms(2) acquire_nothing(2), where t' = Idle])
        (use ok stay [OF acquire_nothing(2)] in \<open>simp_all add: acquire_nothing(1)\<close>)
  next
    case (acquire_bytes i amount k ceil)
    show ?thesis by (rule shared_okI [OF assms(2) acquire_bytes(2)], simp add: acquire_bytes(1)) (use ok acquire_bytes(4) in \<open>simp_all add: acquire_bytes(1)\<close>)
  next
    case (acquire_units i amount k ceil)
    show ?thesis by (rule shared_okI [OF assms(2) acquire_units(2)], simp add: acquire_units(1)) (use ok acquire_units in \<open>simp_all add: acquire_units(1)\<close>)
  next
    case (total_refuse i k amount ceil cur)
    show ?thesis by (rule shared_okI [OF assms(2) total_refuse(2)], simp add: total_refuse(1)) (use ok in \<open>simp_all add: total_refuse(1)\<close>)
  next
    case (total_retry i k amount ceil cur)
    show ?thesis by (rule shared_okI [OF assms(2) total_retry(2)], simp add: total_retry(1)) (use ok ok(7) [OF total_retry(2)] in \<open>simp_all add: total_retry(1)\<close>)
  next
    case (used_load i k amount ceil)
    show ?thesis by (rule shared_okI [OF assms(2) used_load(2)], simp add: used_load(1)) (use ok in \<open>simp_all add: used_load(1)\<close>)
  next
    case (used_refuse i k amount ceil cur)
    show ?thesis by (rule shared_okI [OF assms(2) used_refuse(2)], simp add: used_refuse(1)) (use ok in \<open>simp_all add: used_refuse(1)\<close>)
  next
    case (used_retry i k amount ceil cur)
    show ?thesis by (rule shared_okI [OF assms(2) used_retry(2)], simp add: used_retry(1)) (use ok in \<open>simp_all add: used_retry(1)\<close>)
  next
    case (used_take i k amount ceil cur)
    have "cur + amount \<le> limit (sh_ledger m) k"
      using used_take(3) lim [of k] by (simp add: refused_at_iff min_le_iff_disj)
    then show ?thesis by (intro shared_okI [OF assms(2) used_take(2)], simp add: used_take(1))
        (use ok used_take(4) in \<open>simp_all add: used_take(1)\<close>)
  next
    case (peak_load i k amount)
    show ?thesis by (rule shared_okI [OF assms(2) peak_load(2)], simp add: peak_load(1)) (use ok in \<open>simp_all add: peak_load(1)\<close>)
  next
    case (peak_max i k amount seen)
    have "seen \<le> limit (sh_ledger m) k" using ok(7) [OF peak_max(2)] by simp
    then show ?thesis by (intro shared_okI [OF assms(2) peak_max(2)], simp add: peak_max(1)) (use ok in \<open>simp_all add: peak_max(1)\<close>)
  next
    case (deny_full i k amount undo d)
    show ?thesis by (rule shared_okI [OF assms(2) deny_full(2)], simp add: deny_full(1)) (use ok in \<open>simp_all add: deny_full(1)\<close>)
  next
    case (deny_retry i k amount undo d)
    show ?thesis by (rule shared_okI [OF assms(2) deny_retry(2)], simp add: deny_retry(1)) (use ok in \<open>simp_all add: deny_retry(1)\<close>)
  next
    case (deny_count i k amount undo d)
    show ?thesis by (rule shared_okI [OF assms(2) deny_count(2)], simp add: deny_count(1)) (use ok in \<open>simp_all add: deny_count(1)\<close>)
  next
    case (rollback i k amount)
    show ?thesis by (rule shared_okI [OF assms(2) rollback(2)], simp add: rollback(1))
        (use ok sub_total [OF rollback(2), of amount] in \<open>simp_all add: rollback(1)\<close>)
  next
    case (drop_nothing i l ls)
    show ?thesis by (rule shared_okI [OF assms(2) drop_nothing(2), where t' = Idle])
        (use ok stay [OF drop_nothing(2)] drop_nothing(3,4) in \<open>simp_all add: drop_nothing(1)\<close>)
  next
    case (drop_start i l ls)
    show ?thesis by (rule shared_okI [OF assms(2) drop_start(2)], simp add: drop_start(1)) (use ok drop_start(3,4) in \<open>simp_all add: drop_start(1)\<close>)
  next
    case (shrink_start i l ls amount)
    show ?thesis by (rule shared_okI [OF assms(2) shrink_start(2)], simp add: shrink_start(1)) (use ok shrink_start(3,4) in \<open>simp_all add: shrink_start(1)\<close>)
  next
    case (drop_used i k amount)
    show ?thesis by (rule shared_okI [OF assms(2) drop_used(2)], simp add: drop_used(1))
        (use ok sub_used [OF drop_used(2)] in \<open>auto simp: drop_used(1) intro: order_trans [OF diff_le_self]\<close>)
  next
    case (drop_total i k amount)
    show ?thesis by (rule shared_okI [OF assms(2) drop_total(2)], simp add: drop_total(1))
        (use ok sub_total [OF drop_total(2), of amount] in \<open>simp_all add: drop_total(1)\<close>)
  next
    case (split_lease i l ls at' a c)
    show ?thesis by (rule shared_okI [OF assms(2) split_lease(2), where t' = Idle])
        (use ok stay [OF split_lease(2)] split_lease(3) lease_split_off_charges [OF split_lease(4), of ls] in
          \<open>simp_all add: split_lease(1) fun_eq_iff\<close>)
  next
    case (total_take i k amount ceil cur)
    have "cur + amount \<le> total_bytes b" using total_take(3) tb ok(1) by (simp add: refused_at_iff)
    then show ?thesis by (intro shared_okI [OF assms(2) total_take(2)], simp add: total_take(1))
        (use ok ok(7) [OF total_take(2)] total_take(4) in \<open>simp_all add: total_take(1)\<close>)
  qed
qed

lemma ledger_reachable_ok:
  assumes "ledger_reachable led0 n m" "ledger_new b = Ok led0" "representable led0"
  shows "shared_ok b m \<and> representable (sh_ledger m)"
  using assms
proof (induction rule: ledger_reachable.induct)
  case start
  have "led0 = \<lparr>led_budget = b, led_total = 0, led_used = (\<lambda>_. 0), led_peaks = (\<lambda>_. 0), led_denied = 0\<rparr>"
    using start(1) by (auto simp: ledger_new_def and_then_Ok_iff validate_Ok_iff)
  then show ?case using start(2) by (simp add: shared_ok_def held_def sum_list_replicate)
next
  case (step m m')
  then have ok: "shared_ok b m" "representable (sh_ledger m)" by simp_all
  have "shared_ok b m'" by (rule ledger_step_keeps [OF step.hyps(2) ok])
  moreover have "representable (sh_ledger m')"
    using ok(2) limit_cong [of "sh_ledger m'" "sh_ledger m"] shared_okD(1) [OF ok(1)] shared_okD(1) [OF calculation]
    by (simp add: representable_def)
  ultimately show ?case by simp
qed

section \<open>A thread on its own\<close>

text \<open>Run without interference, the atomic steps of an acquisition add up to \<open>try_acquire_within\<close>.\<close>

definition solo :: "shared \<Rightarrow> nat \<Rightarrow> ResourceLedger \<Rightarrow> BudgetLease multiset \<Rightarrow> thread \<Rightarrow> shared" where
  "solo m i led ls t = m\<lparr>sh_ledger := led, sh_leases := ls, sh_threads := (sh_threads m)[i := t]\<rparr>"

lemma solo_simps [simp]:
  "sh_ledger (solo m i led ls t) = led" "sh_leases (solo m i led ls t) = ls"
  "sh_threads (solo m i led ls t) = (sh_threads m)[i := t]"
  "goto (solo m i led ls t) i t' = solo m i led ls t'"
  "with_ledger (solo m i led ls t) led' = solo m i led' ls t"
  "(solo m i led ls t)\<lparr>sh_leases := ls'\<rparr> = solo m i led ls' t"
  by (simp_all add: solo_def goto_def)

lemma record_denial_eq:
  "record_denial led = (if led_denied led = usize_max then led else led\<lparr>led_denied := led_denied led + 1\<rparr>)"
  by (simp add: record_denial_def)

lemma solo_deny:
  assumes "i < length (sh_threads m)" "led_denied led \<le> usize_max"
  shows "ledger_step\<^sup>*\<^sup>* (solo m i led ls (Deny k amount undo (led_denied led)))
    (solo m i (record_denial led) ls (if undo then Rollback k amount else Idle))"
proof (rule r_into_rtranclp, cases "led_denied led = usize_max")
  case True
  then show "ledger_step (solo m i led ls (Deny k amount undo (led_denied led)))
    (solo m i (record_denial led) ls (if undo then Rollback k amount else Idle))"
    using deny_full [where m = "solo m i led ls (Deny k amount undo (led_denied led))" and i = i and k = k and d = "led_denied led"] assms
    by (simp add: record_denial_eq)
next
  case False
  then show "ledger_step (solo m i led ls (Deny k amount undo (led_denied led)))
    (solo m i (record_denial led) ls (if undo then Rollback k amount else Idle))"
    using deny_count [where m = "solo m i led ls (Deny k amount undo (led_denied led))" and i = i and k = k and d = "led_denied led"] assms
    by (simp add: record_denial_eq)
qed

lemma solo_used:
  assumes "i < length (sh_threads m)" "led_denied led \<le> usize_max" "representable led"
  shows "ledger_step\<^sup>*\<^sup>* (solo m i led ls (UsedLoad k amount ceil))
    (if led_used led k + amount \<le> min (limit led k) ceil
     then solo m i (led\<lparr>led_used := (led_used led)(k := led_used led k + amount),
         led_peaks := (led_peaks led)(k := max (led_peaks led k) (led_used led k + amount))\<rparr>)
       (add_mset \<lparr>lease_kind = k, lease_amount = amount\<rparr> ls) Idle
     else solo m i (if is_bytes k then (record_denial led)\<lparr>led_total := wsub (led_total led) amount\<rparr> else record_denial led) ls Idle)"
    (is "ledger_step\<^sup>*\<^sup>* ?a ?z")
proof -
  let ?c = "led_used led k"
  let ?b = "solo m i led ls (UsedCas k amount ceil ?c)"
  have ab: "ledger_step ?a ?b" using used_load [where m = ?a and i = i and k = k] assms(1) by simp
  have lim: "min (limit led k) ceil \<le> usize_max" using assms(3) by (auto simp: representable_def min_le_iff_disj)
  show ?thesis
  proof (cases "?c + amount \<le> min (limit led k) ceil")
    case True
    let ?led = "led\<lparr>led_used := (led_used led)(k := ?c + amount)\<rparr>"
    have "ledger_step ?b (solo m i ?led ls (PeakLoad k amount))"
      using used_take [where m = ?b and i = i and k = k and cur = ?c] assms(1) True refused_at_iff [OF lim] by simp
    moreover have "ledger_step (solo m i ?led ls (PeakLoad k amount)) (solo m i ?led ls (PeakMax k amount (?c + amount)))"
      using peak_load [where m = "solo m i ?led ls (PeakLoad k amount)" and i = i and k = k] assms(1) by simp
    moreover have "ledger_step (solo m i ?led ls (PeakMax k amount (?c + amount))) ?z"
      using peak_max [where m = "solo m i ?led ls (PeakMax k amount (?c + amount))" and i = i and k = k] assms(1) True by simp
    ultimately show ?thesis using ab by (meson converse_rtranclp_into_rtranclp r_into_rtranclp)
  next
    case False
    have "ledger_step ?b (solo m i led ls (Deny k amount (is_bytes k) (led_denied led)))"
      using used_refuse [where m = ?b and i = i and k = k and cur = ?c] assms(1) False refused_at_iff [OF lim] by simp
    moreover note solo_deny [OF assms(1,2), of ls k amount "is_bytes k"]
    moreover have "ledger_step\<^sup>*\<^sup>* (solo m i (record_denial led) ls (if is_bytes k then Rollback k amount else Idle)) ?z"
    proof (cases "is_bytes k")
      case True
      have "ledger_step (solo m i (record_denial led) ls (Rollback k amount)) ?z"
        using rollback [where m = "solo m i (record_denial led) ls (Rollback k amount)" and i = i and k = k] assms(1) False True
        by (auto simp: record_denial_def)
      then show ?thesis using True by simp
    next
      case no: False
      then show ?thesis using False by auto
    qed
    ultimately show ?thesis using ab by (meson converse_rtranclp_into_rtranclp rtranclp_trans)
  qed
qed

lemma solo_acquire:
  assumes "at m i Idle" "led_denied (sh_ledger m) \<le> usize_max" "representable (sh_ledger m)"
    "led_total (sh_ledger m) \<le> total_bytes (led_budget (sh_ledger m))"
    "try_acquire_within (sh_ledger m) k amount ceil = (r, led')"
  shows "ledger_step\<^sup>*\<^sup>* m (m\<lparr>sh_ledger := led', sh_leases := (case r of Ok l \<Rightarrow> add_mset l (sh_leases m) | _ \<Rightarrow> sh_leases m)\<rparr>)"
proof -
  let ?led = "sh_ledger m" and ?ls = "sh_leases m"
  have z: "m\<lparr>sh_ledger := led, sh_leases := ls\<rparr> = solo m i led ls Idle" for led ls
    using stay [OF assms(1)] by (cases m) (simp add: solo_def)
  have i: "i < length (sh_threads m)" using assms(1) by simp
  have tb: "total_bytes (led_budget ?led) \<le> usize_max" using assms(3) by (simp add: representable_def)
  show ?thesis
  proof (cases "amount = 0")
    case True
    then have r: "r = Ok \<lparr>lease_kind = k, lease_amount = 0\<rparr>" "led' = ?led" using assms(5) by (simp_all add: try_acquire_within_def)
    show ?thesis using acquire_nothing [OF assms(1), of k] by (simp add: r r_into_rtranclp)
  next
    case False
    show ?thesis
    proof (cases "is_bytes k")
      case True
      let ?b = "solo m i ?led ?ls (TotalCas k amount ceil (led_total ?led))"
      have "goto m i (TotalCas k amount ceil (led_total ?led)) = ?b" by (cases m) (simp add: goto_def solo_def)
      then have 1: "ledger_step m ?b" using acquire_bytes [OF assms(1) _ True, of amount ceil] False by (simp only: neq0_conv)
      show ?thesis
      proof (cases "led_total ?led + amount \<le> total_bytes (led_budget ?led)")
        case fit: True
        let ?led1 = "?led\<lparr>led_total := led_total ?led + amount\<rparr>"
        have 2: "ledger_step ?b (solo m i ?led1 ?ls (UsedLoad k amount ceil))"
          using total_take [where m = ?b and i = i and k = k and cur = "led_total ?led"] i fit refused_at_iff [OF tb] by simp
        have 3: "led_denied ?led1 \<le> usize_max" "representable ?led1" using assms(2,3) by (simp_all add: representable_def)
        have "min (limit ?led k) ceil \<le> usize_max" using assms(3) by (auto simp: representable_def min_le_iff_disj)
        then show ?thesis
          using solo_used [OF i 3, of ?ls k amount ceil] 1 2 assms(5) False True fit tb
          by (auto simp: z try_acquire_within_def reserve_eq Let_def record_denial_def split: if_splits
              intro: converse_rtranclp_into_rtranclp)
      next
        case unfit: False
        have 2: "ledger_step ?b (solo m i ?led ?ls (Deny k amount False (led_denied ?led)))"
          using total_refuse [where m = ?b and i = i and k = k and cur = "led_total ?led"] i unfit refused_at_iff [OF tb] by simp
        show ?thesis
          using solo_deny [OF i assms(2), of ?ls k amount False] 1 2 assms(5) False True unfit tb
          by (auto simp: z try_acquire_within_def reserve_eq Let_def intro: converse_rtranclp_into_rtranclp)
      qed
    next
      case units: False
      let ?b = "solo m i ?led ?ls (UsedLoad k amount ceil)"
      have "goto m i (UsedLoad k amount ceil) = ?b" by (cases m) (simp add: goto_def solo_def)
      then have 1: "ledger_step m ?b" using acquire_units [OF assms(1) _ units, of amount ceil] False by (simp only: neq0_conv)
      have "min (limit ?led k) ceil \<le> usize_max" using assms(3) by (auto simp: representable_def min_le_iff_disj)
      then show ?thesis
        using solo_used [OF i assms(2,3), of ?ls k amount ceil] 1 assms(5) False units
        by (auto simp: z try_acquire_within_def reserve_eq Let_def split: if_splits intro: converse_rtranclp_into_rtranclp)
    qed
  qed
qed

section \<open>Properties\<close>

text \<open>C21: an acquisition is granted exactly when it fits its pool, the ceiling asked for and the global byte
total. A grant adds one lease to the accounting and dropping it takes it out again; a refusal changes nothing but the
count of denials, and says how much was asked for.\<close>

theorem acquire_iff_fits:
  assumes "ledger_ok led ls"
  shows "case try_acquire_within led k amount ceil of
      (Ok l, led') \<Rightarrow> fits led k amount ceil \<and> ledger_ok led' (add_mset l ls) \<and> ledger_ok (drop_lease led' l) ls \<and>
        led_total (drop_lease led' l) = led_total led \<and> led_used (drop_lease led' l) = led_used led
    | (Err e, led') \<Rightarrow> \<not> fits led k amount ceil \<and> led' = record_denial led \<and> (\<exists>avail. e = Exhausted k amount avail)
    | (Panic, led') \<Rightarrow> False"
proof (cases "fits led k amount ceil")
  case True
  have rep: "representable led" using assms by (simp add: ledger_ok_def)
  obtain l led' where t: "try_acquire_within led k amount ceil = (Ok l, led')" using try_acquire_granted [OF rep True] by blast
  note k = try_acquire_keeps [OF assms t]
  have "ledger_ok (drop_lease led' l) ls" by (rule drop_lease_keeps [OF k(1)])
  then show ?thesis using t True k(1) assms by (auto simp: ledger_ok_def fun_eq_iff)
next
  case False
  have "representable led" "led_total led \<le> total_bytes (led_budget led)" using assms by (simp_all add: ledger_ok_def)
  then show ?thesis using try_acquire_refused [OF _ False] False by force
qed

lemma acquire_iff_fits_witness:
  "\<exists>led. ledger_new (profile_budget Mobile) = Ok led \<and>
     (case try_acquire_within led TcpPayloadBytes 1000 (tcp_receive_ceiling (led_budget led)) of
        (Ok l, led') \<Rightarrow> ledger_ok led' {#l#} \<and> led_used (drop_lease led' l) = led_used led
      | _ \<Rightarrow> False)"
proof -
  define led where "led = \<lparr>led_budget = profile_budget Mobile, led_total = 0, led_used = (\<lambda>_. 0),
      led_peaks = (\<lambda>_. 0), led_denied = 0\<rparr>"
  have new: "ledger_new (profile_budget Mobile) = Ok led" by (simp add: ledger_new_def profile_valid led_def)
  have ok: "ledger_ok led {#}"
    by (simp add: ledger_ok_def representable_def led_def limit_def profile_budget_def split: ResourceKind.split)
  have f: "fits led TcpPayloadBytes 1000 (tcp_receive_ceiling (led_budget led))"
    by (simp add: fits_def led_def limit_def profile_budget_def tcp_receive_ceiling_def)
  show ?thesis
    using acquire_iff_fits [OF ok, of TcpPayloadBytes 1000 "tcp_receive_ceiling (led_budget led)"] new f
    by (intro exI [of _ led]) (auto split: prod.splits res.splits)
qed

text \<open>C22: whatever threads interleave their acquisitions, refusals, shrinks and drops, no pool and not the
global byte total is ever overcommitted, the counters always cover the leases handed out, and once
no call is in progress they are exactly the sums of the live leases: nothing is leaked or freed twice.\<close>

theorem ledger_never_overcommits:
  assumes "ledger_new b = Ok led0" "representable led0" "ledger_reachable led0 n m"
  shows "led_total (sh_ledger m) \<le> total_bytes b \<and> (\<forall>k. led_used (sh_ledger m) k \<le> limit led0 k) \<and>
    charged_bytes (sh_leases m) \<le> led_total (sh_ledger m) \<and> (\<forall>k. charged (sh_leases m) k \<le> led_used (sh_ledger m) k) \<and>
    (set (sh_threads m) \<subseteq> {Idle} \<longrightarrow> led_total (sh_ledger m) = charged_bytes (sh_leases m) \<and>
      led_used (sh_ledger m) = charged (sh_leases m))"
proof -
  have ok: "shared_ok b m" using ledger_reachable_ok [OF assms(3,1,2)] by simp
  have "led_budget led0 = b" using assms(1) by (auto simp: ledger_new_def and_then_Ok_iff validate_Ok_iff)
  then have l: "limit (sh_ledger m) = limit led0" using shared_okD(1) [OF ok] by (intro limit_cong) simp
  have idle: "held f m = 0" if "set (sh_threads m) \<subseteq> {Idle}" "f Idle = 0" for f
    using that by (auto simp: held_def)
  show ?thesis using shared_okD [OF ok] idle [of holds_total] idle [of "holds_used _"]
    by (auto simp: l [symmetric] fun_eq_iff)
qed

lemma ledger_never_overcommits_witness:
  "\<exists>led0 m. ledger_new (profile_budget Router) = Ok led0 \<and> ledger_reachable led0 2 m \<and>
     charged (sh_leases m) PacketBytes = 1500 \<and> led_used (sh_ledger m) PacketBytes \<le> 3932160"
proof -
  define led0 where "led0 = \<lparr>led_budget = profile_budget Router, led_total = 0, led_used = (\<lambda>_. 0),
      led_peaks = (\<lambda>_. 0), led_denied = 0\<rparr>"
  define m0 where "m0 = \<lparr>sh_ledger = led0, sh_leases = {#}, sh_threads = replicate 2 Idle\<rparr>"
  have new: "ledger_new (profile_budget Router) = Ok led0" by (simp add: ledger_new_def profile_valid led0_def)
  have rep: "representable led0"
    by (simp add: representable_def led0_def limit_def profile_budget_def split: ResourceKind.split)
  obtain r led where t: "try_acquire_within led0 PacketBytes 1500 usize_max = (r, led)" by fastforce
  have r: "r = Ok \<lparr>lease_kind = PacketBytes, lease_amount = 1500\<rparr>"
    using try_acquire_granted [OF rep, of PacketBytes 1500 usize_max] t
    by (simp add: fits_def led0_def limit_def profile_budget_def)
  define m where "m = m0\<lparr>sh_ledger := led, sh_leases := {#\<lparr>lease_kind = PacketBytes, lease_amount = 1500\<rparr>#}\<rparr>"
  have "ledger_step\<^sup>*\<^sup>* m0 m"
    using solo_acquire [where m = m0 and i = 0 and k = PacketBytes and amount = 1500 and ceil = usize_max and r = r and led' = led] t rep by (simp add: m0_def m_def r led0_def)
  then have "ledger_reachable led0 2 m"
    by (induction rule: rtranclp_induct) (auto simp: m0_def intro: ledger_reachable.intros)
  moreover from ledger_never_overcommits [OF new rep this]
  have "led_used (sh_ledger m) PacketBytes \<le> limit led0 PacketBytes" by blast
  ultimately show ?thesis using new
    by (intro exI [of _ led0] exI [of _ m]) (simp add: m_def led0_def limit_def profile_budget_def)
qed

end
