(* ===== verification/Checksum.thy ===== *)
theory Checksum
  imports Prelude
begin

unbundle bit_operations_syntax

text \<open>
  The Internet checksum of \<open>sail-netstack/src/wire.rs\<close>: the vectorisable accumulation over
  32-bit machine words, the two folding loops, and the word-at-a-time RFC 1071 sum that the
  module's own test compares it with.  \<open>le\<close> is \<open>cfg!(target_endian = "little")\<close>.

  Shown: the folding loops compute the one's-complement normal form \<open>ocs\<close>; the wide sum
  equals the RFC 1071 sum in either byte order; what \<open>checksum_accumulate\<close> returns stays below
  \<open>2^19\<close>; a block whose checksum field holds the complement of its sum verifies to \<open>0xffff\<close>.
\<close>

section \<open>Definitions\<close>

function fold_wide_checksum :: "u64 \<Rightarrow> u16" where
  "fold_wide_checksum acc =
     (if drop_bit 16 acc \<noteq> 0 then fold_wide_checksum ((acc AND 0xffff) + drop_bit 16 acc)
      else ucast acc)"
  by pat_completeness auto

function fold_checksum :: "u32 \<Rightarrow> u16" where
  "fold_checksum acc =
     (if drop_bit 16 acc \<noteq> 0 then fold_checksum ((acc AND 0xffff) + drop_bit 16 acc)
      else ucast acc)"
  by pat_completeness auto

lemma unat_drop16: "unat (drop_bit 16 (s :: 'a::len word)) = unat s div 65536"
  by (simp add: unat_drop_div)

lemma fold_step_unat:
  fixes s :: "'a::len word"
  assumes "16 < LENGTH('a)" "drop_bit 16 s \<noteq> 0"
  shows "unat ((s AND 0xffff) + drop_bit 16 s) = unat s mod 65536 + unat s div 65536"
    and "unat s mod 65536 + unat s div 65536 < unat s"
proof -
  have a: "unat (s AND 0xffff) = unat s mod 65536"
  proof -
    have "(0xffff :: 'a word) = mask 16" by (simp add: mask_eq_exp_minus_1)
    then have "s AND 0xffff = take_bit 16 s" by (simp add: take_bit_eq_mask)
    then have "unat (s AND 0xffff) = take_bit 16 (unat s)" by (simp only: unsigned_take_bit_eq)
    then show ?thesis by (simp only: take_bit_eq_mod) simp
  qed
  note d = unat_drop16 [of s]
  have q: "1 \<le> unat s div 65536"
  proof -
    have "unat (drop_bit 16 s) \<noteq> 0" using assms(2) by (simp add: unsigned_eq_0_iff)
    then show ?thesis using d by linarith
  qed
  have s: "unat s = 65536 * (unat s div 65536) + unat s mod 65536" by simp
  show lt: "unat s mod 65536 + unat s div 65536 < unat s" using q s by linarith
  have "unat s < 2 ^ LENGTH('a)" by (rule unsigned_less)
  then have "unat (s AND 0xffff) + unat (drop_bit 16 s) < 2 ^ LENGTH('a)" using lt a d by linarith
  then show "unat ((s AND 0xffff) + drop_bit 16 s) = unat s mod 65536 + unat s div 65536"
    by (simp add: unat_word_ariths a d)
qed

termination fold_wide_checksum
  by (relation "measure unat") (use fold_step_unat [where ?'a = 64] in auto)

termination fold_checksum
  by (relation "measure unat") (use fold_step_unat [where ?'a = 32] in auto)

text \<open>\<open>u32::from_ne_bytes\<close> on either kind of target.\<close>

definition ne32 :: "bool \<Rightarrow> u8 \<Rightarrow> u8 \<Rightarrow> u8 \<Rightarrow> u8 \<Rightarrow> u32" where
  "ne32 le a b c d = (if le then le32 a b c d else be32 a b c d)"

definition swap_bytes16 :: "u16 \<Rightarrow> u16" where
  "swap_bytes16 w = word_of_nat (unat w mod 256 * 256 + unat w div 256)"

text \<open>The loops over \<open>as_chunks::<4>\<close> and \<open>as_chunks::<2>\<close>, each returning what is left over.\<close>

fun sum_quads :: "bool \<Rightarrow> bytes \<Rightarrow> u64 \<Rightarrow> u64 \<times> bytes" where
  "sum_quads le (a # b # c # d # rest) wide = sum_quads le rest (wide + ucast (ne32 le a b c d))"
| "sum_quads le rest wide = (wide, rest)"

fun sum_pairs :: "bytes \<Rightarrow> u32 \<Rightarrow> u32 \<times> bytes" where
  "sum_pairs (a # b # rest) acc = sum_pairs rest (acc + ucast (be16 a b))"
| "sum_pairs rest acc = (acc, rest)"

definition checksum_accumulate :: "bool \<Rightarrow> bytes \<Rightarrow> u32 \<Rightarrow> u32" where
  "checksum_accumulate le bytes acc =
     (let (wide, rest) = sum_quads le bytes 0;
          folded = fold_wide_checksum wide;
          folded = (if le then swap_bytes16 folded else folded);
          acc = ucast (fold_wide_checksum (ucast acc)) + ucast folded;
          (acc, odd) = sum_pairs rest acc
      in case odd of [] \<Rightarrow> acc | byte # _ \<Rightarrow> acc + push_bit 8 (ucast byte))"

definition checksum_sum :: "bool \<Rightarrow> bytes \<Rightarrow> u32 \<Rightarrow> u16" where
  "checksum_sum le bytes initial = fold_checksum (checksum_accumulate le bytes initial)"

definition finalize_checksum :: "u16 \<Rightarrow> u16" where
  "finalize_checksum acc = NOT acc"

text \<open>The word-at-a-time acc of RFC 1071, as the module's test states it.\<close>

fun word_sum :: "bytes \<Rightarrow> nat" where
  "word_sum [] = 0"
| "word_sum [a] = unat a * 256"
| "word_sum (a # b # rest) = unat (be16 a b) + word_sum rest"

definition reference_sum :: "bytes \<Rightarrow> u32 \<Rightarrow> u16" where
  "reference_sum bytes initial = fold_wide_checksum (ucast initial + word_of_nat (word_sum bytes))"

text \<open>One's-complement normal form of a acc: zero only for zero, else in \<open>1..65535\<close>.\<close>

definition ocs :: "nat \<Rightarrow> nat" where
  "ocs n = (if n = 0 then 0 else if n mod 65535 = 0 then 65535 else n mod 65535)"

text \<open>The plain sum of the 32-bit machine words, and what is left over.\<close>

fun quad_sum :: "bool \<Rightarrow> bytes \<Rightarrow> nat" where
  "quad_sum le (a # b # c # d # rest) = unat (ne32 le a b c d) + quad_sum le rest"
| "quad_sum le rest = 0"

fun quad_rest :: "bytes \<Rightarrow> bytes" where
  "quad_rest (a # b # c # d # rest) = quad_rest rest"
| "quad_rest rest = rest"

definition quad_scale :: "bool \<Rightarrow> nat" where
  "quad_scale le = (if le then 256 else 1)"

section \<open>Folding\<close>

lemma ocs_le [simp]: "ocs n \<le> 65535"
proof -
  have "n mod 65535 < 65535" by simp
  then show ?thesis unfolding ocs_def by (auto simp del: mod_less_divisor)
qed

lemma ocs_cong: "m mod 65535 = n mod 65535 \<Longrightarrow> (m = 0 \<longleftrightarrow> n = 0) \<Longrightarrow> ocs m = ocs n"
  by (simp add: ocs_def)

lemma ocs_0_iff [simp]: "ocs n = 0 \<longleftrightarrow> n = 0"
  by (auto simp: ocs_def)

lemma ocs_mod [simp]: "ocs n mod 65535 = n mod 65535"
  by (simp add: ocs_def)

lemma ocs_ocs [simp]: "ocs (ocs n) = ocs n"
  by (rule ocs_cong) simp_all

lemma ocs_small: "n \<le> 65535 \<Longrightarrow> ocs n = n"
  by (cases "n = 65535") (auto simp: ocs_def)

lemma ocs_add: "ocs (ocs m + n) = ocs (m + n)" "ocs (m + ocs n) = ocs (m + n)"
proof -
  show "ocs (ocs m + n) = ocs (m + n)" for m n
  proof (rule ocs_cong)
    show "(ocs m + n) mod 65535 = (m + n) mod 65535" by (metis mod_add_left_eq ocs_mod)
  qed simp
  from this [of n m] show "ocs (m + ocs n) = ocs (m + n)" by (simp add: add.commute)
qed

lemma fold_mod: "(n mod 65536 + n div 65536) mod 65535 = n mod (65535 :: nat)"
proof -
  have "n = n mod 65536 + n div 65536 + 65535 * (n div 65536)"
    using div_mult_mod_eq [of n 65536] by linarith
  then show ?thesis by (metis mod_mult_self2)
qed

lemma ocs_fold_step: "0 < n div 65536 \<Longrightarrow> ocs (n mod 65536 + n div 65536) = ocs n"
  by (rule ocs_cong) (use fold_mod in \<open>auto simp: div_greater_zero_iff\<close>)

lemma drop16_0_iff:
  fixes s :: "'a::len word"
  shows "drop_bit 16 s = 0 \<longleftrightarrow> unat s < 65536"
proof -
  have "drop_bit 16 s = 0 \<longleftrightarrow> unat (drop_bit 16 s) = 0"
    by (simp add: unsigned_eq_0_iff)
  then show ?thesis by (simp add: unat_drop16 div_eq_0_iff)
qed

lemma unat_ucast_small:
  fixes s :: "'a::len word"
  assumes "unat s < 65536" shows "unat (ucast s :: u16) = unat s"
proof -
  have "unat (ucast s :: u16) = take_bit 16 (unat s)" by (simp add: unsigned_ucast_eq)
  then show ?thesis using assms by (simp add: take_bit_nat_eq_self)
qed

declare fold_wide_checksum.simps [simp del] fold_checksum.simps [simp del]

lemma unat_fold_wide: "unat (fold_wide_checksum s) = ocs (unat s)"
proof (induction s rule: fold_wide_checksum.induct)
  case (1 s)
  show ?case
  proof (cases "drop_bit 16 s = 0")
    case True
    then have s: "unat s < 65536" by (simp add: drop16_0_iff)
    have "fold_wide_checksum s = ucast s" using True by (simp add: fold_wide_checksum.simps [of s])
    with s show ?thesis by (simp add: unat_ucast_small ocs_small)
  next
    case False
    then have "0 < unat s div 65536" by (simp add: drop16_0_iff div_greater_zero_iff)
    with False 1 show ?thesis
      by (simp add: fold_wide_checksum.simps [of s] fold_step_unat ocs_fold_step)
  qed
qed

lemma unat_fold: "unat (fold_checksum s) = ocs (unat s)"
proof (induction s rule: fold_checksum.induct)
  case (1 s)
  show ?case
  proof (cases "drop_bit 16 s = 0")
    case True
    then have s: "unat s < 65536" by (simp add: drop16_0_iff)
    have "fold_checksum s = ucast s" using True by (simp add: fold_checksum.simps [of s])
    with s show ?thesis by (simp add: unat_ucast_small ocs_small)
  next
    case False
    then have "0 < unat s div 65536" by (simp add: drop16_0_iff div_greater_zero_iff)
    with False 1 show ?thesis
      by (simp add: fold_checksum.simps [of s] fold_step_unat ocs_fold_step)
  qed
qed

section \<open>The wide accumulation\<close>

lemma quad_sum_bound: "quad_sum le bs \<le> length bs * 1073741824"
proof (induction le bs rule: quad_sum.induct)
  case (1 le a b c d rest)
  have "unat (ne32 le a b c d) \<le> 4294967295" by simp
  then have "unat (ne32 le a b c d) + quad_sum le rest \<le> 4294967296 + length rest * 1073741824"
    using 1 by linarith
  then show ?case by simp
qed simp_all

lemma sum_quads_eq:
  "unat wide + quad_sum le bs < 18446744073709551616 \<Longrightarrow>
   unat (fst (sum_quads le bs wide)) = unat wide + quad_sum le bs \<and>
   snd (sum_quads le bs wide) = quad_rest bs"
proof (induction le bs wide rule: sum_quads.induct)
  case (1 le a b c d rest wide)
  have u: "unat (ucast (ne32 le a b c d) :: u64) = unat (ne32 le a b c d)"
    by (rule unat_ucast_up) simp
  have "unat (wide + ucast (ne32 le a b c d)) = unat wide + unat (ne32 le a b c d)"
    using 1(2) by (simp add: unat_word_ariths u)
  with 1 show ?case by simp
qed simp_all

lemma unat_swap: "unat (swap_bytes16 w) = unat w mod 256 * 256 + unat w div 256"
proof -
  have "unat w div 256 < 256" using unat_u16_bound(1) [of w] by (simp add: div_less_iff_less_mult)
  then have "unat w div 256 \<le> 255" by linarith
  moreover have "unat w mod 256 \<le> 255" by (simp add: less_Suc_eq_le [symmetric])
  ultimately have "unat w mod 256 * 256 + unat w div 256 < 65536" by linarith
  then show ?thesis by (simp only: swap_bytes16_def unat_of_nat) simp
qed

lemma swap_mod: "unat (swap_bytes16 w) mod 65535 = unat w * 256 mod 65535"
proof -
  have "unat w = 256 * (unat w div 256) + unat w mod 256" by simp
  then have "unat w * 256 = unat w mod 256 * 256 + unat w div 256 + 65535 * (unat w div 256)"
    by linarith
  then show ?thesis unfolding unat_swap by (metis mod_mult_self2)
qed

lemma swap_0_iff: "unat (swap_bytes16 w) = 0 \<longleftrightarrow> unat w = 0"
  unfolding unat_swap by (metis add_is_0 div_mult_mod_eq mult_eq_0_iff zero_neq_numeral)

text \<open>Byte-swapping a folded sum is multiplication by 256 modulo 65535.\<close>

lemma ocs_swap: "ocs (unat (swap_bytes16 w)) = ocs (unat w * 256)"
  by (rule ocs_cong) (simp_all add: swap_mod swap_0_iff)

lemma quad_mod_be:
  "(unat (be32 a b c d) + m) mod 65535 = (unat (be16 a b) + unat (be16 c d) + m) mod 65535"
proof -
  have "unat (be32 a b c d) + m = unat (be16 a b) + unat (be16 c d) + m + 65535 * unat (be16 a b)"
    by (simp add: unat_be32 unat_be16)
  then show ?thesis by (simp only: mod_mult_self2)
qed

lemma quad_mod_le:
  "(unat (le32 a b c d) * 256 + m) mod 65535 = (unat (be16 a b) + unat (be16 c d) + m) mod 65535"
proof -
  have "unat (le32 a b c d) * 256 + m = unat (be16 a b) + unat (be16 c d) + m
     + 65535 * (unat b + unat c * 256 + unat d * 65537)"
    by (simp add: le32_def unat_be32 unat_be16)
  then show ?thesis by (simp only: mod_mult_self2)
qed

lemma quad_mod:
  "(unat (ne32 le a b c d) * quad_scale le + m) mod 65535
     = (unat (be16 a b) + unat (be16 c d) + m) mod 65535"
  by (cases le) (simp_all add: ne32_def quad_scale_def quad_mod_be quad_mod_le)

lemma quad_0_iff: "unat (ne32 le a b c d) = 0 \<longleftrightarrow> unat (be16 a b) = 0 \<and> unat (be16 c d) = 0"
  by (cases le) (auto simp: ne32_def le32_def unat_be32 unat_be16)

lemma word_sum_quads:
  "(quad_sum le bs * quad_scale le + word_sum (quad_rest bs)) mod 65535 = word_sum bs mod 65535"
  "quad_sum le bs = 0 \<and> word_sum (quad_rest bs) = 0 \<longleftrightarrow> word_sum bs = 0"
proof (induction le bs rule: quad_sum.induct)
  case (1 le a b c d rest)
  {
    case 1
    have "(quad_sum le (a # b # c # d # rest) * quad_scale le + word_sum (quad_rest rest)) mod 65535
      = (unat (ne32 le a b c d) * quad_scale le
          + (quad_sum le rest * quad_scale le + word_sum (quad_rest rest))) mod 65535"
      by (simp add: algebra_simps)
    also have "\<dots> = (unat (be16 a b) + unat (be16 c d)
        + (quad_sum le rest * quad_scale le + word_sum (quad_rest rest))) mod 65535"
      by (rule quad_mod)
    also have "\<dots> = (unat (be16 a b) + unat (be16 c d) + word_sum rest) mod 65535"
      using "1.IH"(1) by (metis mod_add_right_eq)
    finally show ?case by (simp add: add.assoc)
  next
    case 2
    show ?case using "1.IH"(2) quad_0_iff [of le a b c d] by auto
  }
qed (simp_all add: quad_scale_def)

lemma length_quad_rest: "length (quad_rest bs) < 4"
  by (induction bs rule: quad_rest.induct) simp_all

lemma word_sum_short: "length bs < 4 \<Longrightarrow> word_sum bs \<le> 130815"
proof -
  assume "length bs < 4"
  then consider "bs = []" | a where "bs = [a]" | a b where "bs = [a, b]" | a b c where "bs = [a, b, c]"
    by (cases bs; cases "tl bs"; cases "tl (tl bs)"; cases "tl (tl (tl bs))") auto
  then show ?thesis
  proof cases
    case (2 a) then show ?thesis using unat_u8_bound(2) [of a] by (simp del: unat_u8_bound)
  next
    case (3 a b) then show ?thesis using unat_u16_bound(2) [of "be16 a b"] by (simp del: unat_u16_bound)
  next
    case (4 a b c)
    then show ?thesis using unat_u16_bound(2) [of "be16 a b"] unat_u8_bound(2) [of c]
      by (simp del: unat_u8_bound unat_u16_bound)
  qed simp
qed

text \<open>The tail of fewer than four bytes, added to a sum that leaves room for it.\<close>

definition add_tail :: "bytes \<Rightarrow> u32 \<Rightarrow> u32" where
  "add_tail rest acc =
     (let (acc, odd) = sum_pairs rest acc
      in case odd of [] \<Rightarrow> acc | byte # _ \<Rightarrow> acc + push_bit 8 (ucast byte))"

lemma unat_push8: "unat (push_bit 8 (ucast (x :: u8)) :: u32) = unat x * 256"
proof -
  have u: "unat (ucast x :: u32) = unat x" by (rule unat_ucast_up) simp
  have "push_bit 8 (ucast x :: u32) = ucast x * 256" by (simp add: push_bit_eq_mult)
  moreover have "unat x * 256 < 4294967296" using unat_u8_bound(2) [of x] by linarith
  ultimately show ?thesis by (simp add: unat_word_ariths u)
qed

lemma unat_add_tail:
  assumes "unat acc + word_sum rest < 4294967296"
  shows "unat (add_tail rest acc) = unat acc + word_sum rest"
  using assms
proof (induction rest acc rule: sum_pairs.induct)
  case (1 a b rest acc)
  have u: "unat (ucast (be16 a b) :: u32) = unat (be16 a b)" by (rule unat_ucast_up) simp
  have "unat (acc + ucast (be16 a b)) = unat acc + unat (be16 a b)"
    using 1(2) by (simp add: unat_word_ariths u)
  with 1 show ?case by (simp add: add_tail_def)
qed (simp_all add: add_tail_def unat_word_ariths unat_push8)

lemma checksum_accumulate_eq:
  assumes "length bs < 17179869184"
  shows "unat (checksum_accumulate le bs s) =
     ocs (unat s) + (if le then unat (swap_bytes16 (fold_wide_checksum (fst (sum_quads le bs 0))))
                     else ocs (quad_sum le bs)) + word_sum (quad_rest bs)"
    and "unat (fold_wide_checksum (fst (sum_quads le bs 0))) = ocs (quad_sum le bs)"
proof -
  have "quad_sum le bs \<le> length bs * 1073741824" by (rule quad_sum_bound)
  also have "\<dots> < 18446744073709551616" using assms by simp
  finally have q: "unat (fst (sum_quads le bs 0)) = quad_sum le bs"
    and r: "snd (sum_quads le bs 0) = quad_rest bs"
    using sum_quads_eq [of 0 le bs] by simp_all
  show w: "unat (fold_wide_checksum (fst (sum_quads le bs 0))) = ocs (quad_sum le bs)"
    by (simp add: unat_fold_wide q)
  define f where "f = (if le then swap_bytes16 (fold_wide_checksum (fst (sum_quads le bs 0)))
                       else fold_wide_checksum (fst (sum_quads le bs 0)))"
  define acc :: u32 where "acc = ucast (fold_wide_checksum (ucast s)) + ucast f"
  have u: "unat (ucast x :: u32) = unat x" for x :: u16 by (rule unat_ucast_up) simp
  have us: "unat (ucast s :: u64) = unat s" by (rule unat_ucast_up) simp
  have "ocs (unat s) \<le> 65535" "unat f \<le> 65535" by simp_all
  then have "ocs (unat s) + unat f < 4294967296" by linarith
  then have acc: "unat acc = ocs (unat s) + unat f"
    by (simp add: acc_def unat_word_ariths u unat_fold_wide us)
  have "word_sum (quad_rest bs) \<le> 130815" by (rule word_sum_short [OF length_quad_rest])
  then have "unat acc + word_sum (quad_rest bs) < 4294967296"
    using acc ocs_le [of "unat s"] unat_u16_bound(2) [of f] by linarith
  then have "unat (add_tail (quad_rest bs) acc) = ocs (unat s) + unat f + word_sum (quad_rest bs)"
    by (simp add: unat_add_tail acc)
  moreover have "checksum_accumulate le bs s = add_tail (quad_rest bs) acc"
    by (simp add: checksum_accumulate_def add_tail_def acc_def f_def Let_def split_beta r)
  ultimately show "unat (checksum_accumulate le bs s) =
     ocs (unat s) + (if le then unat (swap_bytes16 (fold_wide_checksum (fst (sum_quads le bs 0))))
                     else ocs (quad_sum le bs)) + word_sum (quad_rest bs)"
    by (cases le) (use w in \<open>simp_all add: f_def\<close>)
qed

text \<open>The sum every later proof works with: modulo 65535 over the big-endian 16-bit words.\<close>

lemma unat_checksum_sum:
  assumes "length bs < 17179869184"
  shows "unat (checksum_sum le bs s) = ocs (unat s + word_sum bs)"
proof -
  define F where "F = (if le then unat (swap_bytes16 (fold_wide_checksum (fst (sum_quads le bs 0))))
                     else ocs (quad_sum le bs))"
  have F: "ocs F = ocs (quad_sum le bs * quad_scale le)"
  proof (cases le)
    case True
    have "ocs (ocs (quad_sum True bs) * 256) = ocs (quad_sum True bs * 256)"
      by (rule ocs_cong) (metis mod_mult_left_eq ocs_mod, simp)
    with True show ?thesis
      using checksum_accumulate_eq(2) [OF assms, of True]
      by (simp add: F_def ocs_swap quad_scale_def)
  qed (simp add: F_def quad_scale_def)
  have "unat (checksum_sum le bs s) = ocs (ocs (unat s) + F + word_sum (quad_rest bs))"
    by (simp add: checksum_sum_def unat_fold checksum_accumulate_eq(1) [OF assms] F_def)
  also have "\<dots> = ocs (unat s + (ocs F + word_sum (quad_rest bs)))"
    by (metis ocs_add add.assoc add.commute)
  also have "\<dots> = ocs (unat s + (quad_sum le bs * quad_scale le + word_sum (quad_rest bs)))"
    unfolding F by (metis ocs_add)
  also have "\<dots> = ocs (unat s + word_sum bs)"
  proof (rule ocs_cong)
    show "(unat s + (quad_sum le bs * quad_scale le + word_sum (quad_rest bs))) mod 65535
        = (unat s + word_sum bs) mod 65535"
      using word_sum_quads(1) by (metis mod_add_right_eq)
    show "unat s + (quad_sum le bs * quad_scale le + word_sum (quad_rest bs)) = 0 \<longleftrightarrow>
       unat s + word_sum bs = 0"
      using word_sum_quads(2) [of le bs] by (auto simp: quad_scale_def)
  qed
  finally show ?thesis .
qed

lemma word_sum_bound: "word_sum bs \<le> (length bs + 1) * 65535"
proof (induction bs rule: word_sum.induct)
  case (2 a)
  then show ?case using unat_u8_bound(2) [of a] by (simp del: unat_u8_bound)
next
  case (3 a b rest)
  then show ?case using unat_u16_bound(2) [of "be16 a b"] by (simp del: unat_u16_bound)
qed simp

lemma unat_reference_sum:
  assumes "length bs < 17179869184"
  shows "unat (reference_sum bs s) = ocs (unat s + word_sum bs)"
proof -
  have us: "unat (ucast s :: u64) = unat s" by (rule unat_ucast_up) simp
  have w: "word_sum bs \<le> (length bs + 1) * 65535" by (rule word_sum_bound)
  have "(length bs + 1) * 65535 \<le> 1125899906842624" using assms by simp
  with w have w': "word_sum bs \<le> 1125899906842624" by linarith
  then have uw: "unat (word_of_nat (word_sum bs) :: u64) = word_sum bs"
    by (simp only: unat_of_nat) simp
  have "unat s + word_sum bs < 18446744073709551616" using w' unat_u32_bound(2) [of s] by linarith
  then have "unat (ucast s + word_of_nat (word_sum bs) :: u64) = unat s + word_sum bs"
    by (simp add: unat_word_ariths us uw)
  then show ?thesis by (simp add: reference_sum_def unat_fold_wide)
qed

lemma checksum_accumulate_small:
  assumes "length bs < 17179869184"
  shows "unat (checksum_accumulate le bs acc) < 2 ^ 19"
proof -
  have "word_sum (quad_rest bs) \<le> 130815" by (rule word_sum_short [OF length_quad_rest])
  moreover have "(if le then unat (swap_bytes16 (fold_wide_checksum (fst (sum_quads le bs 0))))
                  else ocs (quad_sum le bs)) \<le> 65535" by simp
  ultimately have "unat (checksum_accumulate le bs acc) \<le> 65535 + 65535 + 130815"
    unfolding checksum_accumulate_eq(1) [OF assms] using ocs_le [of "unat acc"] by linarith
  then show ?thesis by simp
qed

section \<open>Blocks that carry their own checksum\<close>

lemma word_sum_append: "even (length xs) \<Longrightarrow> word_sum (xs @ ys) = word_sum xs + word_sum ys"
  by (induction xs rule: word_sum.induct) simp_all

lemma unat_finalize: "unat (finalize_checksum w) = 65535 - unat w"
proof -
  have m: "unat (- 1 :: u16) = 65535" by (simp add: unsigned_minus_1_eq_mask mask_eq_exp_minus_1)
  have "NOT w = - 1 - w" by (simp add: not_eq_complement)
  moreover have "w \<le> - 1" by simp
  ultimately show ?thesis unfolding finalize_checksum_def by (simp only: unat_sub m)
qed

lemma word_sum_to_be16: "word_sum (to_be16 w @ ys) = unat w + word_sum ys"
  by (simp add: to_be16_def)

lemma ocs_complement: "ocs (n + (65535 - ocs n)) = 65535"
proof -
  have "ocs (n + (65535 - ocs n)) = ocs (ocs n + (65535 - ocs n))" by (simp only: ocs_add)
  also have "\<dots> = ocs 65535" using ocs_le [of n] by simp
  finally show ?thesis by (simp add: ocs_small)
qed

lemma checksum_field:
  assumes "even (length pre)" "length pre + length post < 17179869180"
    and "w = finalize_checksum (checksum_sum le (pre @ [0, 0] @ post) s)"
  shows "checksum_sum le (pre @ to_be16 w @ post) s = 0xffff"
proof -
  define S where "S = unat s + word_sum (pre @ [0, 0] @ post)"
  have S: "S = unat s + (word_sum pre + word_sum post)"
    by (simp only: S_def word_sum_append [OF assms(1)]) (simp add: be16_def)
  have w: "unat w = 65535 - ocs S"
    using assms by (simp add: unat_finalize unat_checksum_sum S_def)
  have "unat (checksum_sum le (pre @ to_be16 w @ post) s)
      = ocs (unat s + (word_sum pre + (unat w + word_sum post)))"
    using assms by (simp add: unat_checksum_sum word_sum_append word_sum_to_be16)
  also have "unat s + (word_sum pre + (unat w + word_sum post)) = S + unat w" by (simp add: S)
  also have "ocs (S + unat w) = ocs (S + (65535 - ocs S))" by (simp only: w)
  finally have "unat (checksum_sum le (pre @ to_be16 w @ post) s) = unat (0xffff :: u16)"
    by (simp only: ocs_complement) simp
  then show ?thesis by (simp only: word_unat_eq_iff)
qed

text \<open>
  The emitters that never send an all-zero UDP checksum replace it by \<open>0xffff\<close>: both are
  zero in one's-complement arithmetic, so the block still verifies.
\<close>

lemma checksum_field_nonzero:
  assumes "even (length pre)" "length pre + length post < 17179869180"
    and "w = finalize_checksum (checksum_sum le (pre @ [0, 0] @ post) s)"
    and "0 < unat s + word_sum (pre @ post)"
  shows "checksum_sum le (pre @ to_be16 (if w = 0 then 0xffff else w) @ post) s = 0xffff"
proof (cases "w = 0")
  case True
  have S: "0 < unat s + (word_sum pre + word_sum post)"
    using assms(4) by (simp add: word_sum_append [OF assms(1)])
  have z: "ocs (unat s + (word_sum pre + word_sum post)) = 65535"
  proof -
    have "checksum_sum le (pre @ to_be16 w @ post) s = 0xffff"
      by (rule checksum_field [OF assms(1-3)])
    then have "unat (checksum_sum le (pre @ to_be16 w @ post) s) = 65535" by simp
    then show ?thesis using assms(1,2) True
      by (simp add: unat_checksum_sum word_sum_append word_sum_to_be16)
  qed
  have "unat (checksum_sum le (pre @ to_be16 0xffff @ post) s)
      = ocs (unat s + (word_sum pre + (unat (0xffff :: u16) + word_sum post)))"
    using assms(1,2) by (subst unat_checksum_sum) (simp_all only: word_sum_append word_sum_to_be16
      length_append length_to_be)
  also have "unat s + (word_sum pre + (unat (0xffff :: u16) + word_sum post))
      = (unat s + (word_sum pre + word_sum post)) + 65535" by simp
  also have "ocs \<dots> = ocs (65535 + 65535)" by (metis ocs_add(1) z)
  also have "\<dots> = 65535" by (simp add: ocs_def)
  finally have "unat (checksum_sum le (pre @ to_be16 0xffff @ post) s) = unat (0xffff :: u16)"
    by simp
  then have "checksum_sum le (pre @ to_be16 0xffff @ post) s = 0xffff"
    by (simp only: word_unat_eq_iff)
  with True show ?thesis by simp
next
  case False
  then show ?thesis using checksum_field [OF assms(1-3)] by simp
qed

section \<open>Properties\<close>

text \<open>C4: The wide, vectorisable checksum equals the word-at-a-time RFC 1071 sum on every input
  below 16 GiB, for both byte orders of the target and every initial sum.
\<close>

theorem checksum_sum_is_reference:
  assumes "length bs < 17179869184"
  shows "checksum_sum le bs initial = reference_sum bs initial"
  using assms by (simp add: word_unat_eq_iff unat_checksum_sum unat_reference_sum)

theorem checksum_sum_is_reference_witness:
  "length [0xff, 1, 2, 0xab, 9 :: u8] < 17179869184 \<and>
   checksum_sum True [0xff, 1, 2, 0xab, 9] 7 = reference_sum [0xff, 1, 2, 0xab, 9] 7"
  using checksum_sum_is_reference [of "[0xff, 1, 2, 0xab, 9]" True 7] by simp

text \<open>C5: What \<open>checksum_accumulate\<close> returns stays below \<open>2^19\<close>, whatever the bytes and the
  sum it starts from, so that callers may keep adding before folding.
\<close>

theorem checksum_accumulate_bound:
  assumes "length bs < 17179869184"
  shows "unat (checksum_accumulate le bs acc) < 2 ^ 19"
  using assms by (rule checksum_accumulate_small)

theorem checksum_accumulate_bound_witness:
  "length (replicate 7 0xff :: u8 list) < 17179869184 \<and>
   unat (checksum_accumulate False (replicate 7 0xff) 0xffffffff) < 2 ^ 19"
  using checksum_accumulate_bound [of "replicate 7 0xff" False "0xffffffff"] by simp

end
