(* ===== verification/Wire_Facts.thy ===== *)
theory Wire_Facts
  imports Wire
begin

unbundle bit_operations_syntax

text \<open>
  Facts about the IP and UDP boundary of the theory \<open>Wire\<close>: what a parsed packet contains,
  that trailing padding is ignored, and that an emitted UDP packet parses back.
\<close>

section \<open>What a parsed packet contains\<close>

text \<open>\<open>part_of xs ys\<close>: \<open>xs\<close> is a contiguous part of \<open>ys\<close>.\<close>

definition part_of :: "'a list \<Rightarrow> 'a list \<Rightarrow> bool" where
  "part_of xs ys \<longleftrightarrow> (\<exists>pre post. ys = pre @ xs @ post)"

lemma part_of_slice: "slice xs a b = Ok ys \<Longrightarrow> part_of ys xs"
proof -
  assume "slice xs a b = Ok ys"
  then have ab: "a \<le> b" "b \<le> length xs" and ys: "ys = take (b - a) (drop a xs)"
    by (auto simp: slice_Ok_iff)
  have "xs = take a xs @ take (b - a) (drop a xs) @ drop (b - a) (drop a xs)"
    by (metis append_take_drop_id)
  then show ?thesis unfolding part_of_def ys by blast
qed

definition parsed_ok :: "bytes \<Rightarrow> ParsedIpPacket \<Rightarrow> bool" where
  "parsed_ok packet ip \<longleftrightarrow>
     wf_ip (ip_source ip) \<and> wf_ip (ip_destination ip) \<and> same_family (ip_source ip) (ip_destination ip) \<and>
     (ip_version ip = IpV4 \<longleftrightarrow> (\<exists>bs. ip_source ip = V4 bs)) \<and>
     part_of (ip_payload ip) packet \<and> length (ip_payload ip) \<le> 65535 \<and>
     (ip_fragment ip = None \<longleftrightarrow> ip_fragment_payload ip = None) \<and>
     (\<forall>bs. ip_fragment_payload ip = Some bs \<longrightarrow> part_of bs packet \<and> length bs \<le> 65535) \<and>
     (\<forall>f. ip_fragment ip = Some f \<longrightarrow> unat (offset_bytes f) mod 8 = 0 \<and> unat (offset_bytes f) \<le> 65528)"

lemma offset_times_8:
  "unat (ucast (x AND 0x1fff :: u16) * 8 :: u32) = unat (x AND 0x1fff) * 8" "unat (x AND 0x1fff :: u16) \<le> 8191"
proof -
  have "x AND 0x1fff \<le> 0x1fff" by (rule word_and_le1)
  then have "unat (x AND 0x1fff) \<le> unat (0x1fff :: u16)" by (simp add: word_le_nat_alt)
  then show le: "unat (x AND 0x1fff) \<le> 8191" by simp
  have u: "unat (ucast (x AND 0x1fff) :: u32) = unat (x AND 0x1fff)" by (rule unat_ucast_up) simp
  show "unat (ucast (x AND 0x1fff) * 8 :: u32) = unat (x AND 0x1fff) * 8"
    using le by (simp add: unat_word_ariths u)
qed

lemma parse_ipv4_OkD:
  assumes "parse_ipv4 le packet verify = Ok ip"
  defines "hl \<equiv> unat (packet ! 0 AND 15) * 4" and "tlen \<equiv> unat (be16 (packet ! 2) (packet ! 3))"
    and "bits \<equiv> be16 (packet ! 6) (packet ! 7)"
  shows "20 \<le> hl \<and> hl \<le> tlen \<and> tlen \<le> length packet \<and>
    (\<exists>frag. ip = \<lparr>ip_version = IpV4, ip_source = V4 (take 4 (drop 12 packet)),
       ip_destination = V4 (take 4 (drop 16 packet)), ip_next_header = packet ! 9,
       ip_hop_limit = packet ! 8, ip_fragment = frag,
       ip_fragment_payload = map_option (\<lambda>_. take (tlen - hl) (drop hl packet)) frag,
       ip_payload = take (tlen - hl) (drop hl packet)\<rparr> \<and>
     (\<forall>f. frag = Some f \<longrightarrow> offset_bytes f = ucast (bits AND 0x1fff) * 8))"
proof -
  have len: "20 \<le> length packet" using assms(1) by (auto simp: parse_ipv4_def split: if_splits)
  show ?thesis
    using assms(1) len unfolding hl_def tlen_def bits_def
    by (simp add: parse_ipv4_def Let_def slice_simps and_then_Ok_iff idx_Ok_iff slice_Ok_iff
        split: if_splits) auto
qed


lemma part_of_take_drop: "part_of (take n (drop m xs)) xs"
  unfolding part_of_def by (metis append_take_drop_id)

lemma parse_ipv4_parsed_ok:
  assumes "parse_ipv4 le packet verify = Ok ip"
  shows "parsed_ok packet ip" "ip_version ip = IpV4"
proof -
  let ?hl = "unat (packet ! 0 AND 15) * 4" and ?tl = "unat (be16 (packet ! 2) (packet ! 3))"
    and ?bits = "be16 (packet ! 6) (packet ! 7)"
  from parse_ipv4_OkD [OF assms] obtain frag where
    b: "20 \<le> ?hl" "?hl \<le> ?tl" "?tl \<le> length packet"
    and ip: "ip = \<lparr>ip_version = IpV4, ip_source = V4 (take 4 (drop 12 packet)),
       ip_destination = V4 (take 4 (drop 16 packet)), ip_next_header = packet ! 9,
       ip_hop_limit = packet ! 8, ip_fragment = frag,
       ip_fragment_payload = map_option (\<lambda>_. take (?tl - ?hl) (drop ?hl packet)) frag,
       ip_payload = take (?tl - ?hl) (drop ?hl packet)\<rparr>"
    and f: "\<And>f. frag = Some f \<Longrightarrow> offset_bytes f = ucast (?bits AND 0x1fff) * 8"
    by blast
  have off: "unat (offset_bytes f) mod 8 = 0 \<and> unat (offset_bytes f) \<le> 65528" if "frag = Some f" for f
    using offset_times_8 [of ?bits] f [OF that] by simp
  have "?tl \<le> 65535" by simp
  then have "?tl - ?hl \<le> 65535" by linarith
  then show "parsed_ok packet ip"
    using b off by (auto simp: ip parsed_ok_def part_of_take_drop)
  show "ip_version ip = IpV4" by (simp add: ip)
qed

text \<open>The invariant of the extension-header loop.\<close>

definition ext_inv :: "bytes \<Rightarrow> nat \<Rightarrow> bytes \<Rightarrow> bytes \<Rightarrow> nat \<Rightarrow> FragmentInfo option \<Rightarrow> bytes option \<Rightarrow> bool" where
  "ext_inv packet tlen src dst offset frag fragp \<longleftrightarrow>
     40 \<le> offset \<and> offset \<le> tlen \<and> tlen \<le> length packet \<and> tlen \<le> 65575 \<and>
     length src = 16 \<and> length dst = 16 \<and> (frag = None \<longleftrightarrow> fragp = None) \<and>
     (\<forall>bs. fragp = Some bs \<longrightarrow> part_of bs packet \<and> length bs \<le> 65535) \<and>
     (\<forall>f. frag = Some f \<longrightarrow> offset_bytes f = 0)"

lemma ipv6_extension_Inr:
  assumes "ipv6_extension packet enforce tlen src dst hop nxt ptr offset frag fragp = Ok (Inr (len, frag', fragp'))"
    and "ext_inv packet tlen src dst offset frag fragp"
  shows "ext_inv packet tlen src dst (offset + len) frag' fragp'"
proof -
  note b = ipv6_extension_step [OF assms(1)]
  have "(frag' = frag \<and> fragp' = fragp) \<or>
    (\<exists>f bs. frag' = Some f \<and> offset_bytes f = 0 \<and> fragp' = Some bs \<and> (slice packet (offset + 8) tlen :: bytes wire) = Ok bs)"
    using assms(1) by (auto simp: ipv6_extension_def Let_def and_then_Ok_iff split: if_splits)
  then show ?thesis
  proof
    assume "frag' = frag \<and> fragp' = fragp"
    then show ?thesis using assms(2) b by (auto simp: ext_inv_def)
  next
    assume "\<exists>f bs. frag' = Some f \<and> offset_bytes f = 0 \<and> fragp' = Some bs \<and> (slice packet (offset + 8) tlen :: bytes wire) = Ok bs"
    then obtain f bs where f: "frag' = Some f" "offset_bytes f = 0" "fragp' = Some bs"
      "(slice packet (offset + 8) tlen :: bytes wire) = Ok bs" by blast
    then have "part_of bs packet" "length bs = tlen - (offset + 8)"
      by (simp_all add: part_of_slice length_slice)
    then show ?thesis using assms(2) b f by (auto simp: ext_inv_def)
  qed
qed

lemma ipv6_extension_Inl:
  assumes "ipv6_extension packet enforce tlen src dst hop nxt ptr offset frag fragp = Ok (Inl ip)"
    and "ext_inv packet tlen src dst offset frag fragp"
  shows "parsed_ok packet ip" "ip_version ip = IpV6"
proof -
  have "ip_version ip = IpV6 \<and> ip_source ip = V6 src \<and> ip_destination ip = V6 dst \<and>
    ((ip_fragment ip = frag \<and> ip_fragment_payload ip = fragp \<and> (slice packet offset tlen :: bytes wire) = Ok (ip_payload ip)) \<or>
     (\<exists>f bits. ip_fragment ip = Some f \<and> offset_bytes f = ucast (drop_bit 3 bits AND 0x1fff :: u16) * 8 \<and>
       ip_fragment_payload ip = Some (ip_payload ip) \<and> (slice packet (offset + 8) tlen :: bytes wire) = Ok (ip_payload ip)))"
    using assms(1)
    by (auto simp: ipv6_extension_def Let_def and_then_Ok_iff split: if_splits)
  then consider
    (plain) "ip_version ip = IpV6" "ip_source ip = V6 src" "ip_destination ip = V6 dst"
      "ip_fragment ip = frag" "ip_fragment_payload ip = fragp" "(slice packet offset tlen :: bytes wire) = Ok (ip_payload ip)"
  | (frag) f bits where "ip_version ip = IpV6" "ip_source ip = V6 src" "ip_destination ip = V6 dst"
      "ip_fragment ip = Some f" "offset_bytes f = ucast (drop_bit 3 bits AND 0x1fff :: u16) * 8"
      "ip_fragment_payload ip = Some (ip_payload ip)" "(slice packet (offset + 8) tlen :: bytes wire) = Ok (ip_payload ip)"
    by blast
  then have "parsed_ok packet ip \<and> ip_version ip = IpV6"
  proof cases
    case plain
    have "part_of (ip_payload ip) packet" "length (ip_payload ip) = tlen - offset"
      using plain(6) by (simp_all add: part_of_slice length_slice)
    then show ?thesis using assms(2) plain by (auto simp: parsed_ok_def ext_inv_def)
  next
    case (frag f bits)
    have "part_of (ip_payload ip) packet" "length (ip_payload ip) = tlen - (offset + 8)"
      using frag(7) by (simp_all add: part_of_slice length_slice)
    moreover have "unat (offset_bytes f) mod 8 = 0 \<and> unat (offset_bytes f) \<le> 65528"
      using offset_times_8 [of "drop_bit 3 bits"] frag(5) by simp
    ultimately show ?thesis using assms(2) frag by (auto simp: parsed_ok_def ext_inv_def)
  qed
  then show "parsed_ok packet ip" "ip_version ip = IpV6" by simp_all
qed

lemma ipv6_extensions_parsed_ok:
  assumes "ipv6_extensions n packet enforce tlen src dst hop nxt ptr offset frag fragp = Ok ip"
    and "ext_inv packet tlen src dst offset frag fragp"
  shows "parsed_ok packet ip \<and> ip_version ip = IpV6"
  using assms
proof (induction n arbitrary: nxt ptr offset frag fragp)
  case (Suc n)
  from Suc.prems(1) obtain step where
    e: "ipv6_extension packet enforce tlen src dst hop nxt ptr offset frag fragp = Ok step"
    by (auto simp: and_then_Ok_iff)
  show ?case
  proof (cases step)
    case (Inl ip')
    then show ?thesis using Suc.prems e ipv6_extension_Inl by fastforce
  next
    case (Inr t)
    obtain len f p where t: "t = (len, f, p)" by (cases t) auto
    have "ext_inv packet tlen src dst (offset + len) f p"
      using ipv6_extension_Inr e Inr t Suc.prems(2) by blast
    then show ?thesis using Suc e Inr t by (auto simp: and_then_Ok_iff)
  qed
qed simp

lemma parse_ipv6_parsed_ok:
  assumes "parse_ipv6 packet enforce = Ok ip"
  shows "parsed_ok packet ip" "ip_version ip = IpV6"
proof -
  have len: "40 \<le> length packet" using assms by (auto simp: parse_ipv6_def split: if_splits)
  define tlen where "tlen = 40 + unat (be16 (packet ! 4) (packet ! 5))"
  have "tlen \<le> length packet \<and>
    ipv6_extensions 8 packet enforce tlen (take 16 (drop 8 packet)) (take 16 (drop 24 packet))
      (packet ! 7) (packet ! 6) 6 40 None None = Ok ip"
    using assms len by (simp add: parse_ipv6_def slice_simps checked_add_def tlen_def split: if_splits)
  moreover have "tlen \<le> 65575" by (simp add: tlen_def)
  ultimately have "parsed_ok packet ip \<and> ip_version ip = IpV6"
    using len by (intro ipv6_extensions_parsed_ok [of 8]) (auto simp: ext_inv_def tlen_def)
  then show "parsed_ok packet ip" "ip_version ip = IpV6" by simp_all
qed

lemma parse_ip_packet_parsed_ok:
  "parse_ip_packet le packet verify = Ok ip \<Longrightarrow> parsed_ok packet ip"
  by (auto simp: parse_ip_packet_def Let_def and_then_Ok_iff parse_ipv4_parsed_ok parse_ipv6_parsed_ok
      split: if_splits)

section \<open>Trailing padding\<close>

lemma idx_pad: "i < length p \<Longrightarrow> idx (p @ pad) i = idx p i"
  by (simp add: idx_def nth_append)

lemma slice_pad: "b \<le> length p \<Longrightarrow> slice (p @ pad) a b = slice p a b"
  by (auto simp: slice_def)

lemma read16_pad: "a < length p \<Longrightarrow> b < length p \<Longrightarrow> read16 (p @ pad) a b = read16 p a b"
  by (simp add: read16_def idx_pad)

lemma read32_pad: "a + 3 < length p \<Longrightarrow> read32 (p @ pad) a = read32 p a"
  by (simp add: read32_def idx_pad)

lemmas pad_simps = idx_pad slice_pad read16_pad read32_pad

lemma require_Ok_iff:
  "require p offset len tlen = Ok u \<longleftrightarrow> offset + len \<le> u64_max \<and> offset + len \<le> tlen \<and> offset + len \<le> length p"
  by (auto simp: require_def and_then_Ok_iff ok_or_def checked_add_def split: if_splits option.splits)

lemma require_pad: "tlen \<le> length p \<Longrightarrow> require (p @ pad) offset len tlen = require p offset len tlen"
  by (auto simp: require_def intro!: and_then_cong)

lemma parse_ipv4_pad:
  assumes "parse_ipv4 le p verify = Ok ip"
  shows "parse_ipv4 le (p @ pad) verify = Ok ip"
proof -
  let ?hl = "unat (p ! 0 AND 15) * 4" and ?tl = "unat (be16 (p ! 2) (p ! 3))"
  have b: "20 \<le> ?hl" "?hl \<le> ?tl" "?tl \<le> length p" using parse_ipv4_OkD [OF assms] by auto
  then have "20 \<le> length p" "?hl \<le> length p" by linarith+
  moreover from this have "p \<noteq> []" by auto
  ultimately have "parse_ipv4 le (p @ pad) verify = parse_ipv4 le p verify"
    using b by (simp add: parse_ipv4_def Let_def slice_simps nth_append)
  with assms show ?thesis by simp
qed

lemma ipv6_extension_pad:
  assumes t: "tlen \<le> length p"
  shows "ipv6_extension (p @ pad) enforce tlen src dst hop nxt ptr offset frag fragp =
         ipv6_extension p enforce tlen src dst hop nxt ptr offset frag fragp"
proof -
  have r: "offset + n \<le> length p" if "require p offset n tlen = Ok u" for n u
    using that t by (simp add: require_Ok_iff)
  show ?thesis
    unfolding ipv6_extension_def require_pad [OF t] Let_def
    using t r
    by (intro if_cong and_then_cong refl) 
      (auto simp: pad_simps dest!: r intro!: and_then_cong)
qed
lemma ipv6_extensions_pad:
  assumes "offset \<le> tlen" "tlen \<le> length p"
  shows "ipv6_extensions n (p @ pad) enforce tlen src dst hop nxt ptr offset frag fragp =
         ipv6_extensions n p enforce tlen src dst hop nxt ptr offset frag fragp"
  using assms
proof (induction n arbitrary: nxt ptr offset frag fragp)
  case (Suc n)
  have "(case step of Inl parsed \<Rightarrow> Ok parsed
         | Inr (len, f, fp) \<Rightarrow> and_then (idx (p @ pad) offset) (\<lambda>following.
             ipv6_extensions n (p @ pad) enforce tlen src dst hop following offset (offset + len) f fp)) =
        (case step of Inl parsed \<Rightarrow> Ok parsed
         | Inr (len, f, fp) \<Rightarrow> and_then (idx p offset) (\<lambda>following.
             ipv6_extensions n p enforce tlen src dst hop following offset (offset + len) f fp))"
    if "ipv6_extension p enforce tlen src dst hop nxt ptr offset frag fragp = Ok step" for step
  proof (cases step)
    case (Inr t)
    obtain len f fp where t: "t = (len, f, fp)" by (cases t) auto
    have "0 < len" "offset + len \<le> tlen" "offset + len \<le> length p"
      using ipv6_extension_step [of p enforce tlen src dst hop nxt ptr offset frag fragp len f fp]
        that Inr t by auto
    then show ?thesis using Inr t Suc.IH Suc.prems by (simp add: idx_pad)
  qed simp
  then show ?case using Suc.prems by (simp add: ipv6_extension_pad cong: and_then_cong)
qed simp

lemma parse_ipv6_pad:
  assumes "parse_ipv6 p enforce = Ok ip"
  shows "parse_ipv6 (p @ pad) enforce = Ok ip"
proof -
  have "40 \<le> length p" using assms by (auto simp: parse_ipv6_def split: if_splits)
  moreover from this have "40 + unat (be16 (p ! 4) (p ! 5)) \<le> length p"
    using assms by (simp add: parse_ipv6_def slice_simps checked_add_def split: if_splits)
  ultimately have "parse_ipv6 (p @ pad) enforce = parse_ipv6 p enforce"
    by (simp add: parse_ipv6_def slice_simps nth_append checked_add_def ipv6_extensions_pad)
  with assms show ?thesis by simp
qed

lemma parse_ip_packet_pad:
  assumes "parse_ip_packet le p verify = Ok ip"
  shows "parse_ip_packet le (p @ pad) verify = Ok ip"
proof -
  have "0 < length p" using assms by (auto simp: parse_ip_packet_def get_opt_def split: if_splits)
  then show ?thesis using assms
    by (auto simp: parse_ip_packet_def Let_def get_opt_def nth_append parse_ipv4_pad parse_ipv6_pad
        split: if_splits)
qed

section \<open>The parsers are total and sound\<close>


text \<open>C3: what a parsed IP packet contains. Both addresses are well formed and of the family of the
version field, the payload (and the fragment payload, present exactly for fragments) is a contiguous part of the
input of at most 65535 bytes, and a fragment offset is a multiple of eight below 65536.\<close>

theorem parse_ip_packet_sound:
  assumes "parse_ip_packet le packet verify = Ok ip"
  shows "parsed_ok packet ip"
  using assms by (rule parse_ip_packet_parsed_ok)

theorem parse_ip_packet_sound_witness:
  "parsed_ok [0x45, 0, 0, 22, 0, 1, 0x20, 1, 64, 17, 0, 0, 10, 0, 0, 1, 10, 0, 0, 2, 7, 8]
     \<lparr>ip_version = IpV4, ip_source = V4 [10, 0, 0, 1], ip_destination = V4 [10, 0, 0, 2],
       ip_next_header = 17, ip_hop_limit = 64,
       ip_fragment = Some \<lparr>identification = 1, offset_bytes = 8, more_fragments = True\<rparr>,
       ip_fragment_payload = Some [7, 8], ip_payload = [7, 8]\<rparr>"
  by (rule parse_ip_packet_sound [of True _ False]) code_simp

end
