(* ===== verification/Emit.thy ===== *)
theory Emit
imports Wire_Facts
begin

text \<open>The emitters of \<^verbatim>\<open>wire.rs\<close> against its parsers. The IPv4 and IPv6 headers the
emitters write are given in closed form, parsing such a header is computed once, and the UDP
round trip follows; the TCP and ICMP emitters reuse the header lemmas.\<close>

unbundle bit_operations_syntax

section \<open>Headers as byte strings\<close>

definition ipv4_fields :: "u16 \<Rightarrow> u16 \<Rightarrow> u8 \<Rightarrow> u8 \<Rightarrow> bytes" where
  "ipv4_fields total_len ident hop proto =
     [0x45, 0] @ to_be16 total_len @ to_be16 ident @ [0x40, 0, hop, proto]"

definition ipv4_header :: "bool \<Rightarrow> u16 \<Rightarrow> u16 \<Rightarrow> u8 \<Rightarrow> u8 \<Rightarrow> bytes \<Rightarrow> bytes \<Rightarrow> bytes" where
  "ipv4_header le total_len ident hop proto s d =
     (let pre = ipv4_fields total_len ident hop proto
      in pre @ to_be16 (finalize_checksum (checksum_sum le (pre @ [0, 0] @ s @ d) 0)) @ s @ d)"

definition ipv6_header :: "u16 \<Rightarrow> u8 \<Rightarrow> u8 \<Rightarrow> bytes \<Rightarrow> bytes \<Rightarrow> bytes" where
  "ipv6_header len proto hop s d = [0x60, 0, 0, 0] @ to_be16 len @ [proto, hop] @ s @ d"

definition pseudo_acc :: "bool \<Rightarrow> IpAddr \<Rightarrow> IpAddr \<Rightarrow> u8 \<Rightarrow> nat \<Rightarrow> u32" where
  "pseudo_acc le source destination protocol n =
     checksum_accumulate le (octets destination) (checksum_accumulate le (octets source) 0)
       + ucast protocol + len_u32 n"

definition udp_checksum :: "bool \<Rightarrow> IpAddr \<Rightarrow> IpAddr \<Rightarrow> bytes \<Rightarrow> bytes \<Rightarrow> u16" where
  "udp_checksum le s d head payload =
     (let c = finalize_checksum (checksum_sum le (head @ [0, 0] @ payload)
                (pseudo_acc le s d 17 (8 + length payload)))
      in if c = 0 then 0xffff else c)"

definition udp_head :: "u16 \<Rightarrow> u16 \<Rightarrow> nat \<Rightarrow> bytes" where
  "udp_head sp dp n = to_be16 sp @ to_be16 dp @ to_be16 (word_of_nat (8 + n))"

definition udp_segment :: "bool \<Rightarrow> SocketAddr \<Rightarrow> SocketAddr \<Rightarrow> bytes \<Rightarrow> bytes" where
  "udp_segment le s d payload =
     (let head = udp_head (sa_port s) (sa_port d) (length payload)
      in head @ to_be16 (udp_checksum le (sa_ip s) (sa_ip d) head payload) @ payload)"

definition udp_room :: "SocketAddr \<Rightarrow> nat" where
  "udp_room s = (case sa_ip s of V4 _ \<Rightarrow> 65507 | V6 _ \<Rightarrow> 65527)"

lemma length_ipv4_fields [simp]: "length (ipv4_fields t i h p) = 10"
  by (simp add: ipv4_fields_def)

lemma length_4E: assumes "length s = 4" obtains a b c d where "s = [a, b, c, d]"
  using assms by (auto simp: numeral_eq_Suc length_Suc_conv)

lemma copy_at_append:
  "b \<le> length xs \<Longrightarrow> copy_at (xs @ ys) a b zs = and_then (copy_at xs a b zs) (\<lambda>xs. Ok (xs @ ys))"
  by (auto simp: copy_at_def)

lemma puts_append:
  "(\<And>a zs. (a, zs) \<in> set ws \<Longrightarrow> a + length zs \<le> length xs) \<Longrightarrow>
   puts (xs @ ys) ws = and_then (puts xs ws :: ('e, bytes) res) (\<lambda>xs. Ok (xs @ ys))"
proof (induction ws arbitrary: xs)
  case (Cons w ws)
  obtain a zs where w: "w = (a, zs)" by (cases w)
  have "a + length zs \<le> length xs" using Cons.prems w by auto
  note le = this
  have "puts ((take a xs @ zs @ drop (a + length zs) xs) @ ys) ws =
      and_then (puts (take a xs @ zs @ drop (a + length zs) xs) ws :: ('e, bytes) res) (\<lambda>xs. Ok (xs @ ys))"
  proof (rule Cons.IH)
    fix a' zs' assume "(a', zs') \<in> set ws"
    then have "a' + length zs' \<le> length xs" using Cons.prems by simp
    then show "a' + length zs' \<le> length (take a xs @ zs @ drop (a + length zs) xs)"
      using \<open>a + length zs \<le> length xs\<close> by simp
  qed
  then show ?case using le by (simp add: w copy_at_def)
qed simp

lemma zeros20: "replicate (20 + n) (0::u8) = [0,0,0,0,0,0,0,0,0,0,0,0,0,0,0,0,0,0,0,0] @ replicate n 0"
  by (simp add: numeral_eq_Suc)

lemma zeros40: "replicate (40 + n) (0::u8) = replicate 20 0 @ replicate 20 0 @ replicate n 0"
  by (simp add: replicate_add [symmetric])

lemma puts_ipv4:
  assumes "length s = 4" "length d = 4"
  shows "puts (replicate (20 + n) 0) [(0, [0x45]), (2, to_be16 t), (4, to_be16 i), (6, [0x40]),
              (8, [hop]), (9, [proto]), (12, s), (16, d)]
     = Ok (ipv4_fields t i hop proto @ [0, 0] @ s @ d @ replicate n 0)"
proof -
  obtain s1 s2 s3 s4 where s: "s = [s1, s2, s3, s4]" using assms(1) by (rule length_4E)
  obtain d1 d2 d3 d4 where d: "d = [d1, d2, d3, d4]" using assms(2) by (rule length_4E)
  show ?thesis
    unfolding zeros20 by (subst puts_append) (auto simp: s d copy_at_def to_be16_def ipv4_fields_def)
qed

lemma ipv4_header_emitted:
  assumes "length s = 4" "length d = 4"
  shows "and_then (puts (replicate (20 + n) 0) [(0, [0x45]), (2, to_be16 t), (4, to_be16 i), (6, [0x40]),
              (8, [hop]), (9, [proto]), (12, s), (16, d)]) (\<lambda>packet.
           and_then (slice packet 0 20) (\<lambda>header.
           puts packet [(10, to_be16 (finalize_checksum (checksum_sum le header 0)))]))
     = Ok (ipv4_header le t i hop proto s d @ replicate n 0)"
  unfolding puts_ipv4 [OF assms]
  using assms by (simp add: slice_simps copy_at_def ipv4_header_def Let_def)

lemma length_16E: assumes "length s = 16"
  obtains a0 a1 a2 a3 a4 a5 a6 a7 a8 a9 b0 b1 b2 b3 b4 b5 where "s = [a0,a1,a2,a3,a4,a5,a6,a7,a8,a9,b0,b1,b2,b3,b4,b5]"
  using assms by (auto simp: numeral_eq_Suc length_Suc_conv)

lemma puts_ipv6:
  assumes "length s = 16" "length d = 16"
  shows "puts (replicate (40 + n) 0) [(0, [0x60]), (4, to_be16 l), (6, [proto]), (7, [hop]), (8, s), (24, d)]
     = Ok (ipv6_header l proto hop s d @ replicate n 0)"
proof -
  have "replicate (40 + n) (0::u8) = ([0,0,0,0,0,0,0,0] @ replicate 32 0) @ replicate n 0"
    by (simp add: numeral_eq_Suc)
  then show ?thesis using assms
    by (simp only:) (subst puts_append, auto simp: copy_at_def to_be16_def ipv6_header_def)
qed

lemma nth_ipv4_header [simp]:
  "ipv4_header le t i hop proto s d ! 0 = 0x45" "be16 (ipv4_header le t i hop proto s d ! 2) (ipv4_header le t i hop proto s d ! 3) = t"
  "be16 (ipv4_header le t i hop proto s d ! 6) (ipv4_header le t i hop proto s d ! 7) = 0x4000"
  "ipv4_header le t i hop proto s d ! 8 = hop" "ipv4_header le t i hop proto s d ! 9 = proto"
  by (simp_all add: ipv4_header_def Let_def ipv4_fields_def to_be16_def)
     (simp add: be16_def)

lemma length_ipv4_header: "length s = 4 \<Longrightarrow> length d = 4 \<Longrightarrow> length (ipv4_header le t i hop proto s d) = 20"
  by (simp add: ipv4_header_def Let_def)

lemma ipv4_header_addresses:
  "length s = 4 \<Longrightarrow> length d = 4 \<Longrightarrow> take 4 (drop 12 (ipv4_header le t i hop proto s d)) = s"
  "length s = 4 \<Longrightarrow> length d = 4 \<Longrightarrow> drop 16 (ipv4_header le t i hop proto s d) = d"
  by (simp_all add: ipv4_header_def Let_def)

lemma ipv4_header_verifies:
  assumes "length s = 4" "length d = 4"
  shows "checksum_sum le (ipv4_header le t i hop proto s d) 0 = 0xffff"
  unfolding ipv4_header_def Let_def
  by (rule checksum_field) (use assms in simp_all)

lemma parse_ipv4_emitted:
  assumes "length s = 4" "length d = 4" "20 + length body \<le> 65535"
  shows "parse_ip_packet le (ipv4_header le (word_of_nat (20 + length body)) i hop proto s d @ body) verify =
     Ok \<lparr>ip_version = IpV4, ip_source = V4 s, ip_destination = V4 d, ip_next_header = proto,
         ip_hop_limit = hop, ip_fragment = None, ip_fragment_payload = None, ip_payload = body\<rparr>"
proof -
  define h where "h = ipv4_header le (word_of_nat (20 + length body)) i hop proto s d"
  have h: "length h = 20" "h ! 0 = 0x45" "be16 (h ! 2) (h ! 3) = word_of_nat (20 + length body)"
    "be16 (h ! 6) (h ! 7) = 0x4000" "h ! 8 = hop" "h ! 9 = proto" "take 4 (drop 12 h) = s" "drop 16 h = d"
    "checksum_sum le h 0 = 0xffff"
    using assms by (simp_all add: h_def length_ipv4_header ipv4_header_addresses ipv4_header_verifies del: of_nat_add)
  have ne: "h \<noteq> []" using h(1) by auto
  have u: "unat (word_of_nat (20 + length body) :: u16) = 20 + length body"
    using assms(3) by (rule unat_word_of_nat16)
  have v: "validate_ipv4_options [] 0 = Ok ()" by (subst validate_ipv4_options.simps) simp
  show ?thesis
    unfolding h_def [symmetric]
    by (simp add: parse_ip_packet_def get_opt_def ne parse_ipv4_def Let_def slice_simps nth_append h u v
        assms(1,2) del: of_nat_add)
qed

lemma parse_ipv6_emitted:
  assumes "length s = 16" "length d = 16" "length body \<le> 65535" "proto \<notin> {0, 43, 60, 51, 44}"
  shows "parse_ip_packet le (ipv6_header (word_of_nat (length body)) proto hop s d @ body) verify =
     Ok \<lparr>ip_version = IpV6, ip_source = V6 s, ip_destination = V6 d, ip_next_header = proto,
         ip_hop_limit = hop, ip_fragment = None, ip_fragment_payload = None, ip_payload = body\<rparr>"
proof -
  define h where "h = ipv6_header (word_of_nat (length body)) proto hop s d"
  have h: "length h = 40" "h ! 0 = 0x60" "be16 (h ! 4) (h ! 5) = word_of_nat (length body)"
    "h ! 6 = proto" "h ! 7 = hop" "take 16 (drop 8 h) = s" "drop 24 h = d"
    using assms(1,2) by (simp_all add: h_def ipv6_header_def to_be16_def)
  have ne: "h \<noteq> []" using h(1) by auto
  have u: "unat (word_of_nat (length body) :: u16) = length body"
    using assms(3) by (rule unat_word_of_nat16)
  have e: "ipv6_extension (h @ body) True (40 + length body) s d hop proto 6 40 None None =
      Ok (Inl \<lparr>ip_version = IpV6, ip_source = V6 s, ip_destination = V6 d, ip_next_header = proto,
         ip_hop_limit = hop, ip_fragment = None, ip_fragment_payload = None, ip_payload = body\<rparr>)"
    using assms(4) h(1) by (simp add: ipv6_extension_def slice_simps)
  have "ipv6_extensions (Suc 7) (h @ body) True (40 + length body) s d hop proto 6 40 None None =
      Ok \<lparr>ip_version = IpV6, ip_source = V6 s, ip_destination = V6 d, ip_next_header = proto,
         ip_hop_limit = hop, ip_fragment = None, ip_fragment_payload = None, ip_payload = body\<rparr>"
    unfolding ipv6_extensions.simps e by simp
  then have x: "ipv6_extensions 8 (h @ body) True (40 + length body) s d hop proto 6 40 None None =
      Ok \<lparr>ip_version = IpV6, ip_source = V6 s, ip_destination = V6 d, ip_next_header = proto,
         ip_hop_limit = hop, ip_fragment = None, ip_fragment_payload = None, ip_payload = body\<rparr>"
    by (simp del: ipv6_extensions.simps)
  have r: "read16 (h @ body) 4 5 = Ok (word_of_nat (length body))"
    using h(1,3) by (simp add: read16_def slice_simps nth_append)
  have c: "checked_add 40 (length body) = Some (40 + length body)"
    using assms(3) by (simp add: checked_add_def)
  have sl: "(slice (h @ body) 8 24 :: bytes wire) = Ok s" "(slice (h @ body) 24 40 :: bytes wire) = Ok d"
    "(idx (h @ body) 6 :: u8 wire) = Ok proto" "(idx (h @ body) 7 :: u8 wire) = Ok hop"
    using h assms(1,2) by (simp_all add: slice_simps nth_append)
  have "parse_ipv6 (h @ body) True =
      Ok \<lparr>ip_version = IpV6, ip_source = V6 s, ip_destination = V6 d, ip_next_header = proto,
         ip_hop_limit = hop, ip_fragment = None, ip_fragment_payload = None, ip_payload = body\<rparr>"
    unfolding parse_ipv6_def r and_then.simps u c sl ok_or_def option.case x by (simp add: h(1))
  then show ?thesis
    unfolding h_def [symmetric] by (simp add: parse_ip_packet_def get_opt_def ne nth_append h)
qed

section \<open>Pseudo-header checksum\<close>

lemma transport_checksum_pseudo:
  "same_family source destination \<Longrightarrow> transport_checksum_sum le source destination protocol payload =
     checksum_sum le payload (pseudo_acc le source destination protocol (length payload))"
  by (cases source; cases destination)
     (simp_all add: transport_checksum_sum_def pseudo_acc_def Let_def add_ac)

lemma pseudo_acc_pos:
  assumes "wf_ip destination" "n \<le> 65535" "protocol \<noteq> 0"
  shows "0 < unat (pseudo_acc le source destination protocol n)"
proof -
  have "length (octets destination) < 17179869184" using assms(1) by (cases destination) simp_all
  then have a: "unat (checksum_accumulate le (octets destination) (checksum_accumulate le (octets source) 0)) < 2 ^ 19"
    by (rule checksum_accumulate_small)
  have p: "unat (ucast protocol :: u32) = unat protocol" by (rule unat_ucast_up) simp
  have p0: "0 < unat protocol" using assms(3) by (metis bot_nat_0.not_eq_extremum unsigned_eq_0_iff)
  have "unat (word_of_nat n :: u32) = n" using assms(2) by (simp add: unat_of_nat)
  then have l: "unat (len_u32 n) = n" using assms(2) by (simp add: len_u32_def try_u32_def)
  have q: "unat protocol \<le> 255" by (rule unat_u8_bound)
  show ?thesis
    unfolding pseudo_acc_def unat_word_ariths p l using a p0 q assms(2)
    by (simp del: unat_u8_bound)
qed

section \<open>UDP round trip\<close>

lemma length_udp_head [simp]: "length (udp_head sp dp n) = 6"
  by (simp add: udp_head_def)

lemma length_udp_segment [simp]: "length (udp_segment le s d p) = 8 + length p"
  by (simp add: udp_segment_def Let_def)

lemma puts_udp:
  "puts (replicate (8 + length p) 0) [(0, to_be16 sp), (2, to_be16 dp), (4, to_be16 (word_of_nat (8 + length p))), (8, p)]
     = Ok (udp_head sp dp (length p) @ [0, 0] @ p)"
  by (simp add: copy_at_def udp_head_def to_be16_def numeral_eq_Suc)

lemma udp_segment_verifies:
  assumes "wf_ip (sa_ip d)" "8 + length p \<le> 65535"
  shows "checksum_sum le (udp_segment le s d p) (pseudo_acc le (sa_ip s) (sa_ip d) 17 (8 + length p)) = 0xffff"
  unfolding udp_segment_def udp_checksum_def Let_def
  by (rule checksum_field_nonzero [OF _ _ refl])
     (use assms pseudo_acc_pos [of "sa_ip d" "8 + length p" 17 le "sa_ip s"] in simp_all)

lemma udp_checksum_nonzero: "udp_checksum le s d h p \<noteq> 0"
  by (simp add: udp_checksum_def Let_def)

lemma emit_udp_tail:
  assumes "same_family (sa_ip s) (sa_ip d)" "n = 8 + length p"
  shows "and_then (puts (replicate n 0)
       [(0, to_be16 (sa_port s)), (2, to_be16 (sa_port d)), (4, to_be16 (word_of_nat n)), (8, p)]) (\<lambda>udp.
     let checksum = finalize_checksum (transport_checksum_sum le (sa_ip s) (sa_ip d) 17 udp);
         checksum = (if checksum = 0 then 0xffff else checksum) in
     and_then (puts udp [(6, to_be16 checksum)]) (\<lambda>udp. Ok (h @ udp)))
     = Ok (h @ udp_segment le s d p)"
  unfolding assms(2) puts_udp transport_checksum_pseudo [OF assms(1)]
  by (simp add: Let_def copy_at_def udp_segment_def udp_checksum_def transport_checksum_pseudo [OF assms(1)])

lemma emit_udp_packet_v4:
  assumes "length a = 4" "length b = 4" "length p \<le> 65507"
  shows "emit_udp_packet le (SocketAddr (V4 a) sp) (SocketAddr (V4 b) dp) p hop ident =
     Ok (ipv4_header le (word_of_nat (28 + length p)) ident hop 17 a b
         @ udp_segment le (SocketAddr (V4 a) sp) (SocketAddr (V4 b) dp) p)"
proof -
  let ?s = "SocketAddr (V4 a) sp" and ?d = "SocketAddr (V4 b) dp"
  have c: "checked_add 8 (length p) = Some (8 + length p)" using assms(3) by (simp add: checked_add_def)
  have t: "try_u16 (8 + length p) = Some (word_of_nat (8 + length p))"
    "try_u16 (20 + (8 + length p)) = Some (word_of_nat (20 + (8 + length p)))"
    using assms(3) by (simp_all add: try_u16_def)
  note tl = emit_udp_tail [of ?s ?d "8 + length p" p le, simplified same_family.simps SocketAddr.sel, OF _ refl]
  show ?thesis
    unfolding emit_udp_packet_def c t Let_def [of "20 + (8 + length p)"] Let_def [of "replicate _ _"]
      ok_or_def option.case and_then.simps SocketAddr.sel prod.case IpAddr.case
      ipv4_header_emitted [OF assms(1,2)]
    using tl length_ipv4_header [OF assms(1,2)] by (simp add: slice_simps)
qed

lemma emit_udp_packet_v6:
  assumes "length a = 16" "length b = 16" "length p \<le> 65527"
  shows "emit_udp_packet le (SocketAddr (V6 a) sp) (SocketAddr (V6 b) dp) p hop ident =
     Ok (ipv6_header (word_of_nat (8 + length p)) 17 hop a b
         @ udp_segment le (SocketAddr (V6 a) sp) (SocketAddr (V6 b) dp) p)"
proof -
  let ?s = "SocketAddr (V6 a) sp" and ?d = "SocketAddr (V6 b) dp"
  have c: "checked_add 8 (length p) = Some (8 + length p)" using assms(3) by (simp add: checked_add_def)
  have t: "try_u16 (8 + length p) = Some (word_of_nat (8 + length p))"
    using assms(3) by (simp add: try_u16_def)
  note tl = emit_udp_tail [of ?s ?d "8 + length p" p le, simplified same_family.simps SocketAddr.sel, OF _ refl]
  have l: "length (ipv6_header (word_of_nat (8 + length p)) 17 hop a b) = 40"
    using assms(1,2) by (simp add: ipv6_header_def)
  show ?thesis
    unfolding emit_udp_packet_def c t Let_def [of "40 + (8 + length p)"] Let_def [of "replicate _ _"]
      ok_or_def option.case and_then.simps SocketAddr.sel prod.case IpAddr.case
      puts_ipv6 [OF assms(1,2)]
    using tl l by (simp add: slice_simps)
qed

lemma parse_udp_segment:
  assumes "wf_ip (sa_ip d)" "same_family (sa_ip s) (sa_ip d)" "8 + length p \<le> 65535"
    and "ip_next_header ip = 17" "ip_fragment ip = None" "ip_source ip = sa_ip s" "ip_destination ip = sa_ip d"
    and "ip_payload ip = udp_segment le s d p"
  shows "parse_udp_datagram le ip True = Ok \<lparr>udp_source = s, udp_destination = d, udp_payload = p\<rparr>"
proof -
  define u where "u = udp_segment le s d p"
  have l: "length u = 8 + length p" by (simp add: u_def)
  have f: "be16 (u ! 0) (u ! 1) = sa_port s" "be16 (u ! 2) (u ! 3) = sa_port d"
    "be16 (u ! 4) (u ! 5) = word_of_nat (8 + length p)" "drop 8 u = p"
    "be16 (u ! 6) (u ! 7) = udp_checksum le (sa_ip s) (sa_ip d) (udp_head (sa_port s) (sa_port d) (length p)) p"
    by (simp_all add: u_def udp_segment_def Let_def udp_head_def to_be16_def del: of_nat_add)
  have n: "unat (word_of_nat (8 + length p) :: u16) = 8 + length p" using assms(3) by (rule unat_word_of_nat16)
  have v: "transport_checksum_sum le (sa_ip s) (sa_ip d) 17 u = 0xffff"
    using udp_segment_verifies [OF assms(1,3), of le s] by (simp add: transport_checksum_pseudo [OF assms(2)] u_def)
  show ?thesis
    using assms(4-8) unfolding u_def [symmetric]
    by (simp add: parse_udp_datagram_def Let_def slice_simps f f(1) [simplified] n l v udp_checksum_nonzero del: of_nat_add)
qed

lemma emitted_v4_parses:
  assumes "length a = 4" "length b = 4" "length p \<le> 65507"
    and "s = SocketAddr (V4 a) sp" "d = SocketAddr (V4 b) dp"
  shows "parse_ip_packet le (ipv4_header le (word_of_nat (28 + length p)) ident hop 17 a b @ udp_segment le s d p) verify =
     Ok \<lparr>ip_version = IpV4, ip_source = sa_ip s, ip_destination = sa_ip d, ip_next_header = 17,
         ip_hop_limit = hop, ip_fragment = None, ip_fragment_payload = None, ip_payload = udp_segment le s d p\<rparr>"
  using parse_ipv4_emitted [OF assms(1,2), of "udp_segment le s d p" le ident hop 17 verify] assms(3-5) by simp

lemma emitted_v6_parses:
  assumes "length a = 16" "length b = 16" "length p \<le> 65527"
    and "s = SocketAddr (V6 a) sp" "d = SocketAddr (V6 b) dp"
  shows "parse_ip_packet le (ipv6_header (word_of_nat (8 + length p)) 17 hop a b @ udp_segment le s d p) verify =
     Ok \<lparr>ip_version = IpV6, ip_source = sa_ip s, ip_destination = sa_ip d, ip_next_header = 17,
         ip_hop_limit = hop, ip_fragment = None, ip_fragment_payload = None, ip_payload = udp_segment le s d p\<rparr>"
  using parse_ipv6_emitted [OF assms(1,2), of "udp_segment le s d p" 17 le hop verify] assms(3-5) by simp

lemma emit_udp_cases:
  assumes "wf_ip (sa_ip s)" "wf_ip (sa_ip d)" "same_family (sa_ip s) (sa_ip d)"
  obtains (v4) a sp b dp where "s = SocketAddr (V4 a) sp" "d = SocketAddr (V4 b) dp" "length a = 4" "length b = 4"
  | (v6) a sp b dp where "s = SocketAddr (V6 a) sp" "d = SocketAddr (V6 b) dp" "length a = 16" "length b = 16"
  using assms by (cases s; cases d; cases "sa_ip s"; cases "sa_ip d") auto

text \<open>C1: the UDP emitter and the parsers are inverse to each other. For two well-formed addresses of
one family and a payload that fits the family's length fields, emitting succeeds, and the packet
so produced, followed by any link-layer padding, is accepted by the IP parser and the UDP parser with both
checksum verifications on; they return exactly the two endpoints, the hop limit and the payload.\<close>

theorem udp_round_trip:
  assumes "wf_ip (sa_ip s)" "wf_ip (sa_ip d)" "same_family (sa_ip s) (sa_ip d)" "length p \<le> udp_room s"
  shows "\<exists>packet ip. emit_udp_packet le s d p hop ident = Ok packet \<and>
     parse_ip_packet le (packet @ padding) True = Ok ip \<and>
     ip_hop_limit ip = hop \<and> ip_fragment ip = None \<and>
     parse_udp_datagram le ip True = Ok \<lparr>udp_source = s, udp_destination = d, udp_payload = p\<rparr>"
  using assms(1-3)
proof (cases rule: emit_udp_cases)
  case (v4 a sp b dp)
  then have p: "length p \<le> 65507" using assms(4) by (simp add: udp_room_def)
  note q = parse_ip_packet_pad [OF emitted_v4_parses [OF v4(3,4) p v4(1,2), of le ident hop True], of padding]
  show ?thesis
    using emit_udp_packet_v4 [OF v4(3,4) p, of le sp dp hop ident] q p assms
    by (auto simp: v4(1,2) intro!: parse_udp_segment)
next
  case (v6 a sp b dp)
  then have p: "length p \<le> 65527" using assms(4) by (simp add: udp_room_def)
  note q = parse_ip_packet_pad [OF emitted_v6_parses [OF v6(3,4) p v6(1,2), of le hop True], of padding]
  show ?thesis
    using emit_udp_packet_v6 [OF v6(3,4) p, of le sp dp hop ident] q p assms
    by (auto simp: v6(1,2) intro!: parse_udp_segment)
qed

theorem udp_round_trip_witness:
  "\<exists>packet ip. emit_udp_packet True (SocketAddr (V4 [10, 0, 0, 1]) 5353) (SocketAddr (V4 [10, 0, 0, 2]) 53)
       [1, 2, 3] 64 7 = Ok packet \<and>
     parse_ip_packet True (packet @ [0, 0]) True = Ok ip \<and>
     ip_hop_limit ip = 64 \<and> ip_fragment ip = None \<and>
     parse_udp_datagram True ip True = Ok \<lparr>udp_source = SocketAddr (V4 [10, 0, 0, 1]) 5353,
       udp_destination = SocketAddr (V4 [10, 0, 0, 2]) 53, udp_payload = [1, 2, 3]\<rparr>"
  by (rule udp_round_trip) (simp_all add: udp_room_def)

text \<open>C6: the UDP emitter succeeds exactly for two addresses of one family and a payload that fits,
and everything else is an error value: it never indexes out of bounds.\<close>

theorem emit_udp_packet_total:
  assumes "wf_ip (sa_ip s)" "wf_ip (sa_ip d)" "length p + 8 \<le> usize_max"
  shows "if same_family (sa_ip s) (sa_ip d) \<and> length p \<le> udp_room s
     then \<exists>packet. emit_udp_packet le s d p hop ident = Ok packet \<and>
            length packet = (case sa_ip s of V4 _ \<Rightarrow> 28 | V6 _ \<Rightarrow> 48) + length p
     else \<exists>reason. emit_udp_packet le s d p hop ident = Err (Malformed reason)"
proof (cases "same_family (sa_ip s) (sa_ip d)")
  case True
  with assms(1,2) show ?thesis
  proof (cases rule: emit_udp_cases)
    case (v4 a sp b dp)
    show ?thesis
    proof (cases "length p \<le> 65507")
      case True
      with v4 show ?thesis
        using emit_udp_packet_v4 [OF v4(3,4) True, of le sp dp hop ident]
        by (simp add: udp_room_def length_ipv4_header)
    next
      case False
      with v4 assms(3) show ?thesis
        by (auto simp: udp_room_def emit_udp_packet_def checked_add_def try_u16_def Let_def)
    qed
  next
    case (v6 a sp b dp)
    show ?thesis
    proof (cases "length p \<le> 65527")
      case True
      with v6 show ?thesis
        using emit_udp_packet_v6 [OF v6(3,4) True, of le sp dp hop ident]
        by (simp add: udp_room_def ipv6_header_def)
    next
      case False
      with v6 assms(3) show ?thesis
        by (auto simp: udp_room_def emit_udp_packet_def checked_add_def try_u16_def Let_def)
    qed
  qed
next
  case False
  then show ?thesis
    using assms(3) by (cases "sa_ip s"; cases "sa_ip d")
      (auto simp: emit_udp_packet_def checked_add_def try_u16_def Let_def)
qed

theorem emit_udp_packet_total_witness:
  "if same_family (V4 [10, 0, 0, 1]) (V6 (replicate 16 1)) \<and> length [1, 2 :: u8] \<le> udp_room (SocketAddr (V4 [10, 0, 0, 1]) 1)
     then \<exists>packet. emit_udp_packet True (SocketAddr (V4 [10, 0, 0, 1]) 1) (SocketAddr (V6 (replicate 16 1)) 2) [1, 2] 64 7 = Ok packet \<and>
            length packet = 28 + length [1, 2 :: u8]
     else \<exists>reason. emit_udp_packet True (SocketAddr (V4 [10, 0, 0, 1]) 1) (SocketAddr (V6 (replicate 16 1)) 2) [1, 2] 64 7
            = Err (Malformed reason)"
  using emit_udp_packet_total [of "SocketAddr (V4 [10, 0, 0, 1]) 1" "SocketAddr (V6 (replicate 16 1)) 2" "[1, 2]" True 64 7]
  by simp

end
