(* ===== verification/Fragmentation.thy ===== *)
theory Fragmentation
  imports Emit
begin

unbundle bit_operations_syntax

text \<open>
  Source fragmentation of \<^verbatim>\<open>ip/fragmentation.rs\<close>: the IPv4 loop with its copied options, the IPv6 insertion
  of the Fragment header, and every refusal.  The loop over the IPv4 payload runs on fuel, one unit
  per byte of payload: each turn emits at least eight bytes.
\<close>

section \<open>Definitions\<close>

text \<open>\<open>slice::chunks\<close>; the chunk size is never zero here.\<close>

function chunks :: "nat \<Rightarrow> 'a list \<Rightarrow> 'a list list" where
  "chunks n xs = (if xs = [] \<or> n = 0 then [] else take n xs # chunks n (drop n xs))"
  by pat_completeness auto

termination
  by (relation "measure (\<lambda>(n, xs). length xs)") auto

declare chunks.simps [simp del]

definition aligned_chunk :: "nat \<Rightarrow> nat \<Rightarrow> nat wire" where
  "aligned_chunk mtu header_len =
     and_then (ok_or (checked_sub mtu header_len) (Malformed ''MTU smaller than IP header'')) (\<lambda>available.
     let chunk = available div 8 * 8 in
     if chunk = 0 then Err (Malformed ''MTU cannot carry an IP fragment'') else Ok chunk)"

function copied_loop :: "bytes \<Rightarrow> nat \<Rightarrow> bytes \<Rightarrow> bytes wire" where
  "copied_loop options offset copied =
     (if offset < length options then
        let kind = options ! offset in
        if kind = 0 then Ok copied
        else if kind = 1 then copied_loop options (offset + 1) copied
        else case get_opt options (offset + 1) of
          None \<Rightarrow> Err (Malformed ''truncated IPv4 option'')
        | Some l \<Rightarrow>
            if unat l < 2 \<or> offset + unat l > length options then Err (Malformed ''invalid IPv4 option length'')
            else copied_loop options (offset + unat l)
                   (if kind AND 0x80 \<noteq> 0 then copied @ take (unat l) (drop offset options) else copied)
      else Ok copied)"
  by pat_completeness auto

termination
  by (relation "measure (\<lambda>(options, offset, _). length options - offset)") auto

declare copied_loop.simps [simp del]

definition copied_ipv4_options :: "bytes \<Rightarrow> bytes wire" where
  "copied_ipv4_options options =
     and_then (copied_loop options 0 []) (\<lambda>copied.
     let copied = copied @ replicate (next_multiple_of (length copied) 4 - length copied) 0 in
     if 40 < length copied then Err (Malformed ''copied IPv4 options exceed header'') else Ok copied)"

definition ipv4_fragment ::
  "bool \<Rightarrow> bytes \<Rightarrow> nat \<Rightarrow> bytes \<Rightarrow> u32 \<Rightarrow> bytes \<Rightarrow> nat \<Rightarrow> nat \<Rightarrow> bytes wire" where
  "ipv4_fragment le packet header_len copied_options ident payload offset amount =
     (let later_header_len = 20 + length copied_options;
          first = (offset = 0) in
      and_then (slice payload offset (offset + amount)) (\<lambda>chunk.
      let current_header_len = (if first then header_len else later_header_len) in
      and_then
        (if first then slice packet 0 header_len
         else and_then (slice packet 0 20) (\<lambda>header.
           let header = header @ copied_options in
           if later_header_len div 4 \<le> u8_max
           then store header 0 (0x40 OR word_of_nat (later_header_len div 4)) else Panic)) (\<lambda>header.
      let fragment = header @ chunk in
      and_then (copy_at fragment 4 6 (drop 2 (to_be32 ident))) (\<lambda>fragment.
      and_then (ok_or (try_u16 (length fragment)) (Malformed ''IPv4 fragment too large'')) (\<lambda>fragment_len.
      and_then (copy_at fragment 2 4 (to_be16 fragment_len)) (\<lambda>fragment.
      and_then (ok_or (try_u16 (offset div 8)) (Malformed ''IPv4 fragment offset overflow'')) (\<lambda>bits.
      let bits = (if offset + amount < length payload then bits OR 0x2000 else bits) in
      and_then (copy_at fragment 6 8 (to_be16 bits)) (\<lambda>fragment.
      and_then (copy_at fragment 10 12 [0, 0]) (\<lambda>fragment.
      and_then (slice fragment 0 current_header_len) (\<lambda>header.
      copy_at fragment 10 12 (to_be16 (finalize_checksum (checksum_sum le header 0)))))))))))))"

primrec ipv4_fragments ::
  "nat \<Rightarrow> bool \<Rightarrow> bytes \<Rightarrow> nat \<Rightarrow> bytes \<Rightarrow> nat \<Rightarrow> nat \<Rightarrow> u32 \<Rightarrow> bytes \<Rightarrow> nat \<Rightarrow> bytes list wire" where
  "ipv4_fragments 0 le packet header_len copied_options first_chunk_len later_chunk_len ident payload offset =
     (if offset < length payload then Panic else Ok [])"
| "ipv4_fragments (Suc n) le packet header_len copied_options first_chunk_len later_chunk_len ident payload offset =
     (if offset < length payload then
        let capacity = (if offset = 0 then first_chunk_len else later_chunk_len);
            remaining = length payload - offset;
            amount = min remaining capacity in
        and_then (ipv4_fragment le packet header_len copied_options ident payload offset amount) (\<lambda>fragment.
        and_then (ok_or (checked_add offset amount) (Malformed ''IPv4 fragment offset overflow'')) (\<lambda>offset.
        and_then (ipv4_fragments n le packet header_len copied_options first_chunk_len later_chunk_len ident payload offset) (\<lambda>rest.
        Ok (fragment # rest))))
      else Ok [])"

definition fragment_ipv4 :: "bool \<Rightarrow> bytes \<Rightarrow> nat \<Rightarrow> u32 \<Rightarrow> bytes list wire" where
  "fragment_ipv4 le packet mtu ident =
     and_then (idx packet 0) (\<lambda>b0.
     let header_len = unat (b0 AND 0x0f) * 4 in
     and_then (slice packet 20 header_len) (\<lambda>options.
     and_then (copied_ipv4_options options) (\<lambda>copied_options.
     let later_header_len = 20 + length copied_options in
     and_then (aligned_chunk mtu header_len) (\<lambda>first_chunk_len.
     and_then (aligned_chunk mtu later_header_len) (\<lambda>later_chunk_len.
     and_then (slice packet header_len (length packet)) (\<lambda>payload.
     ipv4_fragments (length payload) le packet header_len copied_options first_chunk_len later_chunk_len ident payload 0))))))"

text \<open>The extension headers up to the upper-layer one: each its kind, position and length.\<close>

primrec insertion_records ::
  "nat \<Rightarrow> bytes \<Rightarrow> nat \<Rightarrow> u8 \<Rightarrow> nat \<Rightarrow> (u8 \<times> nat \<times> nat) list \<Rightarrow> (u8 \<times> (u8 \<times> nat \<times> nat) list) wire" where
  "insertion_records 0 packet total_len next_header offset records = Ok (next_header, records)"
| "insertion_records (Suc n) packet total_len next_header offset records =
     (if next_header = 44 then Err (Unsupported ''already-fragmented IPv6 packet'')
      else if next_header \<notin> {0, 43, 60, 51} then Ok (next_header, records)
      else if offset + 2 > total_len then Err Truncated
      else and_then (idx packet (offset + 1)) (\<lambda>l.
        let len = (if next_header = 51 then (unat l + 2) * 4 else (unat l + 1) * 8) in
        if offset + len > total_len then Err Truncated
        else and_then (idx packet offset) (\<lambda>following.
          insertion_records n packet total_len following (offset + len) (records @ [(next_header, offset, len)]))))"

text \<open>\<open>rposition\<close> of a Routing header, plus one; otherwise the leading Hop-by-Hop headers.\<close>

definition included_records :: "(u8 \<times> nat \<times> nat) list \<Rightarrow> nat" where
  "included_records records =
     (if \<exists>r\<in>set records. fst r = 43
      then length records - length (takeWhile (\<lambda>r. fst r \<noteq> 43) (rev records))
      else length (takeWhile (\<lambda>r. fst r = 0) records))"

definition ipv6_fragment_insertion :: "bytes \<Rightarrow> (nat \<times> nat \<times> u8) wire" where
  "ipv6_fragment_insertion packet =
     and_then (read16 packet 4 5) (\<lambda>pl.
     and_then (ok_or (checked_add 40 (unat pl)) Truncated) (\<lambda>total_len.
     and_then (idx packet 6) (\<lambda>next_header.
     and_then (insertion_records 8 packet total_len next_header 40 []) (\<lambda>(next_header, records).
     if next_header \<in> {0, 43, 44, 51, 60} then Err (Unsupported ''IPv6 extension chain exceeds limit'')
     else
       let included = included_records records in
       and_then
         (if included = 0 then Ok (40, 6)
          else and_then (idx records (included - 1)) (\<lambda>(_, start, len). Ok (start + len, start))) (\<lambda>(insertion, previous).
       and_then (idx packet previous) (\<lambda>original. Ok (insertion, previous, original)))))))"

definition ipv6_fragment :: "bytes \<Rightarrow> nat \<Rightarrow> nat \<Rightarrow> u8 \<Rightarrow> u32 \<Rightarrow> bytes \<Rightarrow> nat \<Rightarrow> bytes \<Rightarrow> bytes wire" where
  "ipv6_fragment packet insertion previous original ident payload offset chunk =
     and_then (slice packet 0 insertion) (\<lambda>fragment.
     and_then (store fragment previous 44) (\<lambda>fragment.
     and_then (ok_or (try_u16 (insertion - 40 + 8 + length chunk)) (Malformed ''IPv6 fragment too large'')) (\<lambda>payload_len.
     and_then (copy_at fragment 4 6 (to_be16 payload_len)) (\<lambda>fragment.
     and_then (ok_or (try_u16 offset) (Malformed ''IPv6 fragment offset overflow'')) (\<lambda>bits.
     let bits = (if offset + length chunk < length payload then bits OR 1 else bits) in
     Ok (fragment @ [original, 0] @ to_be16 bits @ to_be32 ident @ chunk))))))"

fun ipv6_fragments ::
  "bytes \<Rightarrow> nat \<Rightarrow> nat \<Rightarrow> u8 \<Rightarrow> u32 \<Rightarrow> bytes \<Rightarrow> nat \<Rightarrow> nat \<Rightarrow> bytes list \<Rightarrow> bytes list wire" where
  "ipv6_fragments packet insertion previous original ident payload chunk_len index [] = Ok []"
| "ipv6_fragments packet insertion previous original ident payload chunk_len index (chunk # rest) =
     and_then (if index * chunk_len \<le> usize_max then Ok (index * chunk_len)
               else Err (Malformed ''IPv6 fragment offset overflow'')) (\<lambda>offset.
     and_then (ipv6_fragment packet insertion previous original ident payload offset chunk) (\<lambda>fragment.
     and_then (ipv6_fragments packet insertion previous original ident payload chunk_len (index + 1) rest) (\<lambda>fragments.
     Ok (fragment # fragments))))"

definition fragment_ipv6 :: "bytes \<Rightarrow> nat \<Rightarrow> u32 \<Rightarrow> bytes list wire" where
  "fragment_ipv6 packet mtu ident =
     and_then (ipv6_fragment_insertion packet) (\<lambda>(insertion, previous, original).
     and_then (aligned_chunk mtu (insertion + 8)) (\<lambda>chunk_len.
     and_then (slice packet insertion (length packet)) (\<lambda>payload.
     ipv6_fragments packet insertion previous original ident payload chunk_len 0 (chunks chunk_len payload))))"

definition fragment_outbound_ip_packet :: "bool \<Rightarrow> bytes \<Rightarrow> nat \<Rightarrow> u32 \<Rightarrow> bytes list wire" where
  "fragment_outbound_ip_packet le packet mtu ident =
     and_then (parse_ip_packet le packet True) (\<lambda>ip.
     and_then
       (case ip_version ip of
          IpV4 \<Rightarrow> and_then (read16 packet 2 3) (\<lambda>w. Ok (unat w))
        | IpV6 \<Rightarrow> and_then (read16 packet 4 5) (\<lambda>w. Ok (40 + unat w))) (\<lambda>packet_len.
     and_then (slice packet 0 packet_len) (\<lambda>datagram.
     if packet_len \<le> mtu then Ok [datagram]
     else if (case ip_fragment ip of None \<Rightarrow> False | Some f \<Rightarrow> \<not> is_atomic f)
     then Err (Unsupported ''source fragmentation cannot refragment an IP fragment'')
     else case ip_version ip of
       IpV4 \<Rightarrow> fragment_ipv4 le datagram mtu ident
     | IpV6 \<Rightarrow> fragment_ipv6 datagram mtu ident)))"

end
