(* ===== verification/Frag_Facts.thy ===== *)
theory Frag_Facts
  imports Fragmentation
begin

unbundle bit_operations_syntax

text \<open>
  What source fragmentation emits, in closed form: the chunks of the payload, the copied IPv4 options, the
  bits of the fragment field, and each fragment as a byte string.
\<close>

section \<open>Chunks\<close>

lemma chunks_Nil [simp]: "chunks n [] = []"
  by (subst chunks.simps) simp

lemma chunks_Cons: "xs \<noteq> [] \<Longrightarrow> 0 < n \<Longrightarrow> chunks n xs = take n xs # chunks n (drop n xs)"
  by (subst chunks.simps) simp

lemma concat_chunks: "0 < n \<Longrightarrow> concat (chunks n xs) = xs"
  by (induction n xs rule: chunks.induct) (subst chunks.simps, auto)

text \<open>Chunks that start at \<open>off\<close> in a payload of \<open>tot\<close> bytes: nonempty, and all but the last a multiple of eight.\<close>

fun tiling :: "nat \<Rightarrow> nat \<Rightarrow> 'a list list \<Rightarrow> bool" where
  "tiling off tot [] \<longleftrightarrow> off = tot"
| "tiling off tot (c # cs) \<longleftrightarrow> c \<noteq> [] \<and> (off + length c < tot \<longrightarrow> 8 dvd length c) \<and> off + length c \<le> tot \<and>
     tiling (off + length c) tot cs"

lemma tiling_chunks: "0 < n \<Longrightarrow> 8 dvd n \<Longrightarrow> tiling off (off + length xs) (chunks n xs)"
proof (induction n xs arbitrary: off rule: chunks.induct)
  case (1 n xs)
  show ?case
  proof (cases "xs = []")
    case False
    have "tiling (off + min (length xs) n) (off + min (length xs) n + length (drop n xs)) (chunks n (drop n xs))"
      using False 1(2,3) by (intro "1.IH") simp_all
    moreover have e: "off + min (length xs) n + length (drop n xs) = off + length xs" by simp
    ultimately have t: "tiling (off + min (length xs) n) (off + length xs) (chunks n (drop n xs))" by (simp only: e)
    have "off + min (length xs) n < off + length xs \<longrightarrow> min (length xs) n = n" by (simp add: min_def)
    then have "off + min (length xs) n < off + length xs \<longrightarrow> 8 dvd min (length xs) n" using 1(3) by metis
    then show ?thesis using False 1(2) t unfolding chunks_Cons [OF False 1(2)] tiling.simps length_take by simp
  qed simp
qed

definition ipv4_chunks :: "nat \<Rightarrow> nat \<Rightarrow> 'a list \<Rightarrow> 'a list list" where
  "ipv4_chunks fc lc xs = (if xs = [] then [] else take fc xs # chunks lc (drop fc xs))"

lemma concat_ipv4_chunks: "0 < lc \<Longrightarrow> concat (ipv4_chunks fc lc xs) = xs"
  by (simp add: ipv4_chunks_def concat_chunks)

lemma tiling_ipv4_chunks:
  assumes "0 < fc" "8 dvd fc" "0 < lc" "8 dvd lc" shows "tiling 0 (length xs) (ipv4_chunks fc lc xs)"
proof -
  have "tiling (min (length xs) fc) (min (length xs) fc + length (drop fc xs)) (chunks lc (drop fc xs))"
    using assms(3,4) by (rule tiling_chunks)
  moreover have e: "min (length xs) fc + length (drop fc xs) = length xs" by simp
  ultimately have t: "tiling (min (length xs) fc) (length xs) (chunks lc (drop fc xs))" by (simp only: e)
  have "min (length xs) fc < length xs \<longrightarrow> min (length xs) fc = fc" by (simp add: min_def)
  then have "min (length xs) fc < length xs \<longrightarrow> 8 dvd min (length xs) fc" using assms(2) by metis
  then show ?thesis using t assms(1) by (simp add: ipv4_chunks_def)
qed

lemma aligned_chunk_Ok:
  assumes "aligned_chunk mtu h = Ok c" shows "0 < c" "8 dvd c" "h + c \<le> mtu"
proof -
  have c: "h \<le> mtu" "c = (mtu - h) div 8 * 8" "c \<noteq> 0"
    using assms by (auto simp: aligned_chunk_def and_then_Ok_iff checked_sub_def ok_or_def Let_def split: if_splits)
  moreover have "(mtu - h) div 8 * 8 \<le> mtu - h" by (rule div_times_less_eq_dividend)
  ultimately show "0 < c" "8 dvd c" "h + c \<le> mtu" by auto
qed

lemma aligned_chunk_total: "h + 8 \<le> mtu \<Longrightarrow> aligned_chunk mtu h = Ok ((mtu - h) div 8 * 8)"
proof -
  assume "h + 8 \<le> mtu"
  then have "8 \<le> mtu - h" by simp
  then have "1 \<le> (mtu - h) div 8" by (simp add: less_eq_div_iff_mult_less_eq)
  then show ?thesis using \<open>h + 8 \<le> mtu\<close> by (simp add: aligned_chunk_def checked_sub_def ok_or_def Let_def)
qed

section \<open>Copied options\<close>

definition tlv :: "bytes \<Rightarrow> bool" where
  "tlv t \<longleftrightarrow> 2 \<le> length t \<and> t ! 0 \<noteq> 0 \<and> t ! 0 \<noteq> 1 \<and> unat (t ! 1) = length t"

lemma validate_tlvs:
  "\<forall>t\<in>set ts. tlv t \<Longrightarrow> length (pre @ concat ts @ replicate n 0) \<le> 1000 \<Longrightarrow>
   validate_ipv4_options (pre @ concat ts @ replicate n 0) (length pre) = Ok ()"
proof (induction ts arbitrary: pre)
  case Nil
  show ?case
  proof (cases n)
    case 0 then show ?thesis by (subst validate_ipv4_options.simps) simp
  next
    case (Suc k) then show ?thesis by (subst validate_ipv4_options.simps) auto
  qed
next
  case (Cons t ts)
  let ?os = "pre @ concat (t # ts) @ replicate n 0"
  have t: "2 \<le> length t" "t ! 0 \<noteq> 0" "t ! 0 \<noteq> 1" "unat (t ! 1) = length t" using Cons.prems(1) by (auto simp: tlv_def)
  have nth: "?os ! length pre = t ! 0" "?os ! (length pre + 1) = t ! 1" using t(1) by (auto simp: nth_append)
  have lt: "length pre < length ?os" "length pre + 1 < length ?os" "length pre + length t \<le> length ?os" using t(1) by auto
  have g: "get_opt ?os (length pre + 1) = Some (t ! 1)" using nth(2) lt(2) unfolding get_opt_def by simp
  have c: "checked_add (length pre) (length t) = Some (length pre + length t)"
    using Cons.prems(2) by (auto simp: checked_add_def)
  have "validate_ipv4_options ?os (length pre) = validate_ipv4_options ?os (length pre + length t)"
    by (subst validate_ipv4_options.simps) (use lt t nth g c in \<open>simp del: concat.simps\<close>)
  also have "\<dots> = validate_ipv4_options ((pre @ t) @ concat ts @ replicate n 0) (length (pre @ t))" by simp
  also have "\<dots> = Ok ()" using Cons.prems by (intro Cons.IH) auto
  finally show ?case .
qed

lemma copied_loop_spec:
  assumes "validate_ipv4_options options offset = Ok ()" "offset \<le> length options" "length options \<le> 1000"
    "\<forall>t\<in>set ts. tlv t"
  shows "\<exists>ts'. copied_loop options offset (concat ts) = Ok (concat ts') \<and> (\<forall>t\<in>set ts'. tlv t) \<and>
    length (concat ts') + offset \<le> length (concat ts) + length options"
  using assms
proof (induction options offset arbitrary: ts rule: validate_ipv4_options.induct)
  case (1 options offset)
  show ?case
  proof (cases "offset < length options \<and> options ! offset \<noteq> 0")
    case False
    then have "copied_loop options offset (concat ts) = Ok (concat ts)" by (subst copied_loop.simps) auto
    then show ?thesis using "1.prems"(2,4) by (intro exI [of _ ts]) simp
  next
    case in_range: True
    show ?thesis
    proof (cases "options ! offset = 1")
      case True
      have v: "validate_ipv4_options options (offset + 1) = Ok ()"
        using "1.prems"(1) in_range True by (subst (asm) validate_ipv4_options.simps) simp
      have "\<exists>ts'. copied_loop options (offset + 1) (concat ts) = Ok (concat ts') \<and> (\<forall>t\<in>set ts'. tlv t) \<and>
        length (concat ts') + (offset + 1) \<le> length (concat ts) + length options"
        using in_range True by (intro "1.IH"(1) v "1.prems"(3,4)) simp_all
      moreover have "copied_loop options offset (concat ts) = copied_loop options (offset + 1) (concat ts)"
        using in_range True by (subst copied_loop.simps) simp
      ultimately show ?thesis by fastforce
    next
      case False
      obtain l where l: "get_opt options (offset + 1) = Some l"
        using "1.prems"(1) in_range False by (subst (asm) validate_ipv4_options.simps) (auto split: option.splits)
      have "\<not> unat l < 2 \<and> offset + unat l \<le> length options \<and> validate_ipv4_options options (offset + unat l) = Ok ()"
        using "1.prems"(1) in_range False l
        by (subst (asm) validate_ipv4_options.simps) (auto simp: checked_add_def split: if_splits)
      then have c: "\<not> unat l < 2" "offset + unat l \<le> length options" "validate_ipv4_options options (offset + unat l) = Ok ()"
        by simp_all
      let ?t = "take (unat l) (drop offset options)"
      define ts1 where "ts1 = (if options ! offset AND 0x80 \<noteq> 0 then ts @ [?t] else ts)"
      have "tlv ?t" using c in_range False l by (auto simp: tlv_def get_opt_def split: if_splits)
      then have ts: "\<forall>t\<in>set ts1. tlv t" using "1.prems"(4) by (simp add: ts1_def)
      have ca: "checked_add offset (unat l) = Some (offset + unat l)" using c(2) "1.prems"(3) by (auto simp: checked_add_def)
      have "\<exists>ts'. copied_loop options (offset + unat l) (concat ts1) = Ok (concat ts') \<and> (\<forall>t\<in>set ts'. tlv t) \<and>
        length (concat ts') + (offset + unat l) \<le> length (concat ts1) + length options"
        using in_range by (intro "1.IH"(2) [OF _ _ False l c(1) ca c(2,3) c(2) "1.prems"(3) ts]) simp_all
      then obtain ts' where ts': "copied_loop options (offset + unat l) (concat ts1) = Ok (concat ts')" "\<forall>t\<in>set ts'. tlv t"
        "length (concat ts') + (offset + unat l) \<le> length (concat ts1) + length options" by blast
      have "copied_loop options offset (concat ts) = copied_loop options (offset + unat l) (concat ts1)"
        using in_range False l c by (subst copied_loop.simps) (auto simp: Let_def ts1_def)
      moreover have "length (concat ts1) \<le> length (concat ts) + unat l" by (simp add: ts1_def)
      ultimately show ?thesis using ts' by (intro exI [of _ ts']) simp
    qed
  qed
qed

section \<open>Offsets in the fragment field\<close>

lemma small_word_bit:
  assumes "n < 2 ^ m" "m \<le> k" shows "\<not> bit (word_of_nat n :: 'a::len word) k"
proof -
  have "n < 2 ^ k" using assms by (meson less_le_trans one_le_numeral power_increasing)
  then have "\<not> bit n k" by (simp add: bit_iff_odd)
  then show ?thesis by (simp add: bit_simps)
qed

lemma field_bits:
  "bit (0x8000 :: u16) n \<longleftrightarrow> n = 15" "bit (0x4000 :: u16) n \<longleftrightarrow> n = 14" "bit (0x2000 :: u16) n \<longleftrightarrow> n = 13"
  "bit (0x1fff :: u16) n \<longleftrightarrow> n < 13"
proof -
  have e: "bit (2 ^ m :: u16) n \<longleftrightarrow> n = m" if "m < 16" for m using that by (auto simp add: bit_exp_iff simp del: power_numeral)
  show "bit (0x8000 :: u16) n \<longleftrightarrow> n = 15" using e [of 15] by simp
  show "bit (0x4000 :: u16) n \<longleftrightarrow> n = 14" using e [of 14] by simp
  show "bit (0x2000 :: u16) n \<longleftrightarrow> n = 13" using e [of 13] by simp
  have "(0x1fff :: u16) = mask 13" by (simp add: mask_eq_exp_minus_1)
  then show "bit (0x1fff :: u16) n \<longleftrightarrow> n < 13" by (simp only: bit_mask_iff possible_bit_word) auto
qed

definition frag_bits :: "nat \<Rightarrow> bool \<Rightarrow> u16" where
  "frag_bits k mf = (if mf then word_of_nat k OR 0x2000 else word_of_nat k)"

lemma frag_bits:
  assumes "k < 8192"
  shows "frag_bits k mf AND 0x8000 = 0" "frag_bits k mf AND 0x4000 = 0"
    "frag_bits k mf AND 0x1fff = word_of_nat k" "(frag_bits k mf AND 0x2000 \<noteq> 0) = mf"
proof -
  have hi: "j < 13" if "bit (word_of_nat k :: u16) j" for j
    using small_word_bit [of k 13 j] assms that by (force simp: not_less [symmetric])
  show "frag_bits k mf AND 0x8000 = 0" "frag_bits k mf AND 0x4000 = 0" "frag_bits k mf AND 0x1fff = word_of_nat k"
    by (rule bit_eqI; auto simp: frag_bits_def bit_and_iff bit_or_iff field_bits simp del: bit_numeral_word_iff dest: hi)+
  show "(frag_bits k mf AND 0x2000 \<noteq> 0) = mf"
  proof (cases mf)
    case True
    have "bit (frag_bits k mf AND 0x2000) 13" using True by (simp add: frag_bits_def bit_and_iff bit_or_iff field_bits del: bit_numeral_word_iff)
    then show ?thesis using True by auto
  next
    case False
    have "frag_bits k mf AND 0x2000 = 0"
      by (rule bit_eqI) (use False in \<open>auto simp: frag_bits_def bit_and_iff field_bits simp del: bit_numeral_word_iff dest: hi\<close>)
    then show ?thesis using False by simp
  qed
qed

lemma offset_word:
  assumes "k < 8192" shows "ucast (word_of_nat k :: u16) * 8 = (word_of_nat (8 * k) :: u32)"
proof -
  have "ucast (word_of_nat k :: u16) = (word_of_nat k :: u32)"
    using assms by (simp add: unsigned_of_nat take_bit_nat_eq_self)
  then show ?thesis by simp
qed

section \<open>IPv4 fragments\<close>

definition frag4 :: "bool \<Rightarrow> u8 \<Rightarrow> u8 \<Rightarrow> u16 \<Rightarrow> u16 \<Rightarrow> u8 \<Rightarrow> u8 \<Rightarrow> bytes \<Rightarrow> bytes \<Rightarrow> bytes \<Rightarrow> bytes \<Rightarrow> bytes" where
  "frag4 le b0 tos i bits hop proto s d opts chunk =
     (let pre = [b0, tos] @ to_be16 (word_of_nat (20 + length opts + length chunk)) @ to_be16 i @ to_be16 bits @ [hop, proto]
      in pre @ to_be16 (finalize_checksum (checksum_sum le (pre @ [0, 0] @ s @ d @ opts) 0)) @ s @ d @ opts @ chunk)"

lemma parse_frag4:
  assumes "length s = 4" "length d = 4" "20 + length opts + length chunk \<le> 65535"
    "unat (b0 AND 0x0f) * 4 = 20 + length opts" "drop_bit 4 b0 = 4" "validate_ipv4_options opts 0 = Ok ()" "k < 8192"
  shows "parse_ip_packet le (frag4 le b0 tos i (frag_bits k mf) hop proto s d opts chunk) verify =
    Ok \<lparr>ip_version = IpV4, ip_source = V4 s, ip_destination = V4 d, ip_next_header = proto, ip_hop_limit = hop,
      ip_fragment = (if k \<noteq> 0 \<or> mf then Some \<lparr>identification = ucast i, offset_bytes = word_of_nat (8 * k),
        more_fragments = mf\<rparr> else None),
      ip_fragment_payload = (if k \<noteq> 0 \<or> mf then Some chunk else None), ip_payload = chunk\<rparr>"
proof -
  let ?n = "20 + length opts + length chunk"
  define pre where "pre = [b0, tos] @ to_be16 (word_of_nat ?n) @ to_be16 i @ to_be16 (frag_bits k mf) @ [hop, proto]"
  define ck where "ck = finalize_checksum (checksum_sum le (pre @ [0, 0] @ s @ d @ opts) 0)"
  define h where "h = pre @ to_be16 ck @ s @ d @ opts"
  have lp: "length pre = 10" by (simp add: pre_def)
  have h: "length h = 20 + length opts" "h ! 0 = b0" "be16 (h ! 2) (h ! 3) = word_of_nat ?n" "be16 (h ! 4) (h ! 5) = i"
    "be16 (h ! 6) (h ! 7) = frag_bits k mf" "h ! 8 = hop" "h ! 9 = proto" "take 4 (drop 12 h) = s" "take 4 (drop 16 h) = d"
    "drop 20 h = opts"
    using assms(1,2) by (simp_all add: h_def pre_def to_be16_def)
  have v: "checksum_sum le h 0 = 0xffff"
    unfolding h_def by (rule checksum_field) (use assms(1-3) in \<open>simp_all add: lp ck_def\<close>)
  have f: "frag4 le b0 tos i (frag_bits k mf) hop proto s d opts chunk = h @ chunk"
    by (simp add: frag4_def Let_def h_def ck_def pre_def)
  have ne: "h \<noteq> []" using h(1) by auto
  have u: "unat (word_of_nat ?n :: u16) = ?n" using assms(3) by (rule unat_word_of_nat16)
  have k0: "(word_of_nat (8 * k) :: u32) = 0 \<longleftrightarrow> k = 0"
  proof -
    have "unat (word_of_nat (8 * k) :: u32) = 8 * k"
      using assms(7) by (simp add: unsigned_of_nat take_bit_nat_eq_self del: of_nat_mult)
    then show ?thesis by (metis mult_is_0 of_nat_0 unat_0 zero_neq_numeral)
  qed
  have sl: "(slice (h @ chunk) 20 (20 + length opts) :: bytes wire) = Ok opts" "(slice (h @ chunk) 0 (20 + length opts) :: bytes wire) = Ok h"
    "(slice (h @ chunk) (20 + length opts) ?n :: bytes wire) = Ok chunk"
    "(slice (h @ chunk) 12 16 :: bytes wire) = Ok s" "(slice (h @ chunk) 16 20 :: bytes wire) = Ok d"
    using h by (simp_all add: slice_def)
  have rd: "(idx (h @ chunk) 0 :: u8 wire) = Ok b0" "(idx (h @ chunk) 8 :: u8 wire) = Ok hop" "(idx (h @ chunk) 9 :: u8 wire) = Ok proto"
    "(read16 (h @ chunk) 2 3 :: u16 wire) = Ok (word_of_nat ?n)" "(read16 (h @ chunk) 4 5 :: u16 wire) = Ok i"
    "(read16 (h @ chunk) 6 7 :: u16 wire) = Ok (frag_bits k mf)"
    using h by (simp_all add: idx_def read16_def nth_append)
  have "parse_ipv4 le (h @ chunk) verify = Ok \<lparr>ip_version = IpV4, ip_source = V4 s, ip_destination = V4 d, ip_next_header = proto, ip_hop_limit = hop,
      ip_fragment = (if k \<noteq> 0 \<or> mf then Some \<lparr>identification = ucast i, offset_bytes = word_of_nat (8 * k),
        more_fragments = mf\<rparr> else None),
      ip_fragment_payload = (if k \<noteq> 0 \<or> mf then Some chunk else None), ip_payload = chunk\<rparr>"
    unfolding parse_ipv4_def rd and_then.simps Let_def assms(4) u sl assms(6) frag_bits [OF assms(7)] offset_word [OF assms(7)]
    using h(1) v k0 frag_bits(4) [OF assms(7), of mf] by auto
  then show ?thesis
    unfolding f using ne h(2) assms(5) by (simp add: parse_ip_packet_def get_opt_def nth_append)
qed

lemma to_be32_low: "drop 2 (to_be32 w) = to_be16 (ucast w)"
proof -
  have "ucast (drop_bit 8 w) = (ucast (drop_bit 8 (ucast w :: u16)) :: u8)" "ucast w = (ucast (ucast w :: u16) :: u8)"
    by (rule bit_eqI; auto simp: bit_simps)+
  then show ?thesis by (simp add: to_be32_def to_be16_def)
qed

lemma take_ipv4_header:
  assumes "length s = 4" "length d = 4"
  shows "take (20 + length opts) (x0 # x1 # x2 # x3 # x4 # x5 # x6 # x7 # x8 # x9 # y0 # y1 # s @ d @ opts @ chunk) =
    x0 # x1 # x2 # x3 # x4 # x5 # x6 # x7 # x8 # x9 # y0 # y1 # s @ d @ opts"
proof -
  let ?h = "x0 # x1 # x2 # x3 # x4 # x5 # x6 # x7 # x8 # x9 # y0 # y1 # s @ d @ opts"
  have "20 + length opts = length ?h" using assms by simp
  then have "take (20 + length opts) (?h @ chunk) = take (length ?h) (?h @ chunk)" by (simp only:)
  also have "\<dots> = ?h" by (simp only: append_eq_conv_conj take_append take_all diff_self_eq_0 take_0 append_Nil2 order_refl)
  finally show ?thesis by simp
qed

lemma drop_ipv4_header:
  assumes "length s = 4" "length d = 4"
  shows "drop (20 + length opts) (x0 # x1 # x2 # x3 # x4 # x5 # x6 # x7 # x8 # x9 # y0 # y1 # s @ d @ opts @ chunk) = chunk"
  using take_ipv4_header [OF assms, of opts x0 x1 x2 x3 x4 x5 x6 x7 x8 x9 y0 y1 chunk]
    append_take_drop_id [of "20 + length opts" "x0 # x1 # x2 # x3 # x4 # x5 # x6 # x7 # x8 # x9 # y0 # y1 # s @ d @ opts @ chunk"]
  by simp

lemma ipv4_rewrite:
  assumes "length s = 4" "length d = 4" "20 + length opts + length chunk \<le> 65535"
  shows "and_then (copy_at ([b0, tos, l1, l2, i1, i2, f1, f2, hop, proto, c1, c2] @ s @ d @ opts @ chunk) 4 6 (to_be16 i)) (\<lambda>p.
     and_then (ok_or (try_u16 (length p)) e1) (\<lambda>n.
     and_then (copy_at p 2 4 (to_be16 n)) (\<lambda>p.
     and_then (copy_at p 6 8 (to_be16 bits)) (\<lambda>p.
     and_then (copy_at p 10 12 [0, 0]) (\<lambda>p.
     and_then (slice p 0 (20 + length opts)) (\<lambda>header.
     copy_at p 10 12 (to_be16 (finalize_checksum (checksum_sum le header 0)))))))))
   = Ok (frag4 le b0 tos i bits hop proto s d opts chunk)"
proof -
  have l: "length (take 4 ([b0, tos, l1, l2, i1, i2, f1, f2, hop, proto, c1, c2] @ s @ d @ opts @ chunk) @ to_be16 i @
      drop 6 ([b0, tos, l1, l2, i1, i2, f1, f2, hop, proto, c1, c2] @ s @ d @ opts @ chunk)) = 20 + length opts + length chunk"
    using assms(1,2) by simp
  show ?thesis
    using assms unfolding l [symmetric]
    by (simp add: copy_at_def try_u16_simps slice_simps take_ipv4_header frag4_def Let_def to_be16_def add.assoc del: of_nat_add)
qed

definition later_b0 :: "bytes \<Rightarrow> u8" where
  "later_b0 copied = 0x40 OR word_of_nat ((20 + length copied) div 4)"

definition raw4 :: "bool \<Rightarrow> u8 \<Rightarrow> u8 \<Rightarrow> u16 \<Rightarrow> u8 \<Rightarrow> u8 \<Rightarrow> bytes \<Rightarrow> bytes \<Rightarrow> bytes \<Rightarrow> bytes \<Rightarrow> nat \<Rightarrow> nat \<Rightarrow> bytes \<Rightarrow> bytes" where
  "raw4 le b0 tos i hop proto s d opts copied tot off chunk =
     (if off = 0 then frag4 le b0 tos i (frag_bits (off div 8) (off + length chunk < tot)) hop proto s d opts chunk
      else frag4 le (later_b0 copied) tos i (frag_bits (off div 8) (off + length chunk < tot)) hop proto s d copied chunk)"

lemma ipv4_fragment_eq:
  assumes "length s = 4" "length d = 4" "off + n \<le> length payload" "off \<le> 65535"
    "off = 0 \<Longrightarrow> 20 + length opts + n \<le> 65535" "off \<noteq> 0 \<Longrightarrow> 20 + length copied + n \<le> 65535" "length copied \<le> 40"
  shows "ipv4_fragment le ([b0, tos, l1, l2, i1, i2, f1, f2, hop, proto, c1, c2] @ s @ d @ opts @ payload) (20 + length opts) copied ident payload off n
    = Ok (raw4 le b0 tos (ucast ident) hop proto s d opts copied (length payload) off (take n (drop off payload)))"
proof -
  let ?c = "take n (drop off payload)"
  have lc: "length ?c = n" using assms(3) by simp
  have sl: "slice payload off (off + n) = (Ok ?c :: bytes wire)" using assms(3) by (simp add: slice_simps)
  have u: "try_u16 (off div 8) = Some (word_of_nat (off div 8))" using assms(4) by (intro try_u16_simps) simp
  have b: "(if off + n < length payload then word_of_nat (off div 8) OR 0x2000 else word_of_nat (off div 8)) =
      frag_bits (off div 8) (off + length ?c < length payload)" unfolding lc frag_bits_def by simp
  show ?thesis
  proof (cases "off = 0")
    case True
    have h: "slice ([b0, tos, l1, l2, i1, i2, f1, f2, hop, proto, c1, c2] @ s @ d @ opts @ payload) 0 (20 + length opts) =
        (Ok ([b0, tos, l1, l2, i1, i2, f1, f2, hop, proto, c1, c2] @ s @ d @ opts) :: bytes wire)"
      using assms(1,2) by (simp add: slice_simps take_ipv4_header)
    show ?thesis
      unfolding ipv4_fragment_def Let_def sl and_then.simps if_P [OF True] h append_assoc to_be32_low u ok_or_simps b
      by (subst ipv4_rewrite) (use assms True lc in \<open>simp_all add: raw4_def\<close>)
  next
    case False
    have h: "and_then (slice ([b0, tos, l1, l2, i1, i2, f1, f2, hop, proto, c1, c2] @ s @ d @ opts @ payload) 0 20) (\<lambda>header.
        if (20 + length copied) div 4 \<le> u8_max
           then store (header @ copied) 0 (0x40 OR word_of_nat ((20 + length copied) div 4)) else Panic) =
        (Ok ([later_b0 copied, tos, l1, l2, i1, i2, f1, f2, hop, proto, c1, c2] @ s @ d @ copied) :: bytes wire)"
      using assms(1,2,7) by (simp add: slice_simps later_b0_def)
    show ?thesis
      unfolding ipv4_fragment_def Let_def sl and_then.simps if_not_P [OF False] h append_assoc to_be32_low u ok_or_simps b
      by (subst ipv4_rewrite) (use assms False lc in \<open>simp_all add: raw4_def\<close>)
  qed
qed

text \<open>Chunks laid out one after the other.\<close>

fun place :: "(nat \<Rightarrow> 'a list \<Rightarrow> 'b) \<Rightarrow> nat \<Rightarrow> 'a list list \<Rightarrow> 'b list" where
  "place f off [] = []"
| "place f off (c # cs) = f off c # place f (off + length c) cs"

lemma ipv4_fragments_eq:
  assumes "length s = 4" "length d = 4" "length payload \<le> 65535" "0 < fc" "0 < lc"
    "20 + length opts + fc \<le> 65535" "20 + length copied + lc \<le> 65535" "length copied \<le> 40"
    "off \<le> length payload" "length payload \<le> off + fuel"
  shows "ipv4_fragments fuel le ([b0, tos, l1, l2, i1, i2, f1, f2, hop, proto, c1, c2] @ s @ d @ opts @ payload) (20 + length opts)
      copied fc lc ident payload off
    = Ok (place (raw4 le b0 tos (ucast ident) hop proto s d opts copied (length payload)) off
        (if off = 0 then ipv4_chunks fc lc payload else chunks lc (drop off payload)))"
  using assms(9,10)
proof (induction fuel arbitrary: off)
  case 0
  then show ?case by (auto simp: ipv4_chunks_def)
next
  case (Suc fuel)
  let ?p = "[b0, tos, l1, l2, i1, i2, f1, f2, hop, proto, c1, c2] @ s @ d @ opts @ payload"
  show ?case
  proof (cases "off < length payload")
    case False
    then have "off = length payload" using Suc.prems(1) by simp
    then show ?thesis by (auto simp: ipv4_chunks_def)
  next
    case True
    define cap where "cap = (if off = 0 then fc else lc)"
    define n where "n = min (length payload - off) cap"
    have n: "0 < n" "off + n \<le> length payload" "n \<le> cap" using True assms(4,5) by (auto simp: n_def cap_def)
    have f: "ipv4_fragment le ?p (20 + length opts) copied ident payload off n =
        Ok (raw4 le b0 tos (ucast ident) hop proto s d opts copied (length payload) off (take n (drop off payload)))"
      using n assms(3,6-8) True by (intro ipv4_fragment_eq assms(1,2)) (auto simp: n_def cap_def)
    have c: "checked_add off n = Some (off + n)" using n(2) assms(3) by (simp add: checked_add_def)
    have ih: "ipv4_fragments fuel le ?p (20 + length opts) copied fc lc ident payload (off + n) =
        Ok (place (raw4 le b0 tos (ucast ident) hop proto s d opts copied (length payload)) (off + n) (chunks lc (drop (off + n) payload)))"
      using Suc.IH [of "off + n"] n Suc.prems(2) by simp
    have "drop (off + n) payload = drop cap (drop off payload)"
    proof (cases "length payload - off \<le> cap")
      case True then show ?thesis using n(2) by (simp add: n_def)
    next
      case False then show ?thesis by (simp add: n_def add.commute)
    qed
    moreover have t: "take n (drop off payload) = take cap (drop off payload)"
      by (simp add: n_def min_def)
    moreover have "length (take cap (drop off payload)) = n" unfolding t [symmetric] using n(2) by simp
    moreover have "drop off payload \<noteq> []" using True by simp
    ultimately have ch: "(if off = 0 then ipv4_chunks fc lc payload else chunks lc (drop off payload)) =
        take n (drop off payload) # chunks lc (drop (off + n) payload)" "length (take n (drop off payload)) = n"
      using assms(5) by (auto simp: ipv4_chunks_def cap_def chunks_Cons)
    show ?thesis
      unfolding ch(1) place.simps ch(2) ipv4_fragments.simps if_P [OF True] Let_def cap_def [symmetric] n_def [symmetric] f and_then.simps
        c ok_or_simps ih ..
  qed
qed

end
