(* ===== verification/Frag_Tile.thy ===== *)
theory Frag_Tile
  imports Frag_Facts
begin

unbundle bit_operations_syntax

text \<open>
  The fragments of a whole datagram: they tile the payload within the MTU and each parses to its
  place in the datagram.
\<close>

definition packet_len :: "ParsedIpPacket \<Rightarrow> bytes \<Rightarrow> nat" where
  "packet_len ip packet = (case ip_version ip of IpV4 \<Rightarrow> unat (be16 (packet ! 2) (packet ! 3))
     | IpV6 \<Rightarrow> 40 + unat (be16 (packet ! 4) (packet ! 5)))"

lemma length_12E:
  assumes "length p = 12"
  obtains x0 x1 x2 x3 x4 x5 x6 x7 x8 x9 y0 y1 where "p = [x0, x1, x2, x3, x4, x5, x6, x7, x8, x9, y0, y1]"
  using assms by (auto simp: numeral_eq_Suc length_Suc_conv)

lemma split_20:
  assumes "20 \<le> length p"
  obtains x0 x1 x2 x3 x4 x5 x6 x7 x8 x9 y0 y1 s d rest where
    "p = [x0, x1, x2, x3, x4, x5, x6, x7, x8, x9, y0, y1] @ s @ d @ rest" "length s = 4" "length d = 4"
proof -
  have "length (take 12 p) = 12" using assms by simp
  then obtain x0 x1 x2 x3 x4 x5 x6 x7 x8 x9 y0 y1 where h: "take 12 p = [x0, x1, x2, x3, x4, x5, x6, x7, x8, x9, y0, y1]"
    by (rule length_12E)
  have "drop 16 p = drop 4 (drop 12 p)" "drop 20 p = drop 4 (drop 16 p)" by simp_all
  then have "p = take 12 p @ take 4 (drop 12 p) @ take 4 (drop 16 p) @ drop 20 p" by (metis append_take_drop_id)
  then show thesis using that [of x0 x1 x2 x3 x4 x5 x6 x7 x8 x9 y0 y1 "take 4 (drop 12 p)" "take 4 (drop 16 p)" "drop 20 p"] h assms
    by simp
qed

lemma parse_ipv4_options:
  assumes "parse_ipv4 le packet verify = Ok ip"
  shows "validate_ipv4_options (take (unat (packet ! 0 AND 15) * 4 - 20) (drop 20 packet)) 0 = Ok ()"
proof -
  have len: "20 \<le> length packet" using assms by (auto simp: parse_ipv4_def split: if_splits)
  show ?thesis using assms len
    by (auto simp: parse_ipv4_def Let_def slice_simps and_then_Ok_iff idx_Ok_iff slice_Ok_iff split: if_splits)
qed

lemma ipv4_datagram:
  assumes "parse_ip_packet le packet True = Ok ip" "ip_version ip = IpV4"
  obtains b0 tos l1 l2 i1 i2 f1 f2 hop proto c1 c2 s d opts payload where
    "take (packet_len ip packet) packet = [b0, tos, l1, l2, i1, i2, f1, f2, hop, proto, c1, c2] @ s @ d @ opts @ payload"
    "length s = 4" "length d = 4" "unat (b0 AND 0x0f) * 4 = 20 + length opts" "drop_bit 4 b0 = 4"
    "validate_ipv4_options opts 0 = Ok ()" "20 + length opts + length payload \<le> 65535"
    "ip = \<lparr>ip_version = IpV4, ip_source = V4 s, ip_destination = V4 d, ip_next_header = proto, ip_hop_limit = hop,
       ip_fragment = ip_fragment ip, ip_fragment_payload = map_option (\<lambda>_. payload) (ip_fragment ip), ip_payload = payload\<rparr>"
    "packet_len ip packet = 20 + length opts + length payload" "packet_len ip packet \<le> length packet"
proof -
  have ne: "packet \<noteq> []" using assms(1) by (auto simp: parse_ip_packet_def get_opt_def)
  have v4: "drop_bit 4 (packet ! 0) = 4" "parse_ipv4 le packet True = Ok ip"
    using assms parse_ipv6_parsed_ok(2) [of packet True ip] ne
    by (auto simp: parse_ip_packet_def get_opt_def Let_def split: if_splits)
  let ?hl = "unat (packet ! 0 AND 15) * 4" and ?tl = "unat (be16 (packet ! 2) (packet ! 3))"
  have pl: "packet_len ip packet = ?tl" by (simp add: packet_len_def assms(2))
  have b: "20 \<le> ?hl" "?hl \<le> ?tl" "?tl \<le> length packet" using parse_ipv4_OkD [OF v4(2)] by blast+
  obtain x0 x1 x2 x3 x4 x5 x6 x7 x8 x9 y0 y1 s d rest where
    p: "packet = [x0, x1, x2, x3, x4, x5, x6, x7, x8, x9, y0, y1] @ s @ d @ rest" "length s = 4" "length d = 4"
    using b by (elim split_20 [rotated]) linarith
  have d20: "drop 20 packet = rest" using p by simp
  have hd: "packet ! 0 = x0" "packet ! 8 = x8" "packet ! 9 = x9" "take 4 (drop 12 packet) = s" "take 4 (drop 16 packet) = d"
    using p by simp_all
  define hl tl where "hl = ?hl" and "tl = ?tl"
  define opts where "opts = take (hl - 20) rest"
  define payload where "payload = take (tl - hl) (drop (hl - 20) rest)"
  have bb: "20 \<le> hl" "hl \<le> tl" "tl \<le> length packet" using b by (simp_all add: hl_def tl_def)
  have lr: "length packet = 20 + length rest" using p by simp
  have lo: "length opts = hl - 20" "length payload = tl - hl" using bb lr by (simp_all add: opts_def payload_def)
  have "take (tl - 20) rest = opts @ payload"
    unfolding opts_def payload_def using bb(1,2) by (simp add: take_add [symmetric])
  moreover have "take tl packet = [x0, x1, x2, x3, x4, x5, x6, x7, x8, x9, y0, y1] @ s @ d @ take (tl - 20) rest"
    unfolding p(1) using p(2,3) bb by (simp add: take_Cons' numeral_eq_Suc)
  ultimately have t: "take tl packet = [x0, x1, x2, x3, x4, x5, x6, x7, x8, x9, y0, y1] @ s @ d @ opts @ payload" by simp
  have dh: "take (tl - hl) (drop hl packet) = payload"
  proof -
    have "drop hl packet = drop (hl - 20) (drop 20 packet)" using bb(1) by simp
    then show ?thesis by (simp only: d20 payload_def)
  qed
  have ip: "ip = \<lparr>ip_version = IpV4, ip_source = V4 s, ip_destination = V4 d, ip_next_header = x9, ip_hop_limit = x8,
       ip_fragment = ip_fragment ip, ip_fragment_payload = map_option (\<lambda>_. payload) (ip_fragment ip), ip_payload = payload\<rparr>"
    using parse_ipv4_OkD [OF v4(2)] unfolding hl_def [symmetric] tl_def [symmetric] dh hd(2-5) by auto
  have vo: "validate_ipv4_options opts 0 = Ok ()"
    using parse_ipv4_options [OF v4(2)] unfolding hl_def [symmetric] d20 opts_def .
  have "tl \<le> 65535" by (simp add: tl_def)
  moreover have e: "20 + length opts + length payload = tl" using lo bb by linarith
  ultimately have m: "20 + length opts + length payload \<le> 65535" by (simp only:)
  have h: "unat (x0 AND 0x0f) * 4 = 20 + length opts" "drop_bit 4 x0 = 4" using lo(1) bb(1) hl_def v4(1) hd(1) by simp_all
  have l: "packet_len ip packet = 20 + length opts + length payload" using pl e by (simp add: tl_def)
  have t': "take (packet_len ip packet) packet = [x0, x1, x2, x3, x4, x5, x6, x7, x8, x9, y0, y1] @ s @ d @ opts @ payload"
    using t l e by simp
  show thesis by (rule that [OF t' p(2,3) h vo m ip l]) (use l e bb(3) in simp)
qed

text \<open>The header length of a later fragment is encoded in its first byte.\<close>

lemma later_b0:
  assumes "length copied \<le> 40" "4 dvd length copied"
  shows "unat (later_b0 copied AND 0x0f) * 4 = 20 + length copied" "drop_bit 4 (later_b0 copied) = 4"
proof -
  obtain k where k: "length copied = 4 * k" using assms(2) by auto
  then have "k \<le> 10" using assms(1) by simp
  then have "k \<in> {0, 1, 2, 3, 4, 5, 6, 7, 8, 9, 10}" unfolding insert_iff empty_iff by presburger
  then show "unat (later_b0 copied AND 0x0f) * 4 = 20 + length copied" "drop_bit 4 (later_b0 copied) = 4"
    by (auto simp: later_b0_def k)
qed

lemma next_multiple_of_4: "4 dvd next_multiple_of l 4" "l \<le> next_multiple_of l 4" "next_multiple_of l 4 < l + 4"
proof -
  define q r where "q = l div 4" and "r = l mod 4"
  have "l = 4 * q + r" "r < 4" by (simp_all add: q_def r_def)
  then have "l + (4 - r) = 4 * (q + 1)" by simp
  then show "4 dvd next_multiple_of l 4" by (auto simp: next_multiple_of_def r_def)
qed (auto simp: next_multiple_of_def)

lemma copied_options:
  assumes "validate_ipv4_options opts 0 = Ok ()" "length opts \<le> 40" "4 dvd length opts"
  obtains copied where "copied_ipv4_options opts = Ok copied" "validate_ipv4_options copied 0 = Ok ()"
    "length copied \<le> length opts" "4 dvd length copied"
proof -
  obtain ts where ts: "copied_loop opts 0 (concat []) = Ok (concat ts)" "\<forall>t\<in>set ts. tlv t" "length (concat ts) \<le> length opts"
    using copied_loop_spec [OF assms(1), of "[]"] assms(2) by auto
  define n where "n = next_multiple_of (length (concat ts)) 4"
  have n: "4 dvd n" "length (concat ts) \<le> n" "n < length (concat ts) + 4"
    unfolding n_def by (rule next_multiple_of_4)+
  have "n \<le> length opts"
  proof -
    obtain a b where ab: "n = 4 * a" "length opts = 4 * b" using n(1) assms(3) by (auto elim!: dvdE)
    then have "4 * a < 4 * (b + 1)" using n(3) ts(3) by simp
    then show ?thesis using ab by simp
  qed
  define copied where "copied = concat ts @ replicate (n - length (concat ts)) 0"
  have lc: "length copied = n" using n(2) by (simp add: copied_def)
  have "copied_ipv4_options opts = Ok copied"
    using ts(1) lc \<open>n \<le> length opts\<close> assms(2) by (simp add: copied_ipv4_options_def n_def [symmetric] copied_def Let_def)
  moreover have "validate_ipv4_options copied 0 = Ok ()"
    using validate_tlvs [OF ts(2), of "[]" "n - length (concat ts)"] lc \<open>n \<le> length opts\<close> assms(2) by (simp add: copied_def)
  ultimately show thesis using that lc \<open>n \<le> length opts\<close> n(1) by simp
qed

lemma fragment_ipv4_eq:
  assumes "length s = 4" "length d = 4" "unat (b0 AND 0x0f) * 4 = 20 + length opts"
    "validate_ipv4_options opts 0 = Ok ()" "20 + length opts + length payload \<le> 65535"
    "mtu < 20 + length opts + length payload" "20 + length opts + 8 \<le> mtu"
  obtains copied fc lc where
    "fragment_ipv4 le ([b0, tos, l1, l2, i1, i2, f1, f2, hop, proto, c1, c2] @ s @ d @ opts @ payload) mtu ident =
      Ok (place (raw4 le b0 tos (ucast ident) hop proto s d opts copied (length payload)) 0 (ipv4_chunks fc lc payload))"
    "0 < fc" "8 dvd fc" "0 < lc" "8 dvd lc" "20 + length opts + fc \<le> mtu" "20 + length copied + lc \<le> mtu"
    "validate_ipv4_options copied 0 = Ok ()" "length copied \<le> 40" "4 dvd length copied" "length copied \<le> length opts"
proof -
  let ?p = "[b0, tos, l1, l2, i1, i2, f1, f2, hop, proto, c1, c2] @ s @ d @ opts @ payload"
  have lo: "length opts \<le> 40" "4 dvd length opts"
  proof -
    have "b0 AND 0x0f \<le> 0x0f" by (rule word_and_le1)
    then have "unat (b0 AND 0x0f) \<le> 15" by (simp add: word_le_nat_alt)
    then show "length opts \<le> 40" using assms(3) by simp
    have "length opts = 4 * (unat (b0 AND 0x0f) - 5)" using assms(3) by simp
    then show "4 dvd length opts" by simp
  qed
  obtain copied where c: "copied_ipv4_options opts = Ok copied" "validate_ipv4_options copied 0 = Ok ()"
    "length copied \<le> length opts" "4 dvd length copied"
    using assms(4) lo by (rule copied_options)
  define fc lc where "fc = (mtu - (20 + length opts)) div 8 * 8" and "lc = (mtu - (20 + length copied)) div 8 * 8"
  have ac: "aligned_chunk mtu (20 + length opts) = Ok fc" "aligned_chunk mtu (20 + length copied) = Ok lc"
    using aligned_chunk_total [of "20 + length opts" mtu] aligned_chunk_total [of "20 + length copied" mtu] assms(7) c(3)
    by (simp_all add: fc_def lc_def)
  note f = aligned_chunk_Ok [OF ac(1)] and l = aligned_chunk_Ok [OF ac(2)]
  have fr: "ipv4_fragments (length payload) le ?p (20 + length opts) copied fc lc ident payload 0 =
      Ok (place (raw4 le b0 tos (ucast ident) hop proto s d opts copied (length payload)) 0 (ipv4_chunks fc lc payload))"
    using ipv4_fragments_eq [OF assms(1,2), of payload fc lc opts copied 0 "length payload"] f l assms(5,6) lo c(3) by simp
  have sl: "slice ?p 20 (20 + length opts) = (Ok opts :: bytes wire)" "idx ?p 0 = (Ok b0 :: u8 wire)"
    "slice ?p (20 + length opts) (length ?p) = (Ok payload :: bytes wire)"
    using assms(1,2) by (simp_all add: slice_def idx_def drop_ipv4_header)
  have "fragment_ipv4 le ?p mtu ident =
      Ok (place (raw4 le b0 tos (ucast ident) hop proto s d opts copied (length payload)) 0 (ipv4_chunks fc lc payload))"
    unfolding fragment_ipv4_def sl and_then.simps Let_def assms(3) c(1) ac fr ..
  then show thesis using that f l c lo by simp
qed

lemma parse_raw4:
  assumes "length s = 4" "length d = 4" "off = 0 \<Longrightarrow> 20 + length opts + length c \<le> 65535"
    "off \<noteq> 0 \<Longrightarrow> 20 + length copied + length c \<le> 65535"
    "unat (b0 AND 0x0f) * 4 = 20 + length opts" "drop_bit 4 b0 = 4" "validate_ipv4_options opts 0 = Ok ()"
    "validate_ipv4_options copied 0 = Ok ()" "length copied \<le> 40" "4 dvd length copied" "8 dvd off" "off \<le> 65535"
  shows "parse_ip_packet le (raw4 le b0 tos i hop proto s d opts copied tot off c) verify =
    Ok \<lparr>ip_version = IpV4, ip_source = V4 s, ip_destination = V4 d, ip_next_header = proto, ip_hop_limit = hop,
      ip_fragment = (if off \<noteq> 0 \<or> off + length c < tot then Some \<lparr>identification = ucast i, offset_bytes = word_of_nat off,
        more_fragments = off + length c < tot\<rparr> else None),
      ip_fragment_payload = (if off \<noteq> 0 \<or> off + length c < tot then Some c else None), ip_payload = c\<rparr>"
proof -
  have k: "off div 8 < 8192" "8 * (off div 8) = off" "off div 8 \<noteq> 0 \<longleftrightarrow> off \<noteq> 0"
    using assms(11,12) by (auto elim!: dvdE)
  show ?thesis
    using parse_frag4 [OF assms(1,2), of opts c b0 "off div 8" le tos i "off + length c < tot" hop proto verify]
      parse_frag4 [OF assms(1,2), of copied c "later_b0 copied" "off div 8" le tos i "off + length c < tot" hop proto verify]
      later_b0 [OF assms(9,10)] assms(3-8) k
    by (simp only: raw4_def split: if_splits) auto
qed

section \<open>IPv6 fragments\<close>

definition frag_bits6 :: "nat \<Rightarrow> bool \<Rightarrow> u16" where
  "frag_bits6 off mf = (if mf then word_of_nat off OR 1 else word_of_nat off)"

lemma frag_bits6:
  assumes "8 dvd off" "off \<le> 65535"
  shows "ucast (drop_bit 3 (frag_bits6 off mf) AND 0x1fff) * 8 = (word_of_nat off :: u32)" "(frag_bits6 off mf AND 1 \<noteq> 0) = mf"
proof -
  obtain k where k: "off = 8 * k" using assms(1) by auto
  then have k2: "k < 8192" using assms(2) by simp
  have w: "word_of_nat off = (push_bit 3 (word_of_nat k) :: u16)" by (simp add: k push_bit_eq_mult mult.commute)
  have hi: "j < 13" if "bit (word_of_nat k :: u16) j" for j
    using small_word_bit [of k 13 j] k2 that by (force simp: not_less [symmetric])
  have "drop_bit 3 (frag_bits6 off mf) AND 0x1fff = word_of_nat k"
  proof (rule bit_eqI)
    fix n assume "possible_bit TYPE(u16) n"
    show "bit (drop_bit 3 (frag_bits6 off mf) AND 0x1fff) n \<longleftrightarrow> bit (word_of_nat k :: u16) n"
      unfolding frag_bits6_def w
      by (auto simp: bit_and_iff bit_or_iff bit_drop_bit_eq bit_push_bit_iff field_bits bit_1_iff
          simp del: bit_numeral_word_iff dest: hi)
  qed
  then show "ucast (drop_bit 3 (frag_bits6 off mf) AND 0x1fff) * 8 = (word_of_nat off :: u32)"
    using offset_word [OF k2] by (simp add: k)
  have "\<not> bit (word_of_nat off :: u16) 0" unfolding w by (simp add: bit_push_bit_iff)
  moreover have "(x AND 1 \<noteq> 0) = bit x 0" for x :: u16
    by (simp add: and_one_eq bit_0 mod_2_eq_odd)
  ultimately show "(frag_bits6 off mf AND 1 \<noteq> 0) = mf"
    unfolding frag_bits6_def by (simp only: bit_or_iff bit_1_iff split: if_splits) simp
qed

definition raw6 :: "u8 \<Rightarrow> u8 \<Rightarrow> u8 \<Rightarrow> u8 \<Rightarrow> u8 \<Rightarrow> u8 \<Rightarrow> bytes \<Rightarrow> bytes \<Rightarrow> u32 \<Rightarrow> nat \<Rightarrow> nat \<Rightarrow> bytes \<Rightarrow> bytes" where
  "raw6 v0 v1 v2 v3 nh hop s d ident tot off c =
     [v0, v1, v2, v3] @ to_be16 (word_of_nat (8 + length c)) @ [44, hop] @ s @ d @
       [nh, 0] @ to_be16 (frag_bits6 off (off + length c < tot)) @ to_be32 ident @ c"

definition no_extension :: "u8 \<Rightarrow> bool" where
  "no_extension nh \<longleftrightarrow> nh \<notin> {0, 43, 44, 51, 60}"

lemma length_8E:
  assumes "length p = 8" obtains v0 v1 v2 v3 l1 l2 nh hop where "p = [v0, v1, v2, v3, l1, l2, nh, hop]"
  using assms by (auto simp: numeral_eq_Suc length_Suc_conv)

lemma split_40:
  assumes "40 \<le> length p"
  obtains v0 v1 v2 v3 l1 l2 nh hop s d rest where
    "p = [v0, v1, v2, v3, l1, l2, nh, hop] @ s @ d @ rest" "length s = 16" "length d = 16"
proof -
  have "length (take 8 p) = 8" using assms by simp
  then obtain v0 v1 v2 v3 l1 l2 nh hop where h: "take 8 p = [v0, v1, v2, v3, l1, l2, nh, hop]" by (rule length_8E)
  have "drop 24 p = drop 16 (drop 8 p)" "drop 40 p = drop 16 (drop 24 p)" by simp_all
  then have "p = take 8 p @ take 16 (drop 8 p) @ take 16 (drop 24 p) @ drop 40 p" by (metis append_take_drop_id)
  then show thesis using that [of v0 v1 v2 v3 l1 l2 nh hop "take 16 (drop 8 p)" "take 16 (drop 24 p)" "drop 40 p"] h assms
    by simp
qed

lemma ipv6_datagram:
  assumes "parse_ip_packet le packet True = Ok ip" "ip_version ip = IpV6" "no_extension (packet ! 6)"
  obtains v0 v1 v2 v3 l1 l2 nh hop s d payload where
    "take (packet_len ip packet) packet = [v0, v1, v2, v3, l1, l2, nh, hop] @ s @ d @ payload"
    "length s = 16" "length d = 16" "drop_bit 4 v0 = 6" "no_extension nh" "length payload \<le> 65535"
    "be16 l1 l2 = word_of_nat (length payload)"
    "ip = \<lparr>ip_version = IpV6, ip_source = V6 s, ip_destination = V6 d, ip_next_header = nh, ip_hop_limit = hop,
       ip_fragment = None, ip_fragment_payload = None, ip_payload = payload\<rparr>"
    "packet_len ip packet = 40 + length payload" "packet_len ip packet \<le> length packet"
proof -
  have ne: "packet \<noteq> []" using assms(1) by (auto simp: parse_ip_packet_def get_opt_def)
  have v6: "drop_bit 4 (packet ! 0) = 6" "parse_ipv6 packet True = Ok ip"
    using assms(1,2) parse_ipv4_parsed_ok(2) [of le packet True ip] ne
    by (auto simp: parse_ip_packet_def get_opt_def Let_def split: if_splits)
  have "40 \<le> length packet" using v6(2) by (auto simp: parse_ipv6_def split: if_splits)
  then obtain v0 v1 v2 v3 l1 l2 nh hop s d rest where
    p: "packet = [v0, v1, v2, v3, l1, l2, nh, hop] @ s @ d @ rest" "length s = 16" "length d = 16"
    by (rule split_40)
  define n where "n = unat (be16 l1 l2)"
  have n: "n \<le> 65535" by (simp add: n_def)
  have pl: "packet_len ip packet = 40 + n" using assms(2) by (simp add: packet_len_def p n_def)
  have nh: "no_extension nh" using assms(3) by (simp add: p)
  have fit: "40 + n \<le> length packet" using v6(2) by (auto simp: parse_ipv6_def read16_def idx_def p checked_add_def n_def split: if_splits)
  define payload where "payload = take n rest"
  have lp: "length payload = n" using fit p by (simp add: payload_def)
  have e: "ipv6_extension packet True (40 + n) s d hop nh 6 40 None None =
      Ok (Inl \<lparr>ip_version = IpV6, ip_source = V6 s, ip_destination = V6 d, ip_next_header = nh, ip_hop_limit = hop,
       ip_fragment = None, ip_fragment_payload = None, ip_payload = payload\<rparr>)"
    using nh fit p(2,3) by (auto simp: ipv6_extension_def no_extension_def slice_def p(1) payload_def)
  have "ipv6_extensions (Suc 7) packet True (40 + n) s d hop nh 6 40 None None = Ok ip"
    using v6(2) fit p(2,3) n
    by (auto simp: parse_ipv6_def read16_def idx_def slice_def checked_add_def n_def p(1) simp del: ipv6_extensions.simps split: if_splits)
  then have ip: "ip = \<lparr>ip_version = IpV6, ip_source = V6 s, ip_destination = V6 d, ip_next_header = nh, ip_hop_limit = hop,
       ip_fragment = None, ip_fragment_payload = None, ip_payload = payload\<rparr>"
    unfolding ipv6_extensions.simps e by simp
  have t: "take (packet_len ip packet) packet = [v0, v1, v2, v3, l1, l2, nh, hop] @ s @ d @ payload"
  proof -
    have "take 40 packet = [v0, v1, v2, v3, l1, l2, nh, hop] @ s @ d" "drop 40 packet = rest" using p by simp_all
    then show ?thesis unfolding pl take_add payload_def by simp
  qed
  show thesis
    by (rule that [OF t p(2,3) _ nh _ _ ip]) (use v6(1) lp n pl fit in \<open>simp_all add: p(1) n_def\<close>)
qed

lemma parse_raw6:
  assumes "length s = 16" "length d = 16" "drop_bit 4 v0 = 6" "no_extension nh" "8 + length c \<le> 65535" "8 dvd off" "off \<le> 65535"
  shows "parse_ip_packet le (raw6 v0 v1 v2 v3 nh hop s d ident tot off c) verify =
    Ok \<lparr>ip_version = IpV6, ip_source = V6 s, ip_destination = V6 d, ip_next_header = nh, ip_hop_limit = hop,
      ip_fragment = Some \<lparr>identification = ident, offset_bytes = word_of_nat off, more_fragments = off + length c < tot\<rparr>,
      ip_fragment_payload = Some c, ip_payload = c\<rparr>"
proof -
  let ?mf = "off + length c < tot"
  define p where "p = raw6 v0 v1 v2 v3 nh hop s d ident tot off c"
  define info where "info = \<lparr>identification = ident, offset_bytes = word_of_nat off, more_fragments = ?mf\<rparr>"
  define n where "n = 8 + length c"
  have lp: "length p = 40 + n" using assms(1,2) by (simp add: p_def raw6_def n_def)
  have nth: "p ! 0 = v0" "p ! 6 = 44" "p ! 7 = hop" "be16 (p ! 4) (p ! 5) = word_of_nat n"
    by (simp_all add: p_def raw6_def to_be16_def n_def)
  have ad: "take 16 (drop 8 p) = s" "take 16 (drop 24 p) = d" using assms(1,2) by (simp_all add: p_def raw6_def)
  have d40: "drop 40 p = [nh, 0] @ to_be16 (frag_bits6 off ?mf) @ to_be32 ident @ c" using assms(1,2) by (simp add: p_def raw6_def)
  have n40: "p ! (40 + i) = drop 40 p ! i" if "i < n" for i using that lp by simp
  have fh: "p ! 40 = nh" "be16 (p ! 42) (p ! 43) = frag_bits6 off ?mf" "be32 (p ! 44) (p ! 45) (p ! 46) (p ! 47) = ident"
    using n40 [of 0] n40 [of 2] n40 [of 3] n40 [of 4] n40 [of 5] n40 [of 6] n40 [of 7]
    by (simp_all add: d40 n_def to_be16_def to_be32_def)
  have "drop 48 p = drop 8 (drop 40 p)" by simp
  then have d48: "drop 48 p = c" by (simp add: d40)
  have u: "unat (word_of_nat n :: u16) = n" using assms(5) unfolding n_def by (rule unat_word_of_nat16)
  have req: "require p 40 8 (40 + n) = Ok ()" using lp assms(5) by (simp add: require_def checked_add_def n_def)
  have rest: "slice p 48 (40 + n) = (Ok c :: bytes wire)" using lp d48 by (simp add: slice_def n_def)
  have rd: "idx p 40 = (Ok nh :: u8 wire)" "read16 p 42 43 = (Ok (frag_bits6 off ?mf) :: u16 wire)" "read32 p 44 = (Ok ident :: u32 wire)"
    using lp fh by (simp_all add: idx_def read16_def read32_def n_def)
  have e1: "ipv6_extension p True (40 + n) s d hop 44 6 40 None None =
      Ok (if word_of_nat off \<noteq> (0 :: u32) then Inl \<lparr>ip_version = IpV6, ip_source = V6 s, ip_destination = V6 d, ip_next_header = nh,
        ip_hop_limit = hop, ip_fragment = Some info, ip_fragment_payload = Some c, ip_payload = c\<rparr>
      else Inr (8, Some info, Some c))"
    using assms(4) req rest rd frag_bits6 [OF assms(6,7), of ?mf]
    by (simp add: ipv6_extension_def no_extension_def info_def Let_def)
  have e2: "ipv6_extension p True (40 + n) s d hop nh 40 48 (Some info) (Some c) =
      Ok (Inl \<lparr>ip_version = IpV6, ip_source = V6 s, ip_destination = V6 d, ip_next_header = nh,
        ip_hop_limit = hop, ip_fragment = Some info, ip_fragment_payload = Some c, ip_payload = c\<rparr>)"
    using assms(4) rest by (auto simp: ipv6_extension_def no_extension_def)
  have x: "ipv6_extensions (Suc (Suc 6)) p True (40 + n) s d hop 44 6 40 None None =
      Ok \<lparr>ip_version = IpV6, ip_source = V6 s, ip_destination = V6 d, ip_next_header = nh,
        ip_hop_limit = hop, ip_fragment = Some info, ip_fragment_payload = Some c, ip_payload = c\<rparr>"
    unfolding ipv6_extensions.simps e1 by (simp add: rd(1) e2 del: ipv6_extensions.simps)
  have "parse_ipv6 p True =
      Ok \<lparr>ip_version = IpV6, ip_source = V6 s, ip_destination = V6 d, ip_next_header = nh,
        ip_hop_limit = hop, ip_fragment = Some info, ip_fragment_payload = Some c, ip_payload = c\<rparr>"
    using x lp nth ad u assms(5)
    by (simp add: parse_ipv6_def read16_def idx_def slice_def checked_add_def n_def del: ipv6_extensions.simps)
  moreover have "p \<noteq> []" using lp by auto
  ultimately show ?thesis
    unfolding p_def [symmetric] info_def [symmetric] using assms(3) nth(1) by (simp add: parse_ip_packet_def get_opt_def)
qed

lemma ipv6_fragment_eq:
  assumes "length s = 16" "length d = 16" "8 + length c \<le> 65535" "off \<le> 65535"
  shows "ipv6_fragment ([v0, v1, v2, v3, l1, l2, nh, hop] @ s @ d @ payload) 40 6 nh ident payload off c =
    Ok (raw6 v0 v1 v2 v3 nh hop s d ident (length payload) off c)"
  using assms
  by (simp add: ipv6_fragment_def slice_def store_def copy_at_def try_u16_simps Let_def raw6_def frag_bits6_def to_be16_def
      del: of_nat_add)

lemma ipv6_fragments_eq:
  assumes "length s = 16" "length d = 16" "8 + cl \<le> 65535" "0 < cl" "length payload \<le> 65535" "index * cl \<le> length payload"
  shows "ipv6_fragments ([v0, v1, v2, v3, l1, l2, nh, hop] @ s @ d @ payload) 40 6 nh ident payload cl index (chunks cl (drop (index * cl) payload)) =
    Ok (place (raw6 v0 v1 v2 v3 nh hop s d ident (length payload)) (index * cl) (chunks cl (drop (index * cl) payload)))"
  using assms(6)
proof (induction "length payload - index * cl" arbitrary: index rule: less_induct)
  case less
  let ?p = "[v0, v1, v2, v3, l1, l2, nh, hop] @ s @ d @ payload"
  show ?case
  proof (cases "index * cl = length payload")
    case True then show ?thesis by simp
  next
    case False
    then have lt: "index * cl < length payload" using less.prems by simp
    let ?c = "take cl (drop (index * cl) payload)"
    have ch: "chunks cl (drop (index * cl) payload) = ?c # chunks cl (drop (Suc index * cl) payload)"
      using lt assms(4) by (simp add: chunks_Cons add.commute)
    have f: "ipv6_fragment ?p 40 6 nh ident payload (index * cl) ?c =
        Ok (raw6 v0 v1 v2 v3 nh hop s d ident (length payload) (index * cl) ?c)"
      using assms(3,5) lt by (intro ipv6_fragment_eq assms(1,2)) auto
    have b: "index * cl \<le> usize_max" using lt assms(5) by simp
    show ?thesis
    proof (cases "Suc index * cl \<le> length payload")
      case True
      have ih: "ipv6_fragments ?p 40 6 nh ident payload cl (Suc index) (chunks cl (drop (Suc index * cl) payload)) =
          Ok (place (raw6 v0 v1 v2 v3 nh hop s d ident (length payload)) (Suc index * cl) (chunks cl (drop (Suc index * cl) payload)))"
        using True lt assms(4) by (intro less.hyps) simp_all
      have nx: "index * cl + length ?c = Suc index * cl" using True by simp
      show ?thesis unfolding ch ipv6_fragments.simps if_P [OF b] and_then.simps f place.simps nx Suc_eq_plus1 [symmetric] ih ..
    next
      case last: False
      then have "chunks cl (drop (Suc index * cl) payload) = []" by simp
      then show ?thesis unfolding ch ipv6_fragments.simps if_P [OF b] and_then.simps f place.simps by simp
    qed
  qed
qed

lemma fragment_ipv6_eq:
  assumes "length s = 16" "length d = 16" "no_extension nh" "length payload \<le> 65535"
    "be16 l1 l2 = word_of_nat (length payload)" "mtu < 40 + length payload" "56 \<le> mtu"
  obtains cl where "fragment_ipv6 ([v0, v1, v2, v3, l1, l2, nh, hop] @ s @ d @ payload) mtu ident =
      Ok (place (raw6 v0 v1 v2 v3 nh hop s d ident (length payload)) 0 (chunks cl payload))"
    "0 < cl" "8 dvd cl" "48 + cl \<le> mtu"
proof -
  let ?p = "[v0, v1, v2, v3, l1, l2, nh, hop] @ s @ d @ payload"
  have u: "unat (word_of_nat (length payload) :: u16) = length payload" using assms(4) by (rule unat_word_of_nat16)
  have e8: "(8::nat) = Suc 7" by simp
  have r: "insertion_records 8 ?p (40 + length payload) nh 40 [] = Ok (nh, [])"
    unfolding e8 insertion_records.simps using assms(3) by (simp add: no_extension_def)
  have "nh \<notin> {0, 43, 44, 51, 60}" using assms(3) by (simp add: no_extension_def)
  then have ins: "ipv6_fragment_insertion ?p = Ok (40, 6, nh)"
    using assms(1,2,4,5) u r
    by (auto simp: ipv6_fragment_insertion_def read16_def idx_def checked_add_def included_records_def Let_def simp del: insertion_records.simps)
  have al: "aligned_chunk mtu 48 = Ok ((mtu - 48) div 8 * 8)" using aligned_chunk_total [of 48 mtu] assms(7) by simp
  note c = aligned_chunk_Ok [OF al]
  have sl: "slice ?p 40 (length ?p) = (Ok payload :: bytes wire)" using assms(1,2) by (simp add: slice_def)
  have "ipv6_fragments ?p 40 6 nh ident payload ((mtu - 48) div 8 * 8) 0 (chunks ((mtu - 48) div 8 * 8) payload) =
      Ok (place (raw6 v0 v1 v2 v3 nh hop s d ident (length payload)) 0 (chunks ((mtu - 48) div 8 * 8) payload))"
    using ipv6_fragments_eq [OF assms(1,2), of "(mtu - 48) div 8 * 8" payload 0] c assms(4,6) by simp
  then have "fragment_ipv6 ?p mtu ident =
      Ok (place (raw6 v0 v1 v2 v3 nh hop s d ident (length payload)) 0 (chunks ((mtu - 48) div 8 * 8) payload))"
    unfolding fragment_ipv6_def ins and_then.simps prod.case using al sl by simp
  then show thesis using that c by blast
qed

section \<open>The fragments of a datagram\<close>

lemma place_in:
  assumes "tiling off0 tot cs" "8 dvd off0 \<or> off0 = tot" "(off, c) \<in> set (place Pair off0 cs)"
  shows "8 dvd off" "off0 \<le> off" "off + length c \<le> tot" "c \<noteq> []" "c \<in> set cs"
proof -
  have "8 dvd off \<and> off0 \<le> off \<and> off + length c \<le> tot \<and> c \<noteq> [] \<and> c \<in> set cs"
    using assms
  proof (induction cs arbitrary: off0)
    case (Cons x cs)
    have x: "x \<noteq> []" "off0 + length x < tot \<longrightarrow> 8 dvd length x" "off0 + length x \<le> tot" "tiling (off0 + length x) tot cs"
      using Cons.prems(1) by simp_all
    have d: "8 dvd off0" using Cons.prems(2) x(1,3) by auto
    have "8 dvd off0 + length x \<or> off0 + length x = tot"
      using x(2,3) d by (metis dvd_add le_neq_implies_less)
    then show ?case using Cons.IH [OF x(4)] Cons.prems(3) d x by fastforce
  qed simp
  then show "8 dvd off" "off0 \<le> off" "off + length c \<le> tot" "c \<noteq> []" "c \<in> set cs" by simp_all
qed

lemma chunk_length:
  "c \<in> set (chunks n xs) \<Longrightarrow> length c \<le> n \<and> length c \<le> length xs"
proof (induction n xs rule: chunks.induct)
  case (1 n xs)
  show ?case
  proof (cases "xs = [] \<or> n = 0")
    case True
    then have "chunks n xs = []" by (subst chunks.simps) simp
    then show ?thesis using "1.prems" by simp
  next
    case False
    then have "chunks n xs = take n xs # chunks n (drop n xs)" by (intro chunks_Cons) simp_all
    then have "c = take n xs \<or> c \<in> set (chunks n (drop n xs))" using "1.prems" by simp
    then show ?thesis using "1.IH" False by auto
  qed
qed

lemma place_map: "place f off cs = map (\<lambda>(off, c). f off c) (place Pair off cs)"
  by (induction cs arbitrary: off) simp_all

lemma place_all2:
  assumes "\<And>off c. (off, c) \<in> set (place Pair k cs) \<Longrightarrow> P (f off c) (off, c)"
  shows "list_all2 P (place f k cs) (place Pair k cs)"
  using assms by (induction cs arbitrary: k) simp_all

text \<open>The identification that travels: IPv4 has sixteen bits for it.\<close>

definition wire_ident :: "IpVersion \<Rightarrow> u32 \<Rightarrow> u32" where
  "wire_ident v ident = (case v of IpV4 \<Rightarrow> ucast (ucast ident :: u16) | IpV6 \<Rightarrow> ident)"

definition as_fragment :: "ParsedIpPacket \<Rightarrow> u32 \<Rightarrow> nat \<Rightarrow> bytes \<Rightarrow> ParsedIpPacket" where
  "as_fragment ip ident off c =
     ip\<lparr>ip_fragment := Some \<lparr>identification = wire_ident (ip_version ip) ident, offset_bytes = word_of_nat off,
          more_fragments = off + length c < length (ip_payload ip)\<rparr>,
        ip_fragment_payload := Some c, ip_payload := c\<rparr>"

text \<open>The room a fragment needs: the header, for IPv6 the Fragment header, and eight bytes.\<close>

definition fragment_room :: "ParsedIpPacket \<Rightarrow> bytes \<Rightarrow> nat" where
  "fragment_room ip packet = (case ip_version ip of IpV4 \<Rightarrow> unat (packet ! 0 AND 0x0f) * 4 + 8 | IpV6 \<Rightarrow> 56)"

definition plain :: "ParsedIpPacket \<Rightarrow> bytes \<Rightarrow> bool" where
  "plain ip packet \<longleftrightarrow> ip_fragment ip = None \<and> (ip_version ip = IpV6 \<longrightarrow> no_extension (packet ! 6))"

lemma not_first_more: "tiling 0 tot cs \<Longrightarrow> (off, c) \<in> set (place Pair 0 cs) \<Longrightarrow> \<forall>c\<in>set cs. length c < tot \<Longrightarrow>
  off \<noteq> 0 \<or> off + length c < tot"
  using place_in [of 0 tot cs off c] by auto

lemma fragment_outbound_v4:
  assumes "parse_ip_packet le packet True = Ok ip" "ip_version ip = IpV4" "ip_fragment ip = None"
    "mtu < packet_len ip packet" "fragment_room ip packet \<le> mtu"
  obtains b0 tos hop proto s d opts copied cs payload where
    "fragment_outbound_ip_packet le packet mtu ident =
      Ok (place (raw4 le b0 tos (ucast ident) hop proto s d opts copied (length payload)) 0 cs)"
    "concat cs = payload" "tiling 0 (length payload) cs" "\<forall>c\<in>set cs. length c < length payload"
    "ip = \<lparr>ip_version = IpV4, ip_source = V4 s, ip_destination = V4 d, ip_next_header = proto, ip_hop_limit = hop,
       ip_fragment = None, ip_fragment_payload = None, ip_payload = payload\<rparr>"
    "length s = 4" "length d = 4" "unat (b0 AND 0x0f) * 4 = 20 + length opts" "drop_bit 4 b0 = 4"
    "validate_ipv4_options opts 0 = Ok ()" "20 + length opts + length payload \<le> 65535"
    "length copied \<le> length opts" "length copied \<le> 40" "4 dvd length copied"
    "\<And>off c. (off, c) \<in> set (place Pair 0 cs) \<Longrightarrow>
       length (raw4 le b0 tos (ucast ident) hop proto s d opts copied (length payload) off c) \<le> mtu \<and>
       parse_ip_packet le (raw4 le b0 tos (ucast ident) hop proto s d opts copied (length payload) off c) True =
         Ok (as_fragment ip ident off c)"
proof -
  obtain b0 tos l1 l2 i1 i2 f1 f2 hop proto c1 c2 s d opts payload where
    p: "take (packet_len ip packet) packet = [b0, tos, l1, l2, i1, i2, f1, f2, hop, proto, c1, c2] @ s @ d @ opts @ payload"
    "length s = 4" "length d = 4" "unat (b0 AND 0x0f) * 4 = 20 + length opts" "drop_bit 4 b0 = 4"
    "validate_ipv4_options opts 0 = Ok ()" "20 + length opts + length payload \<le> 65535"
    "ip = \<lparr>ip_version = IpV4, ip_source = V4 s, ip_destination = V4 d, ip_next_header = proto, ip_hop_limit = hop,
       ip_fragment = ip_fragment ip, ip_fragment_payload = map_option (\<lambda>_. payload) (ip_fragment ip), ip_payload = payload\<rparr>"
    "packet_len ip packet = 20 + length opts + length payload" "packet_len ip packet \<le> length packet"
    using assms(1,2) by (rule ipv4_datagram)
  have p0: "packet ! 0 = b0"
    using p(1,9,10) by (metis Cons_eq_appendI add_is_0 append_Cons nth_Cons_0 nth_take zero_less_iff_neq_zero zero_neq_numeral)
  have room: "20 + length opts + 8 \<le> mtu" using assms(2,5) p(4) by (simp add: fragment_room_def p0)
  have less: "mtu < 20 + length opts + length payload" using assms(4) p(9) by simp
  obtain copied fc lc where f:
    "fragment_ipv4 le ([b0, tos, l1, l2, i1, i2, f1, f2, hop, proto, c1, c2] @ s @ d @ opts @ payload) mtu ident =
      Ok (place (raw4 le b0 tos (ucast ident) hop proto s d opts copied (length payload)) 0 (ipv4_chunks fc lc payload))"
    "0 < fc" "8 dvd fc" "0 < lc" "8 dvd lc" "20 + length opts + fc \<le> mtu" "20 + length copied + lc \<le> mtu"
    "validate_ipv4_options copied 0 = Ok ()" "length copied \<le> 40" "4 dvd length copied" "length copied \<le> length opts"
    using p(2-4,6,7) less room by (rule fragment_ipv4_eq)
  define cs where "cs = ipv4_chunks fc lc payload"
  have t: "tiling 0 (length payload) cs" unfolding cs_def by (rule tiling_ipv4_chunks [OF f(2-5)])
  have size: "length c \<le> fc \<and> off = 0 \<or> length c \<le> lc \<and> off \<noteq> 0" "length c < length payload"
    if "(off, c) \<in> set (place Pair 0 cs)" for off c
  proof -
    have "payload \<noteq> []" using room less by auto
    then have cs: "cs = take fc payload # chunks lc (drop fc payload)" by (simp add: cs_def ipv4_chunks_def)
    have fl: "fc < length payload" using f(6) less by simp
    then have lt: "length (take fc payload) = fc" by simp
    have t1: "tiling fc (length payload) (chunks lc (drop fc payload))" using t unfolding cs tiling.simps lt by simp
    from that consider "off = 0" "c = take fc payload" | "(off, c) \<in> set (place Pair fc (chunks lc (drop fc payload)))"
      unfolding cs place.simps lt by auto
    then have "(length c \<le> fc \<and> off = 0 \<or> length c \<le> lc \<and> off \<noteq> 0) \<and> length c < length payload"
    proof cases
      case 1 then show ?thesis using fl by simp
    next
      case 2
      note q = place_in [OF t1 _ 2]
      have "length c \<le> lc \<and> length c \<le> length (drop fc payload)" using q(5) f(3) by (intro chunk_length) simp
      moreover have "fc \<le> off" using q(2) f(3) by simp
      ultimately show ?thesis using f(2) fl by auto
    qed
    then show "length c \<le> fc \<and> off = 0 \<or> length c \<le> lc \<and> off \<noteq> 0" "length c < length payload" by simp_all
  qed
  have ip: "ip = \<lparr>ip_version = IpV4, ip_source = V4 s, ip_destination = V4 d, ip_next_header = proto, ip_hop_limit = hop,
       ip_fragment = None, ip_fragment_payload = None, ip_payload = payload\<rparr>" using p(8) by (simp add: assms(3))
  have out: "fragment_outbound_ip_packet le packet mtu ident =
      Ok (place (raw4 le b0 tos (ucast ident) hop proto s d opts copied (length payload)) 0 cs)"
  proof -
    have lp: "3 < length packet" using p(9,10) by simp
    then have "read16 packet 2 3 = (Ok (be16 (packet ! 2) (packet ! 3)) :: u16 wire)" by (simp add: slice_simps)
    moreover have "unat (be16 (packet ! 2) (packet ! 3)) = packet_len ip packet" by (simp add: packet_len_def assms(2))
    moreover have "slice packet 0 (packet_len ip packet) =
        (Ok ([b0, tos, l1, l2, i1, i2, f1, f2, hop, proto, c1, c2] @ s @ d @ opts @ payload) :: bytes wire)"
      using p(1,10) by (simp add: slice_def)
    ultimately show ?thesis
      using assms f(1) by (simp add: fragment_outbound_ip_packet_def cs_def)
  qed
  have parse: "length (raw4 le b0 tos (ucast ident) hop proto s d opts copied (length payload) off c) \<le> mtu \<and>
       parse_ip_packet le (raw4 le b0 tos (ucast ident) hop proto s d opts copied (length payload) off c) True =
         Ok (as_fragment ip ident off c)" if oc: "(off, c) \<in> set (place Pair 0 cs)" for off c
  proof -
    note q = place_in [OF t _ oc, simplified] and z = size [OF oc]
    have "mtu \<le> 65535" using less p(7) by simp
    have "length (raw4 le b0 tos (ucast ident) hop proto s d opts copied (length payload) off c) \<le> mtu"
      using z f(6,7) p(2,3) by (auto simp: raw4_def frag4_def Let_def)
    moreover have "parse_ip_packet le (raw4 le b0 tos (ucast ident) hop proto s d opts copied (length payload) off c) True =
        Ok (as_fragment ip ident off c)"
    proof -
      have nf: "off \<noteq> 0 \<or> off + length c < length payload" using z by auto
      show ?thesis
        using nf z f(6,7) p(7) less \<open>mtu \<le> 65535\<close> q
        by (subst parse_raw4 [OF p(2,3) _ _ p(4,5,6) f(8-10)]) (auto simp: as_fragment_def ip wire_ident_def)
    qed
    ultimately show ?thesis by simp
  qed
  have sm: "\<forall>c\<in>set cs. length c < length payload"
  proof
    fix c assume "c \<in> set cs"
    then have "c \<in> snd ` set (place Pair 0 cs)"
    proof -
      have "map snd (place Pair k cs) = cs" for k :: nat by (induction cs arbitrary: k) simp_all
      then show ?thesis using \<open>c \<in> set cs\<close> by (metis image_set)
    qed
    then show "length c < length payload" using size(2) by auto
  qed
  have cc: "concat cs = payload" unfolding cs_def using f(4) by (rule concat_ipv4_chunks)
  show thesis by (rule that [OF out cc t sm ip p(2-7) f(11,9,10) parse])
qed

lemma fragment_outbound_v6:
  assumes "parse_ip_packet le packet True = Ok ip" "ip_version ip = IpV6" "no_extension (packet ! 6)"
    "mtu < packet_len ip packet" "fragment_room ip packet \<le> mtu"
  obtains v0 v1 v2 v3 l1 l2 nh hop s d cs payload where
    "fragment_outbound_ip_packet le packet mtu ident = Ok (place (raw6 v0 v1 v2 v3 nh hop s d ident (length payload)) 0 cs)"
    "concat cs = payload" "tiling 0 (length payload) cs" "\<forall>c\<in>set cs. length c < length payload"
    "ip = \<lparr>ip_version = IpV6, ip_source = V6 s, ip_destination = V6 d, ip_next_header = nh, ip_hop_limit = hop,
       ip_fragment = None, ip_fragment_payload = None, ip_payload = payload\<rparr>"
    "length s = 16" "length d = 16" "drop_bit 4 v0 = 6" "no_extension nh" "length payload \<le> 65535"
    "take (packet_len ip packet) packet = [v0, v1, v2, v3, l1, l2, nh, hop] @ s @ d @ payload"
    "be16 l1 l2 = word_of_nat (length payload)"
    "\<And>off c. (off, c) \<in> set (place Pair 0 cs) \<Longrightarrow>
       length (raw6 v0 v1 v2 v3 nh hop s d ident (length payload) off c) \<le> mtu \<and>
       parse_ip_packet le (raw6 v0 v1 v2 v3 nh hop s d ident (length payload) off c) True = Ok (as_fragment ip ident off c)"
proof -
  obtain v0 v1 v2 v3 l1 l2 nh hop s d payload where
    p: "take (packet_len ip packet) packet = [v0, v1, v2, v3, l1, l2, nh, hop] @ s @ d @ payload"
    "length s = 16" "length d = 16" "drop_bit 4 v0 = 6" "no_extension nh" "length payload \<le> 65535"
    "be16 l1 l2 = word_of_nat (length payload)"
    "ip = \<lparr>ip_version = IpV6, ip_source = V6 s, ip_destination = V6 d, ip_next_header = nh, ip_hop_limit = hop,
       ip_fragment = None, ip_fragment_payload = None, ip_payload = payload\<rparr>"
    "packet_len ip packet = 40 + length payload" "packet_len ip packet \<le> length packet"
    using assms(1-3) by (rule ipv6_datagram)
  have less: "mtu < 40 + length payload" using assms(4) p(9) by simp
  have room: "56 \<le> mtu" using assms(2,5) by (simp add: fragment_room_def)
  obtain cl where f: "fragment_ipv6 ([v0, v1, v2, v3, l1, l2, nh, hop] @ s @ d @ payload) mtu ident =
      Ok (place (raw6 v0 v1 v2 v3 nh hop s d ident (length payload)) 0 (chunks cl payload))"
    "0 < cl" "8 dvd cl" "48 + cl \<le> mtu"
    using p(2,3,5-7) less room by (rule fragment_ipv6_eq)
  define cs where "cs = chunks cl payload"
  have t: "tiling 0 (length payload) cs" unfolding cs_def using tiling_chunks [OF f(2,3), of 0 payload] by simp
  have sz: "length c \<le> cl" "length c < length payload" if "c \<in> set cs" for c
    using chunk_length [of c cl payload] that f(4) less by (simp_all add: cs_def)
  have out: "fragment_outbound_ip_packet le packet mtu ident = Ok (place (raw6 v0 v1 v2 v3 nh hop s d ident (length payload)) 0 cs)"
  proof -
    have "read16 packet 4 5 = (Ok (be16 (packet ! 4) (packet ! 5)) :: u16 wire)" using p(9,10) by (simp add: slice_simps)
    moreover have "40 + unat (be16 (packet ! 4) (packet ! 5)) = packet_len ip packet" by (simp add: packet_len_def assms(2))
    moreover have "slice packet 0 (packet_len ip packet) =
        (Ok ([v0, v1, v2, v3, l1, l2, nh, hop] @ s @ d @ payload) :: bytes wire)"
      using p(1,10) by (simp add: slice_def)
    moreover have "ip_fragment ip = None" by (simp add: p(8))
    ultimately show ?thesis using assms f(1) by (simp add: fragment_outbound_ip_packet_def cs_def)
  qed
  have parse: "length (raw6 v0 v1 v2 v3 nh hop s d ident (length payload) off c) \<le> mtu \<and>
       parse_ip_packet le (raw6 v0 v1 v2 v3 nh hop s d ident (length payload) off c) True = Ok (as_fragment ip ident off c)"
    if oc: "(off, c) \<in> set (place Pair 0 cs)" for off c
  proof -
    note q = place_in [OF t _ oc, simplified]
    have c: "length c \<le> cl" using sz q(4) by (simp add: q)
    then have "8 + length c \<le> 65535" "off \<le> 65535" using f(4) less p(6) q by simp_all
    then show ?thesis using c f(4) p(2,3) q
      by (subst parse_raw6 [OF p(2-5)]) (auto simp: raw6_def as_fragment_def p(8) wire_ident_def)
  qed
  have cc: "concat cs = payload" unfolding cs_def using f(2) by (rule concat_chunks)
  show thesis by (rule that [OF out cc t _ p(8,2-6,1,7) parse]) (use sz in auto)
qed

section \<open>Properties\<close>

lemma fragment_outbound_tiles:
  assumes "parse_ip_packet le packet True = Ok ip" "plain ip packet" "mtu < packet_len ip packet" "fragment_room ip packet \<le> mtu"
  obtains raw cs where "fragment_outbound_ip_packet le packet mtu ident = Ok (place raw 0 cs)" "concat cs = ip_payload ip"
    "tiling 0 (length (ip_payload ip)) cs"
    "\<And>off c. (off, c) \<in> set (place Pair 0 cs) \<Longrightarrow> length (raw off c) \<le> mtu \<and>
       parse_ip_packet le (raw off c) True = Ok (as_fragment ip ident off c)"
proof (cases "ip_version ip")
  case IpV4
  have "ip_fragment ip = None" using assms(2) by (simp add: plain_def)
  from fragment_outbound_v4 [OF assms(1) IpV4 this assms(3,4)] that show ?thesis
    by (metis ParsedIpPacket.select_convs(8))
next
  case IpV6
  have "no_extension (packet ! 6)" using assms(2) IpV6 by (simp add: plain_def)
  from fragment_outbound_v6 [OF assms(1) IpV6 this assms(3,4)] that show ?thesis
    by (metis ParsedIpPacket.select_convs(8))
qed



end
