(* ===== verification/Reassembly.thy ===== *)
theory Reassembly
  imports Frag_Tile Timer_Service Budget_Threads
begin

unbundle bit_operations_syntax

text \<open>
  The fragment reassembler of \<^verbatim>\<open>ip/reassembly.rs\<close>, over the resource ledger and the timer wheel.  Dropping a
  value that owns leases is written out as \<open>drop_lease\<close> on the ledger.  The order in which the hash map of
  assemblies is iterated is a parameter of the one operation that iterates it.
\<close>

section \<open>Data\<close>

definition ASSEMBLY_METADATA_BYTES :: nat where "ASSEMBLY_METADATA_BYTES = 192"
definition PIECE_METADATA_BYTES :: nat where "PIECE_METADATA_BYTES = 64"
definition MAX_REASSEMBLED_BYTES :: nat where "MAX_REASSEMBLED_BYTES = 65535"
definition FRAGMENT_TIMER_MIN_TICK_MS :: nat where "FRAGMENT_TIMER_MIN_TICK_MS = 10"
definition TIMER_WHEEL_SAFE_DELTA_TICKS :: nat where "TIMER_WHEEL_SAFE_DELTA_TICKS = 2 ^ 32 - 2"

record FragmentKey =
  fk_version :: IpVersion
  fk_source :: IpAddr
  fk_destination :: IpAddr
  fk_protocol :: u8
  fk_identification :: u32

record Piece =
  piece_bytes :: bytes
  piece_slot :: BudgetLease
  piece_payload :: BudgetLease
  piece_metadata :: BudgetLease

record Assembly =
  as_header :: "bytes option"
  as_previous :: "nat option"
  as_protocol :: u8
  as_pieces :: "(nat, Piece) fmap"
  as_total :: "nat option"
  as_created :: nat
  as_timer :: TimerId
  as_eviction :: "nat \<times> nat"
  as_metadata :: BudgetLease

record PendingFragmentCredit =
  cr_slot :: BudgetLease
  cr_payload :: BudgetLease
  cr_piece_metadata :: BudgetLease
  cr_assembly_metadata :: "BudgetLease option"

record FragmentStats =
  fs_active :: nat
  fs_buffered :: nat
  fs_completed :: nat
  fs_expired :: nat
  fs_evicted :: nat
  fs_overlap_drops :: nat

record FragmentExpirations =
  fe_expired :: nat
  fe_invoking :: "bytes list"

datatype FragmentError = FragWire WireError | FragBudget BudgetError | FragClockWentBackwards
  | FragTimer TimerError | FragMalformed string | Overlap

definition from_timer_error :: "TimerError \<Rightarrow> FragmentError" where
  "from_timer_error e = (case e of ClockWentBackwards _ _ \<Rightarrow> FragClockWentBackwards | DeadlineOutOfRange \<Rightarrow> FragTimer e)"

record Reassembler =
  ra_ledger :: ResourceLedger
  ra_timeout :: nat
  ra_now :: nat
  ra_divisor :: nat
  ra_tick :: nat
  ra_expiry :: "FragmentKey TimerWheel"
  ra_assemblies :: "(FragmentKey, Assembly) fmap"
  ra_index :: "(nat \<times> nat, FragmentKey) fmap"
  ra_serial :: nat
  ra_stats :: FragmentStats

text \<open>A step that may fail and always leaves a state, followed by another.\<close>

definition then_do :: "('e, 'a) res \<times> 's \<Rightarrow> ('a \<Rightarrow> 's \<Rightarrow> ('e, 'b) res \<times> 's) \<Rightarrow> ('e, 'b) res \<times> 's" where
  "then_do m f = (case m of (Ok x, s) \<Rightarrow> f x s | (Err e, s) \<Rightarrow> (Err e, s) | (Panic, s) \<Rightarrow> (Panic, s))"

section \<open>Fragments and datagrams\<close>

definition fragment_end :: "FragmentInfo \<Rightarrow> nat \<Rightarrow> (FragmentError, nat) res" where
  "fragment_end fragment payload_len =
     (if payload_len = 0 then Err (FragMalformed ''empty non-atomic fragment'')
      else if more_fragments fragment \<and> payload_len mod 8 \<noteq> 0
      then Err (FragMalformed ''non-final fragment payload is not a multiple of eight'')
      else if \<not> payload_len \<le> u32_max then Err (FragMalformed ''fragment payload length exceeds u32'')
      else if \<not> unat (offset_bytes fragment) + payload_len \<le> u32_max then Err (FragMalformed ''fragment range overflow'')
      else if unat (offset_bytes fragment) + payload_len > MAX_REASSEMBLED_BYTES
      then Err (FragMalformed ''reassembled datagram is too large'')
      else Ok (unat (offset_bytes fragment) + payload_len))"

primrec ipv6_header_loop :: "nat \<Rightarrow> bytes \<Rightarrow> u8 \<Rightarrow> nat \<Rightarrow> nat \<Rightarrow> (FragmentError, bytes \<times> nat option \<times> u8) res" where
  "ipv6_header_loop 0 packet next_header offset previous = Err (FragMalformed ''IPv6 extension chain exceeds limit'')"
| "ipv6_header_loop (Suc n) packet next_header offset previous =
     (if next_header = 44 then
        (if offset + 8 > length packet then Err (FragMalformed ''truncated IPv6 fragment header'')
         else and_then (slice packet 0 offset) (\<lambda>header.
           and_then (idx packet offset) (\<lambda>protocol. Ok (header, Some previous, protocol))))
      else if next_header \<in> {0, 43, 60, 51} then
        and_then (idx packet (offset + 1)) (\<lambda>l.
        let len = (if next_header = 51 then (unat l + 2) * 4 else (unat l + 1) * 8) in
        if offset + len > length packet then Err (FragMalformed ''truncated IPv6 extension header'')
        else and_then (idx packet offset) (\<lambda>following. ipv6_header_loop n packet following (offset + len) offset))
      else Err (FragMalformed ''IPv6 fragment header not found''))"

definition ipv6_fragment_header :: "bytes \<Rightarrow> (FragmentError, bytes \<times> nat option \<times> u8) res" where
  "ipv6_fragment_header packet = and_then (idx packet 6) (\<lambda>next_header. ipv6_header_loop 8 packet next_header 40 6)"

definition fragment_header :: "bytes \<Rightarrow> IpVersion \<Rightarrow> (FragmentError, bytes \<times> nat option \<times> u8) res" where
  "fragment_header packet version =
     (case version of
        IpV4 \<Rightarrow>
          and_then (idx packet 0) (\<lambda>b0.
          let header_len = unat (b0 AND 0x0f) * 4 in
          and_then (slice packet 0 header_len) (\<lambda>header.
          and_then (idx packet 9) (\<lambda>protocol. Ok (header, None, protocol))))
      | IpV6 \<Rightarrow> ipv6_fragment_header packet)"

definition reassembled_size_exceeds :: "IpVersion \<Rightarrow> nat \<Rightarrow> nat \<Rightarrow> bool" where
  "reassembled_size_exceeds version header_len payload_len =
     (let field_len = (case version of
          IpV4 \<Rightarrow> checked_add header_len payload_len
        | IpV6 \<Rightarrow> Option.bind (checked_sub header_len 40) (\<lambda>unfragmentable_len. checked_add unfragmentable_len payload_len))
      in case field_len of None \<Rightarrow> True | Some len \<Rightarrow> len > u16_max)"

definition validate_reassembled_size :: "IpVersion \<Rightarrow> nat \<Rightarrow> nat \<Rightarrow> (FragmentError, unit) res" where
  "validate_reassembled_size version header_len payload_len =
     (if reassembled_size_exceeds version header_len payload_len
      then Err (FragMalformed ''reassembled IP datagram is too large'') else Ok ())"

text \<open>\<open>offset.saturating_add(u32::try_from(len).unwrap_or(u32::MAX))\<close>.\<close>

definition piece_end :: "nat \<Rightarrow> nat \<Rightarrow> nat" where
  "piece_end offset len = min (offset + min len u32_max) u32_max"

text \<open>The pieces in the order of the B-tree map.\<close>

definition piece_list :: "Assembly \<Rightarrow> (nat \<times> Piece) list" where
  "piece_list a = [(i, p). i \<leftarrow> sorted_list_of_fset (fmdom (as_pieces a)),
     p \<leftarrow> (case fmlookup (as_pieces a) i of Some p \<Rightarrow> [p] | None \<Rightarrow> [])]"

fun contiguous :: "nat \<Rightarrow> (nat \<times> Piece) list \<Rightarrow> nat option" where
  "contiguous expected [] = Some expected"
| "contiguous expected ((offset, piece) # rest) =
     (if offset \<noteq> expected then None else contiguous (piece_end expected (length (piece_bytes piece))) rest)"

definition is_complete :: "Assembly \<Rightarrow> bool" where
  "is_complete a =
     (case (as_total a, as_header a) of
        (Some tot, Some _) \<Rightarrow> contiguous 0 (piece_list a) = Some tot
      | _ \<Rightarrow> False)"

fun pair_sum :: "bytes \<Rightarrow> u32 \<Rightarrow> u32" where
  "pair_sum (a # b # rest) acc = pair_sum rest (acc + ucast (be16 a b))"
| "pair_sum _ acc = acc"

definition ipv4_checksum :: "bytes \<Rightarrow> u16" where
  "ipv4_checksum header = NOT (fold_checksum (pair_sum header 0))"

definition rebuild :: "Assembly \<Rightarrow> IpVersion \<Rightarrow> (FragmentError, bytes) res" where
  "rebuild a version =
     and_then (ok_or (as_header a) (FragMalformed ''missing first fragment'')) (\<lambda>header.
     let packet = header @ concat (map (\<lambda>(_, p). piece_bytes p) (piece_list a)) in
     case version of
       IpV4 \<Rightarrow>
         and_then (ok_or (try_u16 (length packet)) (FragMalformed ''IPv4 datagram too large'')) (\<lambda>tot.
         and_then (copy_at packet 2 4 (to_be16 tot)) (\<lambda>packet.
         and_then (copy_at packet 6 8 (to_be16 0)) (\<lambda>packet.
         and_then (copy_at packet 10 12 (to_be16 0)) (\<lambda>packet.
         and_then (idx packet 0) (\<lambda>b0.
         and_then (slice packet 0 (unat (b0 AND 0x0f) * 4)) (\<lambda>header.
         copy_at packet 10 12 (to_be16 (ipv4_checksum header))))))))
     | IpV6 \<Rightarrow>
         and_then (ok_or (as_previous a) (FragMalformed ''missing IPv6 fragment predecessor'')) (\<lambda>previous.
         and_then (store packet previous (as_protocol a)) (\<lambda>packet.
         and_then (ok_or (try_u16 (sat_sub (length packet) 40)) (FragMalformed ''IPv6 datagram too large'')) (\<lambda>payload_len.
         copy_at packet 4 6 (to_be16 payload_len)))))"

definition initial_fragment_packet :: "Assembly \<Rightarrow> FragmentKey \<Rightarrow> bytes option" where
  "initial_fragment_packet a key =
     Option.bind (fmlookup (as_pieces a) 0) (\<lambda>first.
     Option.bind (as_header a) (\<lambda>packet.
     case fk_version key of
       IpV4 \<Rightarrow> Some (packet @ piece_bytes first)
     | IpV6 \<Rightarrow>
         Option.bind (checked_sub (length packet) 40) (\<lambda>n.
         Option.bind (checked_add n 8) (\<lambda>n.
         Option.bind (checked_add n (length (piece_bytes first))) (\<lambda>n.
         Option.bind (try_u16 n) (\<lambda>payload_len.
         Some (take 4 packet @ to_be16 payload_len @ drop 6 packet @ [as_protocol a, 0] @ to_be16 1 @
           to_be32 (fk_identification key) @ piece_bytes first)))))))"

section \<open>The reassembler\<close>

definition reassembler_new :: "ResourceLedger \<Rightarrow> nat \<Rightarrow> ('e, Reassembler) res" where
  "reassembler_new led timeout_ms =
     (if \<not> 0 < timeout_ms then Panic
      else
        let tick = max (div_ceil timeout_ms TIMER_WHEEL_SAFE_DELTA_TICKS) FRAGMENT_TIMER_MIN_TICK_MS in
        and_then (wheel_new tick 0) (\<lambda>wheel.
        Ok \<lparr>ra_ledger = led, ra_timeout = timeout_ms, ra_now = 0, ra_divisor = 1, ra_tick = tick, ra_expiry = wheel,
            ra_assemblies = fmempty, ra_index = fmempty, ra_serial = 0,
            ra_stats = \<lparr>fs_active = 0, fs_buffered = 0, fs_completed = 0, fs_expired = 0, fs_evicted = 0, fs_overlap_drops = 0\<rparr>\<rparr>))"

definition piece_leases :: "Piece \<Rightarrow> BudgetLease list" where
  "piece_leases p = [piece_slot p, piece_payload p, piece_metadata p]"

definition assembly_leases :: "Assembly \<Rightarrow> BudgetLease list" where
  "assembly_leases a = concat (map (piece_leases \<circ> snd) (piece_list a)) @ [as_metadata a]"

definition drop_leases :: "Reassembler \<Rightarrow> BudgetLease list \<Rightarrow> Reassembler" where
  "drop_leases r ls = r\<lparr>ra_ledger := foldl drop_lease (ra_ledger r) ls\<rparr>"

definition overlaps :: "Reassembler \<Rightarrow> FragmentKey \<Rightarrow> nat \<Rightarrow> nat \<Rightarrow> bool" where
  "overlaps r key start end =
     (case fmlookup (ra_assemblies r) key of
        None \<Rightarrow> False
      | Some a \<Rightarrow> list_ex (\<lambda>(offset, piece). start < piece_end offset (length (piece_bytes piece)) \<and> offset < end) (piece_list a))"

definition conflicts :: "Reassembler \<Rightarrow> FragmentKey \<Rightarrow> u8 \<Rightarrow> FragmentInfo \<Rightarrow> nat \<Rightarrow> nat \<Rightarrow> bool" where
  "conflicts r key protocol fragment end header_len =
     (case fmlookup (ra_assemblies r) key of
        None \<Rightarrow> False
      | Some a \<Rightarrow>
          if as_protocol a \<noteq> protocol \<or> (case as_total a of None \<Rightarrow> False | Some tot \<Rightarrow> end > tot) then True
          else if \<not> more_fragments fragment \<and>
            list_ex (\<lambda>(offset, piece). piece_end offset (length (piece_bytes piece)) > end) (piece_list a) then True
          else
            let tot = (if more_fragments fragment then as_total a else Some end);
                final_header_len = (if offset_bytes fragment = 0 then Some header_len else map_option length (as_header a))
            in case (tot, final_header_len) of
                 (Some tot, Some header_len) \<Rightarrow> reassembled_size_exceeds (fk_version key) header_len tot
               | _ \<Rightarrow> False)"

definition update_time :: "Reassembler \<Rightarrow> nat \<Rightarrow> (FragmentError, unit) res \<times> Reassembler" where
  "update_time r now = (if now < ra_now r then (Err FragClockWentBackwards, r) else (Ok (), r\<lparr>ra_now := now\<rparr>))"

definition take_assembly :: "Reassembler \<Rightarrow> FragmentKey \<Rightarrow> Assembly option \<times> Reassembler" where
  "take_assembly r key =
     (case fmlookup (ra_assemblies r) key of
        None \<Rightarrow> (None, r)
      | Some a \<Rightarrow>
          let assemblies = fmdrop key (ra_assemblies r) in
          (Some a, r\<lparr>ra_assemblies := assemblies, ra_index := fmdrop (as_eviction a) (ra_index r),
             ra_stats := ra_stats r\<lparr>fs_active := fcard (fmdom assemblies),
               fs_buffered := sat_sub (fs_buffered (ra_stats r)) (fcard (fmdom (as_pieces a)))\<rparr>\<rparr>))"

definition remove_assembly :: "Reassembler \<Rightarrow> FragmentKey \<Rightarrow> Assembly option \<times> Reassembler" where
  "remove_assembly r key =
     (case take_assembly r key of
        (None, r) \<Rightarrow> (None, r)
      | (Some a, r) \<Rightarrow> (Some a, r\<lparr>ra_expiry := snd (cancel (ra_expiry r) (as_timer a))\<rparr>))"

text \<open>\<open>remove_assembly\<close> with its result dropped at once.\<close>

definition discard_assembly :: "Reassembler \<Rightarrow> FragmentKey \<Rightarrow> bool \<times> Reassembler" where
  "discard_assembly r key =
     (case remove_assembly r key of
        (None, r) \<Rightarrow> (False, r)
      | (Some a, r) \<Rightarrow> (True, drop_leases r (assembly_leases a)))"

definition evict_oldest_assembly :: "Reassembler \<Rightarrow> bool \<times> Reassembler" where
  "evict_oldest_assembly r =
     (if fmdom (ra_index r) = {||} then (False, r)
      else case fmlookup (ra_index r) (Min (fset (fmdom (ra_index r)))) of
        None \<Rightarrow> (False, r)
      | Some key \<Rightarrow> discard_assembly r key)"

definition credit_of :: "BudgetLease list \<Rightarrow> PendingFragmentCredit" where
  "credit_of ls = \<lparr>cr_slot = ls ! 0, cr_payload = ls ! 1, cr_piece_metadata = ls ! 2, cr_assembly_metadata = get_opt ls 3\<rparr>"

definition credit_leases :: "PendingFragmentCredit \<Rightarrow> BudgetLease list" where
  "credit_leases c = [cr_slot c, cr_payload c, cr_piece_metadata c] @ (case cr_assembly_metadata c of None \<Rightarrow> [] | Some l \<Rightarrow> [l])"

definition try_acquire_fragment_credit ::
  "Reassembler \<Rightarrow> nat \<Rightarrow> bool \<Rightarrow> (BudgetError, PendingFragmentCredit) res \<times> Reassembler" where
  "try_acquire_fragment_credit r payload_len needs_assembly =
     (let (got, led) = acquire_each try_acquire drop_lease (ra_ledger r)
            ([(Fragments, 1), (FragmentBytes, payload_len), (MetadataBytes, PIECE_METADATA_BYTES)] @
             (if needs_assembly then [(MetadataBytes, ASSEMBLY_METADATA_BYTES)] else [])) []
      in (and_then got (\<lambda>ls. Ok (credit_of ls)), r\<lparr>ra_ledger := led\<rparr>))"

lemma discard_smaller:
  assumes "discard_assembly r key = (True, r')"
  shows "fcard (fmdom (ra_assemblies r')) < fcard (fmdom (ra_assemblies r))"
proof -
  obtain a where a: "fmlookup (ra_assemblies r) key = Some a"
    and r': "ra_assemblies r' = fmdrop key (ra_assemblies r)"
    using assms by (auto simp: discard_assembly_def remove_assembly_def take_assembly_def drop_leases_def Let_def split: option.splits)
  have "key |\<in>| fmdom (ra_assemblies r)" using a by (rule fmdomI)
  then show ?thesis by (simp add: r' fcard.rep_eq card_gt_0_iff) (metis card_gt_0_iff diff_less empty_iff finite_fset lessI)
qed

lemma evict_smaller:
  "evict_oldest_assembly r = (True, r') \<Longrightarrow> fcard (fmdom (ra_assemblies r')) < fcard (fmdom (ra_assemblies r))"
  by (auto simp: evict_oldest_assembly_def split: if_splits option.splits intro: discard_smaller)

lemma try_credit_assemblies:
  "try_acquire_fragment_credit r n needs = (got, r') \<Longrightarrow> ra_assemblies r' = ra_assemblies r"
  by (auto simp: try_acquire_fragment_credit_def split_beta)

function acquire_fragment_credit ::
  "Reassembler \<Rightarrow> FragmentKey \<Rightarrow> nat \<Rightarrow> (FragmentError, PendingFragmentCredit) res \<times> Reassembler" where
  "acquire_fragment_credit r key payload_len =
     (let needs_assembly = (fmlookup (ra_assemblies r) key = None) in
      case try_acquire_fragment_credit r payload_len needs_assembly of
        (Ok credit, r1) \<Rightarrow> (Ok credit, r1)
      | (Panic, r1) \<Rightarrow> (Panic, r1)
      | (Err e, r1) \<Rightarrow>
          (case evict_oldest_assembly r1 of
             (True, r2) \<Rightarrow>
               acquire_fragment_credit
                 (r2\<lparr>ra_stats := ra_stats r2\<lparr>fs_evicted := sat_add (fs_evicted (ra_stats r2)) 1\<rparr>\<rparr>) key payload_len
           | (False, r2) \<Rightarrow> (Err (FragBudget e), r2)))"
  by pat_completeness auto

termination acquire_fragment_credit
  by (relation "measure (\<lambda>(r, _, _). fcard (fmdom (ra_assemblies r)))")
    (auto dest!: try_credit_assemblies [OF sym] evict_smaller [OF sym])

declare acquire_fragment_credit.simps [simp del]

text \<open>The loop of \<open>next_eviction_key\<close> on fuel: one more turn than there are keys to run into.\<close>

primrec eviction_loop :: "nat \<Rightarrow> Reassembler \<Rightarrow> nat \<Rightarrow> (nat \<times> nat) option \<times> Reassembler" where
  "eviction_loop 0 r created = (None, r)"
| "eviction_loop (Suc n) r created =
     (let key = (created, ra_serial r); r = r\<lparr>ra_serial := wadd (ra_serial r) 1\<rparr> in
      if fmlookup (ra_index r) key = None then (Some key, r) else eviction_loop n r created)"

definition next_eviction_key :: "Reassembler \<Rightarrow> nat \<Rightarrow> ('e, nat \<times> nat) res \<times> Reassembler" where
  "next_eviction_key r created =
     (case eviction_loop (Suc (fcard (fmdom (ra_index r)))) r created of
        (Some key, r) \<Rightarrow> (Ok key, r)
      | (None, r) \<Rightarrow> (Panic, r))"

definition effective_timeout :: "Reassembler \<Rightarrow> nat \<Rightarrow> nat" where
  "effective_timeout r divisor = max (ra_timeout r div max divisor 1) 1"

fun expire_due :: "Reassembler \<Rightarrow> FragmentKey list \<Rightarrow> nat \<Rightarrow> FragmentExpirations \<Rightarrow> FragmentExpirations \<times> Reassembler" where
  "expire_due r [] max_quotes expired = (expired, r)"
| "expire_due r (key # due) max_quotes expired =
     (case take_assembly r key of
        (None, r) \<Rightarrow> expire_due r due max_quotes expired
      | (Some a, r) \<Rightarrow>
          let expired = expired\<lparr>fe_expired := sat_add (fe_expired expired) 1\<rparr>;
              expired = (if length (fe_invoking expired) < max_quotes then
                           (case initial_fragment_packet a key of
                              Some packet \<Rightarrow> expired\<lparr>fe_invoking := fe_invoking expired @ [packet]\<rparr>
                            | None \<Rightarrow> expired)
                         else expired)
          in expire_due (drop_leases r (assembly_leases a)) due max_quotes expired)"

abbreviation no_expirations :: FragmentExpirations where
  "no_expirations \<equiv> \<lparr>fe_expired = 0, fe_invoking = []\<rparr>"

definition advance_wheel :: "Reassembler \<Rightarrow> nat \<Rightarrow> (FragmentError, FragmentKey list) res \<times> Reassembler" where
  "advance_wheel r now =
     (let (due, wheel) = advance_to (ra_expiry r) now in (map_err from_timer_error due, r\<lparr>ra_expiry := wheel\<rparr>))"

definition add_expired :: "Reassembler \<Rightarrow> nat \<Rightarrow> Reassembler" where
  "add_expired r n = r\<lparr>ra_stats := ra_stats r\<lparr>fs_expired := sat_add (fs_expired (ra_stats r)) n\<rparr>\<rparr>"

definition advance_current :: "Reassembler \<Rightarrow> nat \<Rightarrow> (FragmentError, nat) res \<times> Reassembler" where
  "advance_current r now =
     then_do (update_time r now) (\<lambda>_ r.
     then_do (advance_wheel r now) (\<lambda>due r.
     let (expired, r) = expire_due r due 0 no_expirations in
     (Ok (fe_expired expired), add_expired r (fe_expired expired))))"

fun rebuild_loop :: "Reassembler \<Rightarrow> nat \<Rightarrow> nat \<Rightarrow> FragmentKey list \<Rightarrow> FragmentKey list \<Rightarrow> (FragmentError, FragmentKey list) res \<times> Reassembler" where
  "rebuild_loop r now timeout [] expired = (Ok expired, r)"
| "rebuild_loop r now timeout (key # keys) expired =
     (case fmlookup (ra_assemblies r) key of
        None \<Rightarrow> rebuild_loop r now timeout keys expired
      | Some a \<Rightarrow>
          if timeout \<le> sat_sub now (as_created a) then rebuild_loop r now timeout keys (expired @ [key])
          else
            let (got, wheel) = schedule (ra_expiry r) (sat_add (as_created a) timeout) key in
            then_do (map_err from_timer_error got, r\<lparr>ra_expiry := wheel\<rparr>) (\<lambda>timer r.
            rebuild_loop (r\<lparr>ra_assemblies := fmupd key (a\<lparr>as_timer := timer\<rparr>) (ra_assemblies r)\<rparr>) now timeout keys expired))"

definition rebuild_expiry ::
  "Reassembler \<Rightarrow> nat \<Rightarrow> nat \<Rightarrow> FragmentKey list \<Rightarrow> (FragmentError, FragmentKey list) res \<times> Reassembler" where
  "rebuild_expiry r now divisor keys =
     (case wheel_new (ra_tick r) now of
        Ok wheel \<Rightarrow>
          then_do (rebuild_loop (r\<lparr>ra_expiry := wheel\<rparr>) now (effective_timeout r divisor) keys []) (\<lambda>expired r.
          (Ok expired, r\<lparr>ra_divisor := divisor\<rparr>))
      | Err e \<Rightarrow> (Err e, r)
      | Panic \<Rightarrow> (Panic, r))"

definition advance_time_under_pressure_with_quotes ::
  "Reassembler \<Rightarrow> nat \<Rightarrow> nat \<Rightarrow> nat \<Rightarrow> FragmentKey list \<Rightarrow> (FragmentError, FragmentExpirations) res \<times> Reassembler" where
  "advance_time_under_pressure_with_quotes r now divisor max_quotes keys =
     then_do (update_time r now) (\<lambda>_ r.
     let divisor = max divisor 1 in
     then_do (if divisor = ra_divisor r then advance_wheel r now else rebuild_expiry r now divisor keys) (\<lambda>due r.
     let (expired, r) = expire_due r due max_quotes no_expirations in
     (Ok expired, add_expired r (fe_expired expired))))"

definition advance_time_under_pressure ::
  "Reassembler \<Rightarrow> nat \<Rightarrow> nat \<Rightarrow> FragmentKey list \<Rightarrow> (FragmentError, nat) res \<times> Reassembler" where
  "advance_time_under_pressure r now divisor keys =
     then_do (advance_time_under_pressure_with_quotes r now divisor 0 keys) (\<lambda>expired r. (Ok (fe_expired expired), r))"

definition advance_time :: "Reassembler \<Rightarrow> nat \<Rightarrow> FragmentKey list \<Rightarrow> (FragmentError, nat) res \<times> Reassembler" where
  "advance_time r now keys = advance_time_under_pressure r now 1 keys"

definition clear_reassembler :: "Reassembler \<Rightarrow> FragmentKey list \<Rightarrow> ('e, unit) res \<times> Reassembler" where
  "clear_reassembler r keys =
     (let r = drop_leases r (concat [assembly_leases a. key \<leftarrow> keys,
                a \<leftarrow> (case fmlookup (ra_assemblies r) key of Some a \<Rightarrow> [a] | None \<Rightarrow> [])]);
          r = r\<lparr>ra_assemblies := fmempty, ra_index := fmempty\<rparr> in
      then_do (wheel_new (ra_tick r) (ra_now r), r) (\<lambda>wheel r.
      (Ok (), r\<lparr>ra_expiry := wheel, ra_stats := ra_stats r\<lparr>fs_active := 0, fs_buffered := 0\<rparr>\<rparr>)))"

definition fragment_key :: "ParsedIpPacket \<Rightarrow> FragmentInfo \<Rightarrow> u8 \<Rightarrow> FragmentKey" where
  "fragment_key ip fragment protocol =
     \<lparr>fk_version = ip_version ip, fk_source = ip_source ip, fk_destination = ip_destination ip,
      fk_protocol = (if ip_version ip = IpV4 then protocol else 0), fk_identification = identification fragment\<rparr>"

text \<open>A new assembly for \<open>key\<close> when there is none; what it takes of the credit is left out of the rest.\<close>

definition open_assembly ::
  "Reassembler \<Rightarrow> FragmentKey \<Rightarrow> u8 \<Rightarrow> nat \<Rightarrow> PendingFragmentCredit \<Rightarrow> (FragmentError, unit) res \<times> Reassembler" where
  "open_assembly r key protocol now credit =
     (if fmlookup (ra_assemblies r) key \<noteq> None then (Ok (), r)
      else case cr_assembly_metadata credit of
        None \<Rightarrow> (Err (FragMalformed ''new assembly lacked metadata credit''), drop_leases r (credit_leases credit))
      | Some metadata \<Rightarrow>
          let deadline = sat_add now (effective_timeout r (ra_divisor r));
              (got, wheel) = schedule (ra_expiry r) deadline key;
              r = r\<lparr>ra_expiry := wheel\<rparr> in
          case got of
            Err e \<Rightarrow> (Err (from_timer_error e), drop_leases r (credit_leases credit))
          | Panic \<Rightarrow> (Panic, r)
          | Ok timer \<Rightarrow>
              then_do (next_eviction_key r now) (\<lambda>eviction r.
              let a = \<lparr>as_header = None, as_previous = None, as_protocol = protocol, as_pieces = fmempty, as_total = None,
                       as_created = now, as_timer = timer, as_eviction = eviction, as_metadata = metadata\<rparr>;
                  assemblies = fmupd key a (ra_assemblies r)
              in (Ok (), r\<lparr>ra_assemblies := assemblies, ra_index := fmupd eviction key (ra_index r),
                    ra_stats := ra_stats r\<lparr>fs_active := fcard (fmdom assemblies)\<rparr>\<rparr>)))"

definition add_piece ::
  "Reassembler \<Rightarrow> FragmentKey \<Rightarrow> FragmentInfo \<Rightarrow> bytes \<Rightarrow> nat \<Rightarrow> bytes \<Rightarrow> nat option \<Rightarrow> PendingFragmentCredit \<Rightarrow>
    (FragmentError, bytes option) res \<times> Reassembler" where
  "add_piece r key fragment payload end header previous credit =
     (let ls = [cr_slot credit, cr_payload credit, cr_piece_metadata credit] in
      case fmlookup (ra_assemblies r) key of
        None \<Rightarrow> (Err (FragMalformed ''fragment assembly disappeared''), drop_leases r ls)
      | Some a \<Rightarrow>
          let a = (if offset_bytes fragment = 0 then a\<lparr>as_header := Some header, as_previous := previous\<rparr> else a) in
          if \<not> more_fragments fragment \<and> (case as_total a of None \<Rightarrow> False | Some tot \<Rightarrow> tot \<noteq> end) then
            let r = snd (discard_assembly (r\<lparr>ra_assemblies := fmupd key a (ra_assemblies r)\<rparr>) key) in
            (Err (FragMalformed ''conflicting final fragment lengths''), drop_leases r ls)
          else
            let a = (if \<not> more_fragments fragment then a\<lparr>as_total := Some end\<rparr> else a);
                piece = \<lparr>piece_bytes = payload, piece_slot = cr_slot credit, piece_payload = cr_payload credit,
                         piece_metadata = cr_piece_metadata credit\<rparr>;
                a = a\<lparr>as_pieces := fmupd (unat (offset_bytes fragment)) piece (as_pieces a)\<rparr>;
                r = r\<lparr>ra_assemblies := fmupd key a (ra_assemblies r),
                      ra_stats := ra_stats r\<lparr>fs_buffered := sat_add (fs_buffered (ra_stats r)) 1\<rparr>\<rparr> in
            if \<not> is_complete a then (Ok None, r)
            else case remove_assembly r key of
              (None, r) \<Rightarrow> (Err (FragMalformed ''complete assembly disappeared''), r)
            | (Some a, r) \<Rightarrow>
                let r = drop_leases r (assembly_leases a) in
                case rebuild a (fk_version key) of
                  Ok packet \<Rightarrow> (Ok (Some packet), r\<lparr>ra_stats := ra_stats r\<lparr>fs_completed := sat_add (fs_completed (ra_stats r)) 1\<rparr>\<rparr>)
                | Err e \<Rightarrow> (Err e, r)
                | Panic \<Rightarrow> (Panic, r))"

definition ingest :: "bool \<Rightarrow> Reassembler \<Rightarrow> bytes \<Rightarrow> nat \<Rightarrow> (FragmentError, bytes option) res \<times> Reassembler" where
  "ingest le r packet now =
     then_do (advance_current r now) (\<lambda>_ r.
     then_do (map_err FragWire (parse_ip_packet le packet True), r) (\<lambda>ip r.
     case ip_fragment ip of
       None \<Rightarrow> (Ok (Some packet), r)
     | Some fragment \<Rightarrow>
         if is_atomic fragment then (Ok (Some packet), r)
         else
           let payload = (case ip_fragment_payload ip of Some p \<Rightarrow> p | None \<Rightarrow> ip_payload ip) in
           then_do (fragment_end fragment (length payload), r) (\<lambda>end r.
           then_do (fragment_header packet (ip_version ip), r) (\<lambda>(header, previous, protocol) r.
           then_do (validate_reassembled_size (ip_version ip) (length header) end, r) (\<lambda>_ r.
           let key = fragment_key ip fragment protocol in
           if overlaps r key (unat (offset_bytes fragment)) end then
             let r = snd (discard_assembly r key) in
             (Err Overlap, r\<lparr>ra_stats := ra_stats r\<lparr>fs_overlap_drops := sat_add (fs_overlap_drops (ra_stats r)) 1\<rparr>\<rparr>)
           else if conflicts r key protocol fragment end (length header) then
             (Err (FragMalformed ''fragment conflicts with established datagram bounds''), snd (discard_assembly r key))
           else
             then_do (acquire_fragment_credit r key (length payload)) (\<lambda>credit r.
             then_do (open_assembly r key protocol now credit) (\<lambda>_ r.
             add_piece r key fragment payload end header previous credit)))))))"

end
