(* ===== verification/Reassembly_Inv.thy ===== *)
theory Reassembly_Inv
  imports Reassembly
begin

unbundle bit_operations_syntax

text \<open>
  The invariant of the reassembler: the assemblies, the eviction index, the timers and the leases describe the same set
  of incomplete datagrams.  Removing and evicting assemblies, acquiring credit and choosing an eviction
  key keep it.
\<close>

section \<open>Sums over finite maps\<close>

definition fmap_sum :: "('v \<Rightarrow> 'n::comm_monoid_add) \<Rightarrow> ('k, 'v) fmap \<Rightarrow> 'n" where
  "fmap_sum f m = (\<Sum>k\<in>fset (fmdom m). f (the (fmlookup m k)))"

lemma fmap_sum_drop: "fmlookup m k = Some v \<Longrightarrow> fmap_sum f m = f v + fmap_sum f (fmdrop k m)"
proof -
  assume a: "fmlookup m k = Some v"
  then have k: "k \<in> fset (fmdom m)" by (rule fmdomI)
  have "fmap_sum f m = f v + (\<Sum>j\<in>fset (fmdom m) - {k}. f (the (fmlookup m j)))"
    unfolding fmap_sum_def using sum.remove [OF _ k, of "\<lambda>k. f (the (fmlookup m k))"] a by simp
  moreover have "(\<Sum>j\<in>fset (fmdom m) - {k}. f (the (fmlookup m j))) = fmap_sum f (fmdrop k m)"
    unfolding fmap_sum_def by (rule sum.cong) auto
  ultimately show ?thesis by simp
qed

lemma fmap_sum_empty [simp]: "fmap_sum f fmempty = 0"
  by (simp add: fmap_sum_def)

lemma fmap_sum_upd: "fmap_sum f (fmupd k v m) = f v + fmap_sum f (fmdrop k m)"
proof -
  have "fmdrop k (fmupd k v m) = fmdrop k m" by (rule fmap_ext) simp
  then show ?thesis using fmap_sum_drop [of "fmupd k v m" k v f] by simp
qed

lemma fmdrop_absent [simp]: "fmlookup m k = None \<Longrightarrow> fmdrop k m = m"
  by (rule fmap_ext) auto

lemma fmap_sum_bound:
  fixes f :: "'v \<Rightarrow> nat"
  assumes "\<And>k v. fmlookup m k = Some v \<Longrightarrow> c \<le> f v"
  shows "fcard (fmdom m) * c \<le> fmap_sum f m"
proof -
  have "(\<Sum>k\<in>fset (fmdom m). c) \<le> fmap_sum f m"
    unfolding fmap_sum_def
  proof (rule sum_mono)
    fix k assume "k \<in> fset (fmdom m)"
    then show "c \<le> f (the (fmlookup m k))" using assms by (metis fmlookup_dom_iff option.sel)
  qed
  then show ?thesis by (simp add: fcard.rep_eq)
qed

lemma piece_list_eq: "piece_list a = map (\<lambda>i. (i, the (fmlookup (as_pieces a) i))) (sorted_list_of_fset (fmdom (as_pieces a)))"
proof -
  have "[(i, p). i \<leftarrow> xs, p \<leftarrow> (case fmlookup (as_pieces a) i of Some p \<Rightarrow> [p] | None \<Rightarrow> [])] =
      map (\<lambda>i. (i, the (fmlookup (as_pieces a) i))) xs" if "set xs \<subseteq> fset (fmdom (as_pieces a))" for xs
    using that by (induction xs) (auto simp: fmlookup_dom_iff split: option.splits)
  then show ?thesis by (simp add: piece_list_def)
qed

lemma set_piece_list: "(i, p) \<in> set (piece_list a) \<longleftrightarrow> fmlookup (as_pieces a) i = Some p"
  by (auto simp: piece_list_eq image_iff fmlookup_dom_iff)

lemma mset_assembly_leases:
  "mset (assembly_leases a) = fmap_sum (\<lambda>p. mset (piece_leases p)) (as_pieces a) + {#as_metadata a#}"
proof -
  have "mset (concat (map (piece_leases \<circ> snd) (piece_list a))) =
      (\<Sum>i\<leftarrow>sorted_list_of_fset (fmdom (as_pieces a)). mset (piece_leases (the (fmlookup (as_pieces a) i))))"
    by (simp add: piece_list_eq mset_concat comp_def)
  also have "\<dots> = fmap_sum (\<lambda>p. mset (piece_leases p)) (as_pieces a)"
    unfolding fmap_sum_def by (simp add: sum_list_distinct_conv_sum_set distinct_fset_list)
  finally show ?thesis by (simp add: assembly_leases_def)
qed

section \<open>The invariant\<close>

definition header_ok :: "IpVersion \<Rightarrow> bytes \<Rightarrow> nat option \<Rightarrow> bool" where
  "header_ok v h previous =
     (case v of
        IpV4 \<Rightarrow> 20 \<le> length h \<and> unat (h ! 0 AND 0x0f) * 4 = length h
      | IpV6 \<Rightarrow> 40 \<le> length h \<and> (\<exists>k. previous = Some k \<and> k < length h))"

definition piece_ok :: "nat \<Rightarrow> Piece \<Rightarrow> bool" where
  "piece_ok i p \<longleftrightarrow> piece_bytes p \<noteq> [] \<and> i + length (piece_bytes p) \<le> MAX_REASSEMBLED_BYTES \<and>
     piece_slot p = \<lparr>lease_kind = Fragments, lease_amount = 1\<rparr> \<and>
     piece_payload p = \<lparr>lease_kind = FragmentBytes, lease_amount = length (piece_bytes p)\<rparr> \<and>
     piece_metadata p = \<lparr>lease_kind = MetadataBytes, lease_amount = PIECE_METADATA_BYTES\<rparr>"

definition assembly_ok :: "IpVersion \<Rightarrow> Assembly \<Rightarrow> bool" where
  "assembly_ok v a \<longleftrightarrow>
     (\<forall>i p. fmlookup (as_pieces a) i = Some p \<longrightarrow> piece_ok i p) \<and>
     (\<forall>i p j q. fmlookup (as_pieces a) i = Some p \<longrightarrow> fmlookup (as_pieces a) j = Some q \<longrightarrow> i < j \<longrightarrow>
        i + length (piece_bytes p) \<le> j) \<and>
     (\<forall>t i p. as_total a = Some t \<longrightarrow> fmlookup (as_pieces a) i = Some p \<longrightarrow> i + length (piece_bytes p) \<le> t) \<and>
     (\<forall>h. as_header a = Some h \<longrightarrow> header_ok v h (as_previous a)) \<and>
     as_metadata a = \<lparr>lease_kind = MetadataBytes, lease_amount = ASSEMBLY_METADATA_BYTES\<rparr>"

abbreviation held :: "(FragmentKey, Assembly) fmap \<Rightarrow> BudgetLease multiset" where
  "held m \<equiv> fmap_sum (\<lambda>a. mset (assembly_leases a)) m"

definition index_ok :: "(FragmentKey, Assembly) fmap \<Rightarrow> (nat \<times> nat, FragmentKey) fmap \<Rightarrow> bool" where
  "index_ok m ix \<longleftrightarrow> (\<forall>e key. fmlookup ix e = Some key \<longleftrightarrow> (\<exists>a. fmlookup m key = Some a \<and> as_eviction a = e))"

text \<open>The assemblies and their leases; \<open>others\<close> are the leases of the ledger that the reassembler does not hold.\<close>

definition store_ok :: "BudgetLease multiset \<Rightarrow> Reassembler \<Rightarrow> bool" where
  "store_ok others r \<longleftrightarrow> ledger_ok (ra_ledger r) (held (ra_assemblies r) + others) \<and>
     index_ok (ra_assemblies r) (ra_index r) \<and>
     (\<forall>key a. fmlookup (ra_assemblies r) key = Some a \<longrightarrow> assembly_ok (fk_version key) a \<and> as_created a \<le> ra_now r) \<and>
     ra_serial r \<le> u64_max \<and> fs_active (ra_stats r) = fcard (fmdom (ra_assemblies r)) \<and>
     fs_buffered (ra_stats r) = fmap_sum (\<lambda>a. fcard (fmdom (as_pieces a))) (ra_assemblies r)"

text \<open>The tick at which an assembly created at \<open>created\<close> is due.\<close>

definition expiry_tick :: "Reassembler \<Rightarrow> nat \<Rightarrow> nat" where
  "expiry_tick r created = div_ceil (sat_add created (effective_timeout r (ra_divisor r))) (ra_tick r)"

text \<open>The timers, apart from the assemblies whose timer has fired.\<close>

definition timers_link :: "FragmentKey set \<Rightarrow> Reassembler \<Rightarrow> bool" where
  "timers_link fired r \<longleftrightarrow>
     (\<forall>i d key. fmlookup (timers (ra_expiry r)) i = Some (d, key) \<longrightarrow> key \<notin> fired \<and>
        (\<exists>a. fmlookup (ra_assemblies r) key = Some a \<and> as_timer a = i \<and> (ra_now r < u64_max \<longrightarrow> d = expiry_tick r (as_created a)))) \<and>
     (\<forall>key a. fmlookup (ra_assemblies r) key = Some a \<longrightarrow> key \<notin> fired \<longrightarrow>
        (\<exists>d. fmlookup (timers (ra_expiry r)) (as_timer a) = Some (d, key)))"

definition clock_link :: "Reassembler \<Rightarrow> bool" where
  "clock_link r \<longleftrightarrow> wheel_good (ra_expiry r) \<and> tick_ms (ra_expiry r) = ra_tick r \<and> ra_now r \<le> u64_max \<and>
     now_ms (ra_expiry r) \<le> ra_now r \<and> 0 < ra_timeout r \<and> ra_timeout r \<le> u64_max \<and>
     div_ceil (ra_timeout r) TIMER_WHEEL_SAFE_DELTA_TICKS \<le> ra_tick r \<and> FRAGMENT_TIMER_MIN_TICK_MS \<le> ra_tick r"

text \<open>The wheel has been advanced to the time of the reassembler.\<close>

definition up_to_date :: "Reassembler \<Rightarrow> bool" where
  "up_to_date r \<longleftrightarrow> ra_now r div ra_tick r \<le> current_tick (ra_expiry r) \<and>
     (ra_now r < u64_max \<longrightarrow> current_tick (ra_expiry r) = ra_now r div ra_tick r)"

definition reassembler_ok :: "BudgetLease multiset \<Rightarrow> Reassembler \<Rightarrow> bool" where
  "reassembler_ok others r \<longleftrightarrow> store_ok others r \<and> timers_link {} r \<and> clock_link r \<and> up_to_date r"

text \<open>What the operations on the assemblies leave alone.\<close>

definition same_clock :: "Reassembler \<Rightarrow> Reassembler \<Rightarrow> bool" where
  "same_clock r r' \<longleftrightarrow> ra_timeout r' = ra_timeout r \<and> ra_now r' = ra_now r \<and> ra_divisor r' = ra_divisor r \<and>
     ra_tick r' = ra_tick r \<and> current_tick (ra_expiry r') = current_tick (ra_expiry r) \<and>
     next_id (ra_expiry r') = next_id (ra_expiry r)"

lemma same_clock_refl [simp]: "same_clock r r"
  by (simp add: same_clock_def)

lemma same_clock_trans: "same_clock r s \<Longrightarrow> same_clock s t \<Longrightarrow> same_clock r t"
  by (simp add: same_clock_def)

section \<open>Removing assemblies\<close>

lemma fcard_drop: "fmlookup m k = Some v \<Longrightarrow> fcard (fmdom m) = Suc (fcard (fmdom (fmdrop k m)))"
proof -
  assume "fmlookup m k = Some v"
  then have "k \<in> fset (fmdom m)" by (rule fmdomI)
  then show ?thesis using card_Suc_Diff1 [of "fset (fmdom m)" k] by (simp add: fcard.rep_eq)
qed

lemma index_ok_drop:
  assumes "index_ok m ix" "fmlookup m key = Some a"
  shows "index_ok (fmdrop key m) (fmdrop (as_eviction a) ix)"
  unfolding index_ok_def
proof (intro allI)
  fix e k
  have u: "fmlookup ix (as_eviction a) = Some key" using assms unfolding index_ok_def by blast
  show "fmlookup (fmdrop (as_eviction a) ix) e = Some k \<longleftrightarrow> (\<exists>b. fmlookup (fmdrop key m) k = Some b \<and> as_eviction b = e)"
  proof (cases "e = as_eviction a")
    case True
    have "\<not> (\<exists>b. fmlookup (fmdrop key m) k = Some b \<and> as_eviction b = e)"
    proof
      assume "\<exists>b. fmlookup (fmdrop key m) k = Some b \<and> as_eviction b = e"
      then have "k \<noteq> key" "\<exists>b. fmlookup m k = Some b \<and> as_eviction b = e" by (auto split: if_splits)
      then have "fmlookup ix e = Some k" using assms(1) unfolding index_ok_def by blast
      then show False using u True \<open>k \<noteq> key\<close> by simp
    qed
    then show ?thesis using True by simp
  next
    case False
    have "fmlookup ix e = Some k \<longleftrightarrow> (\<exists>b. fmlookup m k = Some b \<and> as_eviction b = e)" using assms(1) unfolding index_ok_def by blast
    then show ?thesis using False assms(2) by auto
  qed
qed

lemma take_assembly_eq:
  assumes "fmlookup (ra_assemblies r) key = Some a"
  shows "take_assembly r key = (Some a, r\<lparr>ra_assemblies := fmdrop key (ra_assemblies r),
    ra_index := fmdrop (as_eviction a) (ra_index r),
    ra_stats := ra_stats r\<lparr>fs_active := fcard (fmdom (fmdrop key (ra_assemblies r))),
      fs_buffered := fs_buffered (ra_stats r) - fcard (fmdom (as_pieces a))\<rparr>\<rparr>)"
  using assms by (simp add: take_assembly_def sat_sub_def Let_def)

lemma store_ok_take:
  assumes "store_ok others r" "fmlookup (ra_assemblies r) key = Some a"
  shows "store_ok (mset (assembly_leases a) + others) (snd (take_assembly r key))"
proof -
  have "index_ok (fmdrop key (ra_assemblies r)) (fmdrop (as_eviction a) (ra_index r))"
    using assms by (intro index_ok_drop) (simp_all add: store_ok_def)
  then show ?thesis using assms
    by (simp add: store_ok_def take_assembly_eq fmap_sum_drop [OF assms(2)] ac_simps)
qed

lemma store_ok_expiry: "store_ok others (r\<lparr>ra_expiry := w\<rparr>) = store_ok others r"
  by (simp add: store_ok_def)

lemma store_ok_drop_leases:
  "store_ok (mset ls + others) r \<Longrightarrow> store_ok others (drop_leases r ls)"
  using ledger.release_all [of "ra_ledger r" ls "held (ra_assemblies r) + others"]
  by (simp add: store_ok_def drop_leases_def ac_simps)

lemma drop_leases_frame [simp]:
  "ra_assemblies (drop_leases r ls) = ra_assemblies r" "ra_index (drop_leases r ls) = ra_index r"
  "ra_expiry (drop_leases r ls) = ra_expiry r" "ra_now (drop_leases r ls) = ra_now r"
  "ra_tick (drop_leases r ls) = ra_tick r" "ra_divisor (drop_leases r ls) = ra_divisor r"
  "ra_timeout (drop_leases r ls) = ra_timeout r" "ra_stats (drop_leases r ls) = ra_stats r" "ra_serial (drop_leases r ls) = ra_serial r"
  by (simp_all add: drop_leases_def)

lemma expiry_tick_cong:
  "ra_timeout r' = ra_timeout r \<Longrightarrow> ra_divisor r' = ra_divisor r \<Longrightarrow> ra_tick r' = ra_tick r \<Longrightarrow> expiry_tick r' = expiry_tick r"
  by (simp add: expiry_tick_def effective_timeout_def fun_eq_iff)

lemma clock_link_cong:
  "same_clock r r' \<Longrightarrow> wheel_good (ra_expiry r') \<Longrightarrow> tick_ms (ra_expiry r') = tick_ms (ra_expiry r) \<Longrightarrow>
   clock_link r \<Longrightarrow> clock_link r'"
  unfolding same_clock_def clock_link_def now_ms_def by metis

lemma up_to_date_cong: "same_clock r r' \<Longrightarrow> up_to_date r \<Longrightarrow> up_to_date r'"
  by (simp add: same_clock_def up_to_date_def)

text \<open>Taking an assembly whose timer has fired, and removing one with its timer.\<close>

lemma timers_link_take:
  assumes "timers_link fired r" "key \<in> fired"
  shows "timers_link fired (snd (take_assembly r key))"
proof (cases "fmlookup (ra_assemblies r) key")
  case None then show ?thesis using assms(1) by (simp add: take_assembly_def)
next
  case (Some a)
  let ?r = "snd (take_assembly r key)"
  have e: "expiry_tick ?r = expiry_tick r" by (rule expiry_tick_cong) (simp_all add: take_assembly_eq [OF Some])
  show ?thesis
    using assms unfolding timers_link_def e by (auto simp: take_assembly_eq [OF Some])
qed

lemma remove_assembly_eq:
  assumes "fmlookup (ra_assemblies r) key = Some a"
  shows "remove_assembly r key = (Some a, (snd (take_assembly r key))\<lparr>ra_expiry := snd (cancel (ra_expiry r) (as_timer a))\<rparr>)"
  using assms by (simp add: remove_assembly_def take_assembly_eq)

lemma cancel_frame:
  assumes "wheel_good w"
  shows "wheel_good (snd (cancel w i))" "timers (snd (cancel w i)) = fmdrop i (timers w)"
    "current_tick (snd (cancel w i)) = current_tick w" "next_id (snd (cancel w i)) = next_id w"
    "tick_ms (snd (cancel w i)) = tick_ms w"
proof -
  have w: "wheel_inv w" using assms by (simp add: wheel_good_def)
  show "wheel_good (snd (cancel w i))" using wheel.canc_law [OF assms, of i] by fastforce
  show "timers (snd (cancel w i)) = fmdrop i (timers w)" "current_tick (snd (cancel w i)) = current_tick w"
    using cancel_eq [OF w, of i] by simp_all
  show "next_id (snd (cancel w i)) = next_id w" "tick_ms (snd (cancel w i)) = tick_ms w"
    using cancel_eq(5) [OF w, of i] by (simp_all add: wheel_frame_def)
qed

lemma timers_link_remove:
  assumes "timers_link {} r" "wheel_good (ra_expiry r)" "fmlookup (ra_assemblies r) key = Some a"
  shows "timers_link {} (snd (remove_assembly r key))"
proof -
  let ?r = "snd (remove_assembly r key)"
  have e: "expiry_tick ?r = expiry_tick r"
    by (rule expiry_tick_cong) (simp_all add: remove_assembly_eq [OF assms(3)] take_assembly_eq [OF assms(3)])
  have t: "timers (ra_expiry ?r) = fmdrop (as_timer a) (timers (ra_expiry r))"
    by (simp add: remove_assembly_eq [OF assms(3)] cancel_frame(2) [OF assms(2)])
  have m: "ra_assemblies ?r = fmdrop key (ra_assemblies r)" "ra_now ?r = ra_now r"
    by (simp_all add: remove_assembly_eq [OF assms(3)] take_assembly_eq [OF assms(3)])
  obtain d where d: "fmlookup (timers (ra_expiry r)) (as_timer a) = Some (d, key)"
    using assms(1,3) unfolding timers_link_def by blast
  have inj: "as_timer b \<noteq> as_timer a" if b: "fmlookup (ra_assemblies r) k = Some b" "k \<noteq> key" for k b
  proof
    assume "as_timer b = as_timer a"
    moreover obtain d' where "fmlookup (timers (ra_expiry r)) (as_timer b) = Some (d', k)"
      using assms(1) b(1) unfolding timers_link_def by blast
    ultimately show False using d b(2) by simp
  qed
  have "(\<exists>b. fmlookup (fmdrop key (ra_assemblies r)) k = Some b \<and> as_timer b = i \<and>
      (ra_now r < u64_max \<longrightarrow> n = expiry_tick r (as_created b)))"
    if "fmlookup (fmdrop (as_timer a) (timers (ra_expiry r))) i = Some (n, k)" for i n k
  proof -
    have i: "i \<noteq> as_timer a" "fmlookup (timers (ra_expiry r)) i = Some (n, k)" using that by (auto split: if_splits)
    then obtain b where b: "fmlookup (ra_assemblies r) k = Some b" "as_timer b = i"
      "ra_now r < u64_max \<longrightarrow> n = expiry_tick r (as_created b)"
      using assms(1) unfolding timers_link_def by blast
    moreover have "k \<noteq> key" using b i(1) assms(3) by auto
    ultimately show ?thesis by auto
  qed
  moreover have "\<exists>n. fmlookup (fmdrop (as_timer a) (timers (ra_expiry r))) (as_timer b) = Some (n, k)"
    if "fmlookup (fmdrop key (ra_assemblies r)) k = Some b" for k b
  proof -
    have "fmlookup (ra_assemblies r) k = Some b" "k \<noteq> key" using that by (auto split: if_splits)
    moreover then have "\<exists>n. fmlookup (timers (ra_expiry r)) (as_timer b) = Some (n, k)"
      using assms(1) unfolding timers_link_def by blast
    ultimately show ?thesis using inj by auto
  qed
  ultimately show ?thesis unfolding timers_link_def e t m by blast
qed

definition smaller :: "Reassembler \<Rightarrow> Reassembler \<Rightarrow> bool" where
  "smaller r r' \<longleftrightarrow> (\<forall>k a. fmlookup (ra_assemblies r') k = Some a \<longrightarrow> fmlookup (ra_assemblies r) k = Some a)"

lemma discard_assembly_ok:
  assumes "reassembler_ok others r"
  shows "reassembler_ok others (snd (discard_assembly r key))" "same_clock r (snd (discard_assembly r key))"
    "ra_assemblies (snd (discard_assembly r key)) = fmdrop key (ra_assemblies r)"
    "fst (discard_assembly r key) = (fmlookup (ra_assemblies r) key \<noteq> None)"
proof -
  have "reassembler_ok others (snd (discard_assembly r key)) \<and> same_clock r (snd (discard_assembly r key)) \<and>
      ra_assemblies (snd (discard_assembly r key)) = fmdrop key (ra_assemblies r) \<and>
      fst (discard_assembly r key) = (fmlookup (ra_assemblies r) key \<noteq> None)"
  proof (cases "fmlookup (ra_assemblies r) key")
    case None
    then show ?thesis using assms by (simp add: discard_assembly_def remove_assembly_def take_assembly_def)
  next
    case (Some a)
    let ?r = "snd (remove_assembly r key)"
    have w: "wheel_good (ra_expiry r)" using assms by (simp add: reassembler_ok_def clock_link_def)
    have d: "discard_assembly r key = (True, drop_leases ?r (assembly_leases a))"
      by (simp add: discard_assembly_def remove_assembly_eq [OF Some])
    have s: "store_ok (mset (assembly_leases a) + others) ?r"
      using store_ok_take [OF _ Some, of others] assms
      by (simp add: remove_assembly_eq [OF Some] store_ok_expiry reassembler_ok_def)
    have c: "same_clock r ?r"
      by (simp add: same_clock_def remove_assembly_eq [OF Some] take_assembly_eq [OF Some] cancel_frame [OF w])
    have l: "timers_link {} ?r" using assms w Some by (intro timers_link_remove) (simp_all add: reassembler_ok_def)
    have k: "clock_link ?r" using assms
      by (intro clock_link_cong [OF c]) (simp_all add: reassembler_ok_def remove_assembly_eq [OF Some] cancel_frame [OF w])
    have u: "up_to_date ?r" using assms by (intro up_to_date_cong [OF c]) (simp add: reassembler_ok_def)
    have tl: "timers_link {} (drop_leases ?r ls)" "clock_link (drop_leases ?r ls)" "up_to_date (drop_leases ?r ls)"
      "same_clock ?r (drop_leases ?r ls)" for ls
      using l k u by (simp_all add: timers_link_def clock_link_def up_to_date_def same_clock_def expiry_tick_def effective_timeout_def)
    have "reassembler_ok others (drop_leases ?r (assembly_leases a))"
      using store_ok_drop_leases [OF s] tl unfolding reassembler_ok_def by blast
    moreover have "ra_assemblies ?r = fmdrop key (ra_assemblies r)"
      by (simp add: remove_assembly_eq [OF Some] take_assembly_eq [OF Some])
    ultimately show ?thesis using same_clock_trans [OF c tl(4)] Some by (simp add: d)
  qed
  then show "reassembler_ok others (snd (discard_assembly r key))" "same_clock r (snd (discard_assembly r key))"
    "ra_assemblies (snd (discard_assembly r key)) = fmdrop key (ra_assemblies r)"
    "fst (discard_assembly r key) = (fmlookup (ra_assemblies r) key \<noteq> None)" by simp_all
qed

lemma stats_frame [simp]:
  "reassembler_ok others (r\<lparr>ra_stats := ra_stats r\<lparr>fs_evicted := n\<rparr>\<rparr>) = reassembler_ok others r"
  "reassembler_ok others (r\<lparr>ra_stats := ra_stats r\<lparr>fs_completed := n\<rparr>\<rparr>) = reassembler_ok others r"
  "reassembler_ok others (r\<lparr>ra_stats := ra_stats r\<lparr>fs_expired := n\<rparr>\<rparr>) = reassembler_ok others r"
  "reassembler_ok others (r\<lparr>ra_stats := ra_stats r\<lparr>fs_overlap_drops := n\<rparr>\<rparr>) = reassembler_ok others r"
  by (simp_all add: reassembler_ok_def store_ok_def timers_link_def clock_link_def up_to_date_def expiry_tick_def effective_timeout_def)

lemma same_clock_stats [simp]: "same_clock r (r'\<lparr>ra_stats := s\<rparr>) = same_clock r r'" "same_clock (r\<lparr>ra_stats := s\<rparr>) r' = same_clock r r'"
  by (simp_all add: same_clock_def)

lemma fmdom_empty_iff: "fmdom m = {||} \<longleftrightarrow> m = fmempty"
  by (metis fmdom_empty fmrestrict_fset_dom fmrestrict_fset_null)

text \<open>The oldest assembly is evicted whenever there is one.\<close>

lemma evict_oldest_ok:
  assumes "reassembler_ok others r"
  shows "reassembler_ok others (snd (evict_oldest_assembly r))" "same_clock r (snd (evict_oldest_assembly r))"
    "smaller r (snd (evict_oldest_assembly r))"
    "fst (evict_oldest_assembly r) = (ra_assemblies r \<noteq> fmempty)" 
proof -
  have ix: "index_ok (ra_assemblies r) (ra_index r)" using assms by (simp add: reassembler_ok_def store_ok_def)
  have "reassembler_ok others (snd (evict_oldest_assembly r)) \<and> same_clock r (snd (evict_oldest_assembly r)) \<and>
    smaller r (snd (evict_oldest_assembly r)) \<and> fst (evict_oldest_assembly r) = (ra_assemblies r \<noteq> fmempty)"
  proof (cases "fmdom (ra_index r) = {||}")
    case True
    then have "ra_index r = fmempty" by (simp add: fmdom_empty_iff)
    then have "fmlookup (ra_assemblies r) key \<noteq> Some a" for key a
      using ix unfolding index_ok_def by (metis fmempty_lookup option.discI)
    then have "ra_assemblies r = fmempty" by (intro fmap_ext) (metis fmempty_lookup not_Some_eq)
    then show ?thesis using True assms by (simp add: evict_oldest_assembly_def smaller_def)
  next
    case False
    then have "Min (fset (fmdom (ra_index r))) \<in> fset (fmdom (ra_index r))"
      by (intro Min_in finite_fset) (metis bot_fset.rep_eq fset_inject)
    then obtain key where k: "fmlookup (ra_index r) (Min (fset (fmdom (ra_index r)))) = Some key" by (auto simp: fmlookup_dom_iff)
    then have "fmlookup (ra_assemblies r) key \<noteq> None" using ix unfolding index_ok_def by (metis option.discI)
    then show ?thesis using False k discard_assembly_ok [OF assms, of key]
      by (auto simp: evict_oldest_assembly_def smaller_def)
  qed
  then show "reassembler_ok others (snd (evict_oldest_assembly r))" "same_clock r (snd (evict_oldest_assembly r))"
    "smaller r (snd (evict_oldest_assembly r))"
    "fst (evict_oldest_assembly r) = (ra_assemblies r \<noteq> fmempty)" by simp_all
qed

section \<open>Credit\<close>

lemma ok_ledger:
  assumes "reassembler_ok others r" "ledger_ok led (held (ra_assemblies r) + others')"
  shows "reassembler_ok others' (r\<lparr>ra_ledger := led\<rparr>)"
  using assms
  by (simp add: reassembler_ok_def store_ok_def timers_link_def clock_link_def up_to_date_def expiry_tick_def effective_timeout_def)

lemma same_clock_ledger [simp]: "same_clock r (r'\<lparr>ra_ledger := led\<rparr>) = same_clock r r'" "same_clock (r\<lparr>ra_ledger := led\<rparr>) r' = same_clock r r'"
  by (simp_all add: same_clock_def)

definition credit_ok :: "Reassembler \<Rightarrow> FragmentKey \<Rightarrow> nat \<Rightarrow> PendingFragmentCredit \<Rightarrow> bool" where
  "credit_ok r key n c \<longleftrightarrow> c = \<lparr>cr_slot = \<lparr>lease_kind = Fragments, lease_amount = 1\<rparr>,
     cr_payload = \<lparr>lease_kind = FragmentBytes, lease_amount = n\<rparr>,
     cr_piece_metadata = \<lparr>lease_kind = MetadataBytes, lease_amount = PIECE_METADATA_BYTES\<rparr>,
     cr_assembly_metadata = (if fmlookup (ra_assemblies r) key = None
       then Some \<lparr>lease_kind = MetadataBytes, lease_amount = ASSEMBLY_METADATA_BYTES\<rparr> else None)\<rparr>"

lemma leases_of:
  "map (\<lambda>l. (lease_kind l, lease_amount l)) new = cs \<Longrightarrow> new = map (\<lambda>(k, a). \<lparr>lease_kind = k, lease_amount = a\<rparr>) cs"
  by (induction new arbitrary: cs) auto

lemma try_acquire_credit_cases:
  assumes "reassembler_ok others r"
  obtains (granted) c r' where "try_acquire_fragment_credit r n (fmlookup (ra_assemblies r) key = None) = (Ok c, r')"
      "reassembler_ok (mset (credit_leases c) + others) r'" "same_clock r r'" "ra_assemblies r' = ra_assemblies r" "credit_ok r' key n c"
    | (refused) e r' where "try_acquire_fragment_credit r n (fmlookup (ra_assemblies r) key = None) = (Err e, r')"
      "reassembler_ok others r'" "same_clock r r'" "ra_assemblies r' = ra_assemblies r"
proof -
  let ?new = "fmlookup (ra_assemblies r) key = None"
  let ?cs = "[(Fragments, 1), (FragmentBytes, n), (MetadataBytes, PIECE_METADATA_BYTES)] @
             (if ?new then [(MetadataBytes, ASSEMBLY_METADATA_BYTES)] else [])"
  have "ledger_ok (ra_ledger r) (mset [] + (held (ra_assemblies r) + others))"
    using assms by (simp add: reassembler_ok_def store_ok_def)
  then show thesis
  proof (cases rule: ledger.acquire_each_cases [where cs = ?cs])
    case (granted new led')
    have new: "new = map (\<lambda>(k, a). \<lparr>lease_kind = k, lease_amount = a\<rparr>) ?cs" using granted(3) by (rule leases_of)
    have cr: "mset (credit_leases (credit_of new)) = mset new"
      by (simp add: new credit_leases_def credit_of_def get_opt_def)
    have "ledger_ok led' (held (ra_assemblies r) + (mset (credit_leases (credit_of new)) + others))"
      using granted(2) by (simp add: cr ac_simps)
    then have "reassembler_ok (mset (credit_leases (credit_of new)) + others) (r\<lparr>ra_ledger := led'\<rparr>)"
      by (rule ok_ledger [OF assms])
    moreover have "credit_ok (r\<lparr>ra_ledger := led'\<rparr>) key n (credit_of new)"
      by (simp add: credit_ok_def new credit_of_def get_opt_def)
    ultimately show thesis using that(1) granted(1) by (simp add: try_acquire_fragment_credit_def Let_def)
  next
    case (refused e led')
    then show thesis using that(2) ok_ledger [OF assms refused(2)] by (simp add: try_acquire_fragment_credit_def Let_def)
  qed
qed

lemma smaller_trans: "smaller r s \<Longrightarrow> smaller s t \<Longrightarrow> smaller r t"
  by (simp add: smaller_def)

lemma smaller_frame [simp]:
  "ra_assemblies r' = ra_assemblies r \<Longrightarrow> smaller r r'"
  "smaller r (s\<lparr>ra_stats := x\<rparr>) = smaller r s" "smaller (r\<lparr>ra_stats := x\<rparr>) s = smaller r s"
  by (simp_all add: smaller_def)

lemma acquire_credit_ok:
  assumes "reassembler_ok others r"
  shows "\<exists>got r'. acquire_fragment_credit r key n = (got, r') \<and> same_clock r r' \<and> smaller r r' \<and>
    (case got of
       Ok c \<Rightarrow> reassembler_ok (mset (credit_leases c) + others) r' \<and> credit_ok r' key n c
     | Err e \<Rightarrow> reassembler_ok others r' \<and> ra_assemblies r' = fmempty
     | Panic \<Rightarrow> False)"
  using assms
proof (induction r key n rule: acquire_fragment_credit.induct)
  case (1 r key n)
  from "1.prems" show ?case
  proof (cases rule: try_acquire_credit_cases [where n = n and key = key])
    case (granted c r')
    then show ?thesis by (simp add: acquire_fragment_credit.simps [of r])
  next
    case (refused e r1)
    obtain b r2 where ev: "evict_oldest_assembly r1 = (b, r2)" by fastforce
    note o = evict_oldest_ok [OF refused(2), unfolded ev, simplified]
    show ?thesis
    proof (cases b)
      case False
      then have "acquire_fragment_credit r key n = (Err (FragBudget e), r2)"
        by (simp add: acquire_fragment_credit.simps [of r] refused(1) ev)
      moreover have "ra_assemblies r2 = fmempty"
        using False o(3,4) unfolding smaller_def by (intro fmap_ext) (metis fmempty_lookup not_Some_eq)
      moreover have "smaller r r2" using o(3) refused(4) by (simp add: smaller_def)
      ultimately show ?thesis using same_clock_trans [OF refused(3) o(2)] o(1) by simp
    next
      case True
      define r3 where "r3 = r2\<lparr>ra_stats := ra_stats r2\<lparr>fs_evicted := sat_add (fs_evicted (ra_stats r2)) 1\<rparr>\<rparr>"
      have e: "acquire_fragment_credit r key n = acquire_fragment_credit r3 key n"
        using True by (simp add: acquire_fragment_credit.simps [of r] refused(1) ev r3_def)
      have evT: "evict_oldest_assembly r1 = (True, r2)" using ev True by simp
      have ok: "reassembler_ok others r3" using o(1) by (simp add: r3_def)
      have c: "same_clock r r3" "smaller r r3"
        using same_clock_trans [OF refused(3) o(2)] o(3) refused(4) by (simp_all add: r3_def smaller_def)
      note ih = "1.IH" [OF refl refused(1) [symmetric] refl evT [symmetric] refl, folded r3_def, OF ok]
      then obtain got r' where "acquire_fragment_credit r3 key n = (got, r')" "same_clock r3 r'" "smaller r3 r'"
        "case got of
           Ok c \<Rightarrow> reassembler_ok (mset (credit_leases c) + others) r' \<and> credit_ok r' key n c
         | Err e \<Rightarrow> reassembler_ok others r' \<and> ra_assemblies r' = fmempty
         | Panic \<Rightarrow> False" by (elim exE conjE)
      moreover from this(2,3) have "same_clock r r'" "smaller r r'" using c same_clock_trans smaller_trans by blast+
      ultimately show ?thesis unfolding e by (intro exI conjI)
    qed
  qed
qed

section \<open>Eviction keys\<close>

lemma wadd_inj:
  assumes "i < u64_size" "j < u64_size" "wadd s i = wadd s j" shows "i = j"
proof -
  have *: "i = j" if "i \<le> j" "j < n" "(s + i) mod n = (s + j) mod n" for i j n :: nat
  proof -
    have "(s + j) mod n = (s + i) mod n \<longleftrightarrow> n dvd (s + j) - (s + i)"
      by (rule mod_eq_dvd_iff_nat) (use that(1) in simp)
    then have "n dvd j - i" using that(3) by simp
    then have "j - i = 0" using that(2) by (metis diff_le_self dvd_imp_le gr_zeroI le_less_trans not_le)
    then show ?thesis using that(1) by simp
  qed
  show ?thesis
  proof (rule linorder_le_cases [of i j])
    assume "i \<le> j" from *[OF this assms(2) assms(3) [unfolded wadd_def]] show ?thesis .
  next
    assume "j \<le> i" from *[OF this assms(1) assms(3) [unfolded wadd_def, symmetric]] show ?thesis by (rule sym)
  qed
qed

lemma wadd_Suc: "wadd (wadd s 1) k = wadd s (Suc k)"
proof -
  have "((s + 1) mod n + k) mod n = (s + Suc k) mod n" for n :: nat by (simp add: mod_add_left_eq)
  then show ?thesis unfolding wadd_def .
qed

lemma eviction_loop_spec:
  assumes "ra_serial r \<le> u64_max"
  shows "\<exists>s \<le> u64_max. snd (eviction_loop n r created) = r\<lparr>ra_serial := s\<rparr> \<and>
    (case fst (eviction_loop n r created) of
       Some key \<Rightarrow> fmlookup (ra_index r) key = None \<and> fst key = created
     | None \<Rightarrow> \<forall>k<n. fmlookup (ra_index r) (created, wadd (ra_serial r) k) \<noteq> None)"
  using assms
proof (induction n arbitrary: r)
  case 0
  have "r = r\<lparr>ra_serial := ra_serial r\<rparr>" by simp
  then show ?case using 0 by (intro exI [of _ "ra_serial r"]) simp
next
  case (Suc n)
  define r1 where "r1 = r\<lparr>ra_serial := wadd (ra_serial r) 1\<rparr>"
  have w: "wadd (ra_serial r) 0 = ra_serial r" using Suc.prems by (simp add: wadd_def)
  have b: "wadd (ra_serial r) 1 \<le> u64_max" by (simp add: wadd_def)
  show ?case
  proof (cases "fmlookup (ra_index r) (created, ra_serial r) = None")
    case True
    then show ?thesis using b by (intro exI [of _ "wadd (ra_serial r) 1"]) (simp add: Let_def)
  next
    case False
    have e: "eviction_loop (Suc n) r created = eviction_loop n r1 created" using False by (auto simp: r1_def Let_def)
    obtain s where s: "s \<le> u64_max" "snd (eviction_loop n r1 created) = r1\<lparr>ra_serial := s\<rparr>"
      "case fst (eviction_loop n r1 created) of
         Some key \<Rightarrow> fmlookup (ra_index r1) key = None \<and> fst key = created
       | None \<Rightarrow> \<forall>k<n. fmlookup (ra_index r1) (created, wadd (ra_serial r1) k) \<noteq> None"
      using Suc.IH [of r1] b by (auto simp: r1_def)
    have "fmlookup (ra_index r) (created, wadd (ra_serial r) k) \<noteq> None"
      if "fst (eviction_loop n r1 created) = None" "k < Suc n" for k
    proof (cases k)
      case 0 then show ?thesis using False w by simp
    next
      case (Suc j)
      have "fmlookup (ra_index r1) (created, wadd (ra_serial r1) j) \<noteq> None" using s(3) that Suc by simp
      then show ?thesis using wadd_Suc [of "ra_serial r" j] by (simp add: r1_def Suc)
    qed
    then show ?thesis using s unfolding e by (intro exI [of _ s]) (auto simp: r1_def split: option.splits)
  qed
qed

text \<open>Among one more serials than there are keys, one is free.\<close>

lemma next_eviction_key_ok:
  assumes "ra_serial r \<le> u64_max" "fcard (fmdom (ra_index r)) < u64_size"
  shows "\<exists>key s. next_eviction_key r created = (Ok key, r\<lparr>ra_serial := s\<rparr>) \<and> s \<le> u64_max \<and>
    fmlookup (ra_index r) key = None"
proof -
  let ?n = "Suc (fcard (fmdom (ra_index r)))"
  let ?f = "\<lambda>k. (created, wadd (ra_serial r) k)"
  obtain s where s: "s \<le> u64_max" "snd (eviction_loop ?n r created) = r\<lparr>ra_serial := s\<rparr>"
    "case fst (eviction_loop ?n r created) of
       Some key \<Rightarrow> fmlookup (ra_index r) key = None \<and> fst key = created
     | None \<Rightarrow> \<forall>k<?n. fmlookup (ra_index r) (?f k) \<noteq> None"
    using eviction_loop_spec [OF assms(1), of ?n created] by blast
  have "fst (eviction_loop ?n r created) \<noteq> None"
  proof
    assume "fst (eviction_loop ?n r created) = None"
    then have "\<forall>k<?n. fmlookup (ra_index r) (?f k) \<noteq> None" using s(3) by simp
    then have "?f ` {..<?n} \<subseteq> fset (fmdom (ra_index r))" by (auto simp: fmlookup_dom_iff)
    then have "card (?f ` {..<?n}) \<le> fcard (fmdom (ra_index r))" unfolding fcard.rep_eq by (intro card_mono) simp_all
    moreover have "inj_on ?f {..<?n}"
    proof (rule inj_onI)
      fix i j assume "i \<in> {..<?n}" "j \<in> {..<?n}" "?f i = ?f j"
      then show "i = j" using assms(2) by (intro wadd_inj [of i j "ra_serial r"]) simp_all
    qed
    ultimately show False by (simp add: card_image)
  qed
  then obtain key where k: "fst (eviction_loop ?n r created) = Some key" by blast
  then have "eviction_loop ?n r created = (Some key, r\<lparr>ra_serial := s\<rparr>)" using s(2) by (simp add: prod_eq_iff)
  then show ?thesis using s(1,3) k by (intro exI [of _ key] exI [of _ s]) (simp add: next_eviction_key_def del: eviction_loop.simps)
qed

section \<open>Bounds from the ledger\<close>

lemma charged_union [simp]: "charged (A + B) k = charged A k + charged B k"
  by (simp add: charged_def)

lemma charged_fmap_sum: "charged (fmap_sum f m) k = fmap_sum (\<lambda>v. charged (f v) k) m"
  unfolding fmap_sum_def using sum_comp_morphism [of "\<lambda>A. charged A k" "\<lambda>k. f (the (fmlookup m k))" "fset (fmdom m)"]
  by (simp add: comp_def)

lemma ledger_charge_bound: "ledger_ok led ls \<Longrightarrow> charged ls k \<le> usize_max"
  unfolding ledger_ok_def representable_def by (meson order_trans)

lemma assembly_charges:
  assumes "assembly_ok v a"
  shows "ASSEMBLY_METADATA_BYTES \<le> charged (mset (assembly_leases a)) MetadataBytes"
    "charged (mset (assembly_leases a)) Fragments = fcard (fmdom (as_pieces a))"
proof -
  have m: "as_metadata a = \<lparr>lease_kind = MetadataBytes, lease_amount = ASSEMBLY_METADATA_BYTES\<rparr>"
    and p: "\<And>i p. fmlookup (as_pieces a) i = Some p \<Longrightarrow> piece_ok i p" using assms by (simp_all add: assembly_ok_def)
  show "ASSEMBLY_METADATA_BYTES \<le> charged (mset (assembly_leases a)) MetadataBytes"
    by (simp add: mset_assembly_leases m)
  have "fmap_sum (\<lambda>p. charged (mset (piece_leases p)) Fragments) (as_pieces a) = (\<Sum>i\<in>fset (fmdom (as_pieces a)). 1)"
    unfolding fmap_sum_def
  proof (rule sum.cong [OF refl])
    fix i assume "i \<in> fset (fmdom (as_pieces a))"
    then obtain x where "fmlookup (as_pieces a) i = Some x" by (auto simp: fmlookup_dom_iff)
    then show "charged (mset (piece_leases (the (fmlookup (as_pieces a) i)))) Fragments = 1"
      using p by (auto simp: piece_ok_def piece_leases_def)
  qed
  then show "charged (mset (assembly_leases a)) Fragments = fcard (fmdom (as_pieces a))"
    by (simp add: mset_assembly_leases m charged_fmap_sum fcard.rep_eq)
qed

lemma assembly_count:
  assumes "store_ok others r"
  shows "fcard (fmdom (ra_assemblies r)) * ASSEMBLY_METADATA_BYTES \<le> usize_max"
proof -
  have "fcard (fmdom (ra_assemblies r)) * ASSEMBLY_METADATA_BYTES \<le>
      fmap_sum (\<lambda>a. charged (mset (assembly_leases a)) MetadataBytes) (ra_assemblies r)"
    using assms by (intro fmap_sum_bound) (auto simp: store_ok_def intro: assembly_charges)
  also have "\<dots> \<le> charged (held (ra_assemblies r) + others) MetadataBytes" by (simp add: charged_fmap_sum)
  also have "\<dots> \<le> usize_max" using assms by (intro ledger_charge_bound [of "ra_ledger r"]) (simp add: store_ok_def)
  finally show ?thesis .
qed

lemma index_count:
  assumes "index_ok m ix" shows "fcard (fmdom ix) \<le> fcard (fmdom m)"
proof -
  have i: "fmlookup ix e = Some key \<longleftrightarrow> (\<exists>a. fmlookup m key = Some a \<and> as_eviction a = e)" for e key
    using assms unfolding index_ok_def by blast
  have "inj_on (\<lambda>e. the (fmlookup ix e)) (fset (fmdom ix))"
    by (rule inj_onI) (metis fmlookup_dom_iff i option.sel)
  moreover have "(\<lambda>e. the (fmlookup ix e)) ` fset (fmdom ix) \<subseteq> fset (fmdom m)"
    using i by (force simp: fmlookup_dom_iff)
  ultimately show ?thesis unfolding fcard.rep_eq by (intro card_inj_on_le) simp_all
qed

lemma buffered_bound:
  assumes "store_ok others r"
  shows "fs_buffered (ra_stats r) + charged others Fragments \<le> usize_max"
proof -
  have "fs_buffered (ra_stats r) = fmap_sum (\<lambda>a. charged (mset (assembly_leases a)) Fragments) (ra_assemblies r)"
    using assms assembly_charges(2) unfolding store_ok_def fmap_sum_def by (metis (no_types, lifting) fmlookup_dom_iff option.sel sum.cong)
  then have "fs_buffered (ra_stats r) + charged others Fragments = charged (held (ra_assemblies r) + others) Fragments"
    by (simp add: charged_fmap_sum)
  also have "\<dots> \<le> usize_max" using assms by (intro ledger_charge_bound [of "ra_ledger r"]) (simp add: store_ok_def)
  finally show ?thesis .
qed

section \<open>Deadlines\<close>

lemma deadline_accepted:
  assumes "clock_link r" "up_to_date r" "next_id (ra_expiry r) < u64_max" "created \<le> ra_now r"
  shows "wheel_accepts (ra_expiry r) (sat_add created (effective_timeout r d))"
    "ra_now r < created + effective_timeout r d \<Longrightarrow> ra_now r < u64_max \<Longrightarrow>
      deadline_of (ra_expiry r) (sat_add created (effective_timeout r d)) =
        div_ceil (sat_add created (effective_timeout r d)) (ra_tick r)"
proof -
  let ?w = "ra_expiry r" and ?e = "effective_timeout r d" and ?t = "ra_tick r"
  have c: "tick_ms ?w = ?t" "10 \<le> ?t" "0 < ra_timeout r" "div_ceil (ra_timeout r) (2 ^ 32 - 2) \<le> ?t"
    using assms(1) by (simp_all add: clock_link_def FRAGMENT_TIMER_MIN_TICK_MS_def TIMER_WHEEL_SAFE_DELTA_TICKS_def)
  have t: "ra_timeout r \<le> ?t * (2 ^ 32 - 2)" using c(4) by (subst (asm) div_ceil_le_iff) simp_all
  have "ra_timeout r div max d 1 \<le> ra_timeout r" by (rule div_le_dividend)
  then have e: "?e \<le> ra_timeout r" using c(3) by (simp add: effective_timeout_def)
  have n: "ra_now r < (current_tick ?w + 1) * ?t"
  proof -
    have "ra_now r < (ra_now r div ?t + 1) * ?t" using c(2) dividend_less_div_times [of ?t "ra_now r"] by simp
    also have "\<dots> \<le> (current_tick ?w + 1) * ?t" using assms(2) by (intro mult_le_mono1) (simp add: up_to_date_def)
    finally show ?thesis .
  qed
  have "sat_add created ?e \<le> (current_tick ?w + (2 ^ 32 - 1)) * ?t"
  proof -
    have "sat_add created ?e \<le> ra_now r + ?t * (2 ^ 32 - 2)" using e t assms(4) by (simp add: sat_add_def)
    also have "\<dots> \<le> (current_tick ?w + 1) * ?t + (2 ^ 32 - 2) * ?t" using n by simp
    also have "\<dots> = (current_tick ?w + (2 ^ 32 - 1)) * ?t" by (simp add: algebra_simps)
    finally show ?thesis .
  qed
  then have "div_ceil (sat_add created ?e) ?t \<le> current_tick ?w + (2 ^ 32 - 1)" using c(2) by (subst div_ceil_le_iff) simp_all
  then show "wheel_accepts ?w (sat_add created ?e)"
    using assms(3) by (simp add: wheel_accepts_def deadline_of_def c(1))
  assume l: "ra_now r < created + ?e" "ra_now r < u64_max"
  have "\<not> div_ceil (sat_add created ?e) ?t \<le> current_tick ?w"
  proof
    assume "div_ceil (sat_add created ?e) ?t \<le> current_tick ?w"
    then have "sat_add created ?e \<le> ra_now r div ?t * ?t" using c(2) l(2) assms(2) by (simp add: div_ceil_le_iff up_to_date_def)
    also have "\<dots> \<le> ra_now r" by (rule div_times_less_eq_dividend)
    finally show False using l by (simp add: sat_add_def)
  qed
  then show "deadline_of ?w (sat_add created ?e) = div_ceil (sat_add created ?e) ?t"
    by (simp add: deadline_of_def c(1))
qed

lemma effective_timeout_pos: "0 < effective_timeout r d"
  by (simp add: effective_timeout_def)

lemma schedule_frame:
  assumes "wheel_good w" "wheel_accepts w deadline"
  obtains w' where "schedule w deadline v = (Ok (next_id w), w')" "wheel_good w'" "fmlookup (timers w) (next_id w) = None"
    "timers w' = fmupd (next_id w) (deadline_of w deadline, v) (timers w)" "tick_ms w' = tick_ms w"
    "current_tick w' = current_tick w" "next_id w' = next_id w + 1"
proof -
  have a: "wheel_inv w" "current_tick w < u64_max" "next_id w < u64_max" "deadline \<le> u64_max"
    "deadline_of w deadline < current_tick w + 2 ^ 32"
    using assms wheel_good_clock by (auto simp: wheel_good_def wheel_accepts_def)
  note s = schedule_eq [OF this, of v]
  obtain i w' where l: "schedule w deadline v = (Ok i, w')" "wheel_good w'" "fmlookup (timers w) i = None"
    using wheel.sched_law [OF assms, of v] by blast
  then show thesis using s by (intro that [of w']) simp_all
qed

end
