(* ===== verification/Reassembly_Steps.thy ===== *)
theory Reassembly_Steps
  imports Reassembly_Inv
begin

unbundle bit_operations_syntax

text \<open>
  The parts of \<open>ingest\<close> keep the invariant of the reassembler: opening an assembly, adding a piece, reading the header
  of a fragment and advancing the timer wheel.
\<close>

section \<open>Opening an assembly\<close>

lemma index_ok_upd:
  assumes "index_ok m ix" "fmlookup m key = None" "fmlookup ix e = None" "as_eviction a = e"
  shows "index_ok (fmupd key a m) (fmupd e key ix)"
  unfolding index_ok_def
proof (intro allI)
  fix e' k
  have i: "fmlookup ix x = Some y \<longleftrightarrow> (\<exists>b. fmlookup m y = Some b \<and> as_eviction b = x)" for x y
    using assms(1) unfolding index_ok_def by blast
  show "fmlookup (fmupd e key ix) e' = Some k \<longleftrightarrow> (\<exists>b. fmlookup (fmupd key a m) k = Some b \<and> as_eviction b = e')"
  proof (cases "k = key")
    case True
    then show ?thesis using assms(2,4) i [of e' key] by auto
  next
    case False
    then show ?thesis using assms(3) i [of e' k] by auto
  qed
qed

text \<open>The assembly a first fragment opens.\<close>

definition fresh_assembly :: "Assembly \<Rightarrow> u8 \<Rightarrow> nat \<Rightarrow> bool" where
  "fresh_assembly a protocol now \<longleftrightarrow> as_header a = None \<and> as_previous a = None \<and> as_protocol a = protocol \<and>
     as_pieces a = fmempty \<and> as_total a = None \<and> as_created a = now"

definition piece_credit :: "PendingFragmentCredit \<Rightarrow> BudgetLease list" where
  "piece_credit c = [cr_slot c, cr_payload c, cr_piece_metadata c]"

definition same_times :: "Reassembler \<Rightarrow> Reassembler \<Rightarrow> bool" where
  "same_times r r' \<longleftrightarrow> ra_timeout r' = ra_timeout r \<and> ra_now r' = ra_now r \<and> ra_divisor r' = ra_divisor r \<and> ra_tick r' = ra_tick r"

lemma same_clock_times: "same_clock r r' \<Longrightarrow> same_times r r'"
  by (simp add: same_clock_def same_times_def)

lemma same_times_trans: "same_times r s \<Longrightarrow> same_times s t \<Longrightarrow> same_times r t"
  by (simp add: same_times_def)

lemma open_assembly_ok:
  assumes ok: "reassembler_ok (mset (credit_leases c) + others) r" and c: "credit_ok r key n c"
    and id: "next_id (ra_expiry r) < u64_max"
  obtains r' a where "open_assembly r key protocol (ra_now r) c = (Ok (), r')"
    "reassembler_ok (mset (piece_credit c) + others) r'" "same_times r r'" "next_id (ra_expiry r') \<le> next_id (ra_expiry r) + 1"
    "ra_assemblies r' = fmupd key a (ra_assemblies r)"
    "fmlookup (ra_assemblies r) key = Some a \<or> fmlookup (ra_assemblies r) key = None \<and> fresh_assembly a protocol (ra_now r)"
proof (cases "fmlookup (ra_assemblies r) key")
  case (Some a)
  then have "mset (piece_credit c) = mset (credit_leases c)" using c by (simp add: credit_ok_def credit_leases_def piece_credit_def)
  moreover have "fmupd key a (ra_assemblies r) = ra_assemblies r" using Some by (intro fmap_ext) auto
  ultimately show thesis using Some ok by (intro that [of r a]) (simp_all add: open_assembly_def same_times_def)
next
  case None
  let ?w = "ra_expiry r" and ?e = "effective_timeout r (ra_divisor r)" and ?now = "ra_now r"
  define md where "md = \<lparr>lease_kind = MetadataBytes, lease_amount = ASSEMBLY_METADATA_BYTES\<rparr>"
  have cm: "cr_assembly_metadata c = Some md" using c None by (simp add: credit_ok_def md_def)
  have l: "clock_link r" "up_to_date r" "store_ok (mset (credit_leases c) + others) r" "timers_link {} r"
    using ok by (simp_all add: reassembler_ok_def)
  have w: "wheel_good ?w" using l(1) by (simp add: clock_link_def)
  note acc = deadline_accepted [OF l(1,2) id order_refl, of "ra_divisor r"]
  obtain w' where s: "schedule ?w (sat_add ?now ?e) key = (Ok (next_id ?w), w')" "wheel_good w'" "fmlookup (timers ?w) (next_id ?w) = None"
    "timers w' = fmupd (next_id ?w) (deadline_of ?w (sat_add ?now ?e), key) (timers ?w)" "tick_ms w' = tick_ms ?w"
    "current_tick w' = current_tick ?w" "next_id w' = next_id ?w + 1"
    using w acc(1) by (rule schedule_frame)
  define r1 where "r1 = r\<lparr>ra_expiry := w'\<rparr>"
  have "fcard (fmdom (ra_index r)) \<le> fcard (fmdom (ra_assemblies r))"
    using l(3) by (intro index_count) (simp add: store_ok_def)
  then have cnt: "fcard (fmdom (ra_index r1)) < u64_size"
    using assembly_count [OF l(3)] by (simp add: r1_def ASSEMBLY_METADATA_BYTES_def)
  obtain ek sn where k: "next_eviction_key r1 ?now = (Ok ek :: (FragmentError, nat \<times> nat) res, r1\<lparr>ra_serial := sn\<rparr>)" "sn \<le> u64_max" "fmlookup (ra_index r1) ek = None"
    using next_eviction_key_ok [OF _ cnt, of ?now] l(3) by (auto simp: store_ok_def r1_def)
  define a where "a = \<lparr>as_header = None, as_previous = None, as_protocol = protocol, as_pieces = fmempty, as_total = None,
     as_created = ?now, as_timer = next_id ?w, as_eviction = ek, as_metadata = md\<rparr>"
  define m where "m = fmupd key a (ra_assemblies r)"
  define r' where "r' = r1\<lparr>ra_serial := sn, ra_assemblies := m, ra_index := fmupd ek key (ra_index r),
     ra_stats := ra_stats r\<lparr>fs_active := fcard (fmdom m)\<rparr>\<rparr>"
  have out: "open_assembly r key protocol ?now c = (Ok (), r')"
    using None cm s(1) k(1) by (simp add: open_assembly_def Let_def then_do_def r1_def r'_def a_def m_def)
  have la: "mset (assembly_leases a) = {#md#}" by (simp add: mset_assembly_leases a_def)
  have af: "as_created a = ?now" "as_pieces a = fmempty" "as_timer a = next_id ?w" by (simp_all add: a_def)
  have aok: "assembly_ok (fk_version key) a" by (simp add: assembly_ok_def a_def md_def)
  have cl: "mset (credit_leases c) = {#md#} + mset (piece_credit c)" by (simp add: credit_leases_def piece_credit_def cm)
  have ix: "index_ok m (fmupd ek key (ra_index r))"
    unfolding m_def using l(3) None k(3) by (intro index_ok_upd) (simp_all add: store_ok_def r1_def a_def)
  have "store_ok (mset (piece_credit c) + others) r'"
    using l(3) ix aok k(2) None
    by (auto simp: store_ok_def r'_def r1_def m_def fmap_sum_upd la cl af ac_simps split: if_splits)
  moreover have "timers_link {} r'"
  proof -
    have et: "expiry_tick r' = expiry_tick r" by (rule expiry_tick_cong) (simp_all add: r'_def r1_def)
    have d: "deadline_of ?w (sat_add ?now ?e) = expiry_tick r ?now" if "?now < u64_max"
      using acc(2) that effective_timeout_pos [of r "ra_divisor r"] by (simp add: expiry_tick_def)
    show ?thesis
      using l(4) s(3) None d unfolding timers_link_def et
      by (auto simp: r'_def r1_def m_def s(4) a_def split: if_splits) (metis option.distinct(1))+
  qed
  moreover have "clock_link r'" "up_to_date r'"
    using l(1,2) s(2,5,6) by (auto simp: clock_link_def up_to_date_def r'_def r1_def now_ms_def)
  ultimately have "reassembler_ok (mset (piece_credit c) + others) r'" by (simp add: reassembler_ok_def)
  then show thesis using out None s(7)
    by (intro that [of r' a]) (simp_all add: r'_def r1_def m_def same_times_def fresh_assembly_def a_def)
qed

section \<open>Changing an assembly\<close>

lemma update_assembly_ok:
  assumes "reassembler_ok (extra + others) r" "fmlookup (ra_assemblies r) key = Some a" "assembly_ok (fk_version key) a'"
    "as_timer a' = as_timer a" "as_eviction a' = as_eviction a" "as_created a' = as_created a"
    "mset (assembly_leases a') = mset (assembly_leases a) + extra"
    "fcard (fmdom (as_pieces a')) = fcard (fmdom (as_pieces a)) + n" "buffered = fs_buffered (ra_stats r) + n"
  shows "reassembler_ok others (r\<lparr>ra_assemblies := fmupd key a' (ra_assemblies r),
    ra_stats := ra_stats r\<lparr>fs_buffered := buffered\<rparr>\<rparr>)" (is "reassembler_ok others ?r")
proof -
  have k: "fset (fmdom (fmupd key a' (ra_assemblies r))) = fset (fmdom (ra_assemblies r))"
    using fmdomI [OF assms(2)] by auto
  have ix: "index_ok (fmupd key a' (ra_assemblies r)) (ra_index r)"
    unfolding index_ok_def
  proof (intro allI)
    fix e y
    have "fmlookup (ra_index r) e = Some y \<longleftrightarrow> (\<exists>b. fmlookup (ra_assemblies r) y = Some b \<and> as_eviction b = e)"
      using assms(1) unfolding reassembler_ok_def store_ok_def index_ok_def by blast
    then show "fmlookup (ra_index r) e = Some y \<longleftrightarrow> (\<exists>b. fmlookup (fmupd key a' (ra_assemblies r)) y = Some b \<and> as_eviction b = e)"
      using assms(2,5) by auto
  qed
  have "store_ok others ?r"
    using assms(1,3,6-9) ix k fmap_sum_drop [OF assms(2), of "\<lambda>a. mset (assembly_leases a)"] assms(2)
      fmap_sum_drop [OF assms(2), of "\<lambda>a. fcard (fmdom (as_pieces a))"]
    by (auto simp: reassembler_ok_def store_ok_def fmap_sum_upd ac_simps fcard.rep_eq split: if_splits)
  moreover have "timers_link {} ?r"
  proof -
    have et: "expiry_tick ?r = expiry_tick r" by (rule expiry_tick_cong) simp_all
    show ?thesis using assms(1,2,4,6) unfolding reassembler_ok_def timers_link_def et
      by (auto split: if_splits) (metis option.inject)+
  qed
  moreover have "clock_link ?r" "up_to_date ?r" using assms(1) by (simp_all add: reassembler_ok_def clock_link_def up_to_date_def)
  ultimately show ?thesis by (simp add: reassembler_ok_def)
qed

section \<open>Adding a piece\<close>

definition grown :: "Assembly \<Rightarrow> FragmentInfo \<Rightarrow> bytes \<Rightarrow> nat \<Rightarrow> bytes \<Rightarrow> nat option \<Rightarrow> PendingFragmentCredit \<Rightarrow> Assembly" where
  "grown a fragment payload end header previous c =
     (let a = (if offset_bytes fragment = 0 then a\<lparr>as_header := Some header, as_previous := previous\<rparr> else a);
          a = (if \<not> more_fragments fragment then a\<lparr>as_total := Some end\<rparr> else a);
          piece = \<lparr>piece_bytes = payload, piece_slot = cr_slot c, piece_payload = cr_payload c,
                   piece_metadata = cr_piece_metadata c\<rparr>
      in a\<lparr>as_pieces := fmupd (unat (offset_bytes fragment)) piece (as_pieces a)\<rparr>)"

text \<open>The fragment neither overlaps the pieces of the assembly nor exceeds its bounds.\<close>

definition goes_with :: "Assembly \<Rightarrow> FragmentInfo \<Rightarrow> nat \<Rightarrow> bool" where
  "goes_with a fragment end \<longleftrightarrow>
     (\<forall>i p. fmlookup (as_pieces a) i = Some p \<longrightarrow>
        \<not> (unat (offset_bytes fragment) < i + length (piece_bytes p) \<and> i < end) \<and>
        (\<not> more_fragments fragment \<longrightarrow> i + length (piece_bytes p) \<le> end)) \<and>
     (\<forall>t. as_total a = Some t \<longrightarrow> end \<le> t)"

lemma grown_frame [simp]:
  "as_timer (grown a f p e h v c) = as_timer a" "as_eviction (grown a f p e h v c) = as_eviction a"
  "as_created (grown a f p e h v c) = as_created a" "as_metadata (grown a f p e h v c) = as_metadata a"
  "as_protocol (grown a f p e h v c) = as_protocol a"
  "as_header (grown a f p e h v c) = (if offset_bytes f = 0 then Some h else as_header a)"
  "as_previous (grown a f p e h v c) = (if offset_bytes f = 0 then v else as_previous a)"
  "as_total (grown a f p e h v c) = (if more_fragments f then as_total a else Some e)"
  "as_pieces (grown a f p e h v c) = fmupd (unat (offset_bytes f))
     \<lparr>piece_bytes = p, piece_slot = cr_slot c, piece_payload = cr_payload c, piece_metadata = cr_piece_metadata c\<rparr> (as_pieces a)"
  by (simp_all add: grown_def Let_def)

lemma new_offset:
  assumes "assembly_ok v a" "goes_with a f end" "end = unat (offset_bytes f) + length payload" "payload \<noteq> []"
  shows "fmlookup (as_pieces a) (unat (offset_bytes f)) = None"
proof (rule ccontr)
  assume "fmlookup (as_pieces a) (unat (offset_bytes f)) \<noteq> None"
  then obtain p where p: "fmlookup (as_pieces a) (unat (offset_bytes f)) = Some p" by blast
  then have "piece_bytes p \<noteq> []" using assms(1) by (auto simp: assembly_ok_def piece_ok_def)
  moreover have "\<not> (unat (offset_bytes f) < unat (offset_bytes f) + length (piece_bytes p) \<and> unat (offset_bytes f) < end)"
    using p assms(2) unfolding goes_with_def by blast
  ultimately show False using assms(3,4) by simp
qed

lemma grown_ok:
  assumes "assembly_ok v a" "goes_with a f end" "end = unat (offset_bytes f) + length payload" "payload \<noteq> []"
    "end \<le> MAX_REASSEMBLED_BYTES" "credit_ok r key (length payload) c" "offset_bytes f = 0 \<longrightarrow> header_ok v header previous"
    "\<not> more_fragments f \<longrightarrow> as_total a \<in> {None, Some end}"
  shows "assembly_ok v (grown a f payload end header previous c)"
    "mset (assembly_leases (grown a f payload end header previous c)) = mset (assembly_leases a) + mset (piece_credit c)"
    "fcard (fmdom (as_pieces (grown a f payload end header previous c))) = fcard (fmdom (as_pieces a)) + 1"
proof -
  let ?off = "unat (offset_bytes f)" and ?g = "grown a f payload end header previous c"
  let ?p = "\<lparr>piece_bytes = payload, piece_slot = cr_slot c, piece_payload = cr_payload c, piece_metadata = cr_piece_metadata c\<rparr>"
  note new = new_offset [OF assms(1-4)]
  have pk: "piece_ok ?off ?p" using assms(3-6) by (simp add: piece_ok_def credit_ok_def)
  have g: "\<not> (?off < i + length (piece_bytes p) \<and> i < end)" "\<not> more_fragments f \<longrightarrow> i + length (piece_bytes p) \<le> end"
    if "fmlookup (as_pieces a) i = Some p" for i p using assms(2) that unfolding goes_with_def by blast+
  have ok: "piece_ok i p" if "fmlookup (as_pieces a) i = Some p" for i p using assms(1) that unfolding assembly_ok_def by blast
  have dis: "i + length (piece_bytes p) \<le> j" if "fmlookup (as_pieces a) i = Some p" "fmlookup (as_pieces a) j = Some q" "i < j" for i p j q
    using assms(1) that unfolding assembly_ok_def by blast
  have tot: "i + length (piece_bytes p) \<le> t" if "as_total a = Some t" "fmlookup (as_pieces a) i = Some p" for t i p
    using assms(1) that unfolding assembly_ok_def by blast
  have lo: "end \<le> j" if "fmlookup (as_pieces a) j = Some q" "?off < j" for j q
    using g(1) [OF that(1)] that(2) by (meson less_or_eq_imp_le not_le order_less_le_trans trans_less_add1)
  have hi: "i + length (piece_bytes p) \<le> ?off" if "fmlookup (as_pieces a) i = Some p" "i < ?off" for i p
    using g(1) [OF that(1)] that(2) assms(3,4) by auto
  have 1: "\<forall>i p. fmlookup (as_pieces ?g) i = Some p \<longrightarrow> piece_ok i p" using pk ok by auto
  have 2: "\<forall>i p j q. fmlookup (as_pieces ?g) i = Some p \<longrightarrow> fmlookup (as_pieces ?g) j = Some q \<longrightarrow> i < j \<longrightarrow>
        i + length (piece_bytes p) \<le> j" using dis lo hi assms(3) by (auto split: if_splits)
  have 3: "\<forall>t i p. as_total ?g = Some t \<longrightarrow> fmlookup (as_pieces ?g) i = Some p \<longrightarrow> i + length (piece_bytes p) \<le> t"
    using tot g(2) assms(2,3) by (auto simp: goes_with_def split: if_splits)
  have 4: "\<forall>h. as_header ?g = Some h \<longrightarrow> header_ok v h (as_previous ?g)" using assms(1,7) by (auto simp: assembly_ok_def)
  show "assembly_ok v ?g" using 1 2 3 4 assms(1) unfolding assembly_ok_def by auto
  show "mset (assembly_leases ?g) = mset (assembly_leases a) + mset (piece_credit c)"
    using new by (simp add: mset_assembly_leases fmap_sum_upd piece_leases_def piece_credit_def)
  have "?off \<notin> fset (fmdom (as_pieces a))" using new by (simp add: fmdom_notI)
  then show "fcard (fmdom (as_pieces ?g)) = fcard (fmdom (as_pieces a)) + 1" by (simp add: fcard.rep_eq)
qed

lemma copy_at_frame: "copy_at xs a b ys = Ok zs \<Longrightarrow> 0 < a \<Longrightarrow> length zs = length xs \<and> (xs \<noteq> [] \<longrightarrow> zs ! 0 = xs ! 0)"
  by (auto simp: copy_at_def nth_append split: if_splits)

lemma copy_at_Panic_iff: "copy_at xs a b ys = Panic \<longleftrightarrow> \<not> (a \<le> b \<and> b \<le> length xs \<and> length ys = b - a)"
  by (simp add: copy_at_def)

lemma store_Panic_iff: "store xs i v = Panic \<longleftrightarrow> length xs \<le> i"
  by (auto simp: store_def)

lemma rebuild_no_panic:
  assumes "assembly_ok v a" shows "rebuild a v \<noteq> Panic"
proof (cases "as_header a")
  case None then show ?thesis by (simp add: rebuild_def)
next
  case (Some h)
  have h: "header_ok v h (as_previous a)" using assms Some by (simp add: assembly_ok_def)
  show ?thesis
  proof (cases v)
    case IpV4
    have l: "20 \<le> length h" "unat (h ! 0 AND 0x0f) * 4 = length h" "h \<noteq> []" using h IpV4 by (auto simp: header_ok_def)
    show ?thesis using l
      by (auto simp: rebuild_def Some IpV4 panic_iffs copy_at_Panic_iff idx_Ok_iff nth_append dest!: copy_at_frame)
  next
    case IpV6
    then show ?thesis using h by (auto simp: rebuild_def Some header_ok_def panic_iffs copy_at_Panic_iff store_Panic_iff dest!: length_store)
  qed
qed

lemma ok_drop_leases:
  assumes "reassembler_ok (mset ls + others) r" shows "reassembler_ok others (drop_leases r ls)"
  using store_ok_drop_leases [of ls others r] assms
  by (simp add: reassembler_ok_def timers_link_def clock_link_def up_to_date_def expiry_tick_def effective_timeout_def)

lemma same_clock_drop [simp]: "same_clock r (drop_leases r' ls) = same_clock r r'"
  by (simp add: same_clock_def)

lemma discard_assembly_eq:
  "fmlookup (ra_assemblies r) key = Some a \<Longrightarrow>
   discard_assembly r key = (True, drop_leases (snd (remove_assembly r key)) (assembly_leases a))"
  by (simp add: discard_assembly_def remove_assembly_eq)

lemma add_piece_cases:
  assumes ok: "reassembler_ok (mset (piece_credit c) + others) r" and a: "fmlookup (ra_assemblies r) key = Some a"
    and f: "goes_with a f end" "end = unat (offset_bytes f) + length payload" "payload \<noteq> []" "end \<le> MAX_REASSEMBLED_BYTES"
    and c: "credit_ok r0 key (length payload) c" and h: "offset_bytes f = 0 \<longrightarrow> header_ok (fk_version key) header previous"
  obtains
    (conflict) r' where "\<not> more_fragments f" "as_total a \<notin> {None, Some end}"
      "add_piece r key f payload end header previous c = (Err (FragMalformed ''conflicting final fragment lengths''), r')"
      "reassembler_ok others r'" "same_clock r r'" "ra_assemblies r' = fmdrop key (ra_assemblies r)"
  | (waiting) r' where "\<not> is_complete (grown a f payload end header previous c)"
      "more_fragments f \<or> as_total a \<in> {None, Some end}"
      "add_piece r key f payload end header previous c = (Ok None, r')" "reassembler_ok others r'" "same_clock r r'"
      "ra_assemblies r' = fmupd key (grown a f payload end header previous c) (ra_assemblies r)"
  | (complete) r' where "is_complete (grown a f payload end header previous c)"
      "more_fragments f \<or> as_total a \<in> {None, Some end}"
      "add_piece r key f payload end header previous c =
        (and_then (rebuild (grown a f payload end header previous c) (fk_version key)) (\<lambda>packet. Ok (Some packet)), r')"
      "reassembler_ok others r'" "same_clock r r'" "ra_assemblies r' = fmdrop key (ra_assemblies r)"
proof (cases "\<not> more_fragments f \<and> as_total a \<notin> {None, Some end}")
  case True
  define a' where "a' = (if offset_bytes f = 0 then a\<lparr>as_header := Some header, as_previous := previous\<rparr> else a)"
  define r1 where "r1 = r\<lparr>ra_assemblies := fmupd key a' (ra_assemblies r)\<rparr>"
  have t: "as_total a' = as_total a" by (simp add: a'_def)
  have aok: "assembly_ok (fk_version key) a" using ok a by (simp add: reassembler_ok_def store_ok_def)
  have a'ok: "assembly_ok (fk_version key) a'" using aok h by (auto simp: a'_def assembly_ok_def)
  have "reassembler_ok (mset (piece_credit c) + others) (r\<lparr>ra_assemblies := fmupd key a' (ra_assemblies r),
      ra_stats := ra_stats r\<lparr>fs_buffered := fs_buffered (ra_stats r)\<rparr>\<rparr>)"
    by (rule update_assembly_ok [where a = a and extra = "{#}" and n = 0]) (use ok a a'ok in \<open>simp_all add: a'_def mset_assembly_leases\<close>)
  then have ok1: "reassembler_ok (mset (piece_credit c) + others) r1" by (simp add: r1_def)
  note d = discard_assembly_ok [OF ok1, of key]
  let ?r' = "drop_leases (snd (discard_assembly r1 key)) (piece_credit c)"
  have e: "add_piece r key f payload end header previous c = (Err (FragMalformed ''conflicting final fragment lengths''), ?r')"
    using True a by (auto simp: add_piece_def Let_def a'_def piece_credit_def r1_def)
  have "fmdrop key (fmupd key a' (ra_assemblies r)) = fmdrop key (ra_assemblies r)" by (rule fmap_ext) simp
  then show thesis using True d ok_drop_leases [OF d(1)]
    by (intro conflict [OF _ _ e]) (simp_all add: r1_def same_clock_def)
next
  case False
  let ?g = "grown a f payload end header previous c"
  define r1 where "r1 = r\<lparr>ra_assemblies := fmupd key ?g (ra_assemblies r),
      ra_stats := ra_stats r\<lparr>fs_buffered := sat_add (fs_buffered (ra_stats r)) 1\<rparr>\<rparr>"
  have aok: "assembly_ok (fk_version key) a" using ok a by (simp add: reassembler_ok_def store_ok_def)
  have nt: "\<not> more_fragments f \<longrightarrow> as_total a \<in> {None, Some end}" using False by blast
  note g = grown_ok [OF aok f(1-4) c h nt]
  have "fs_buffered (ra_stats r) + charged (mset (piece_credit c) + others) Fragments \<le> usize_max"
    using ok by (intro buffered_bound) (simp add: reassembler_ok_def)
  then have "sat_add (fs_buffered (ra_stats r)) 1 = fs_buffered (ra_stats r) + 1"
    using c by (simp add: piece_credit_def credit_ok_def sat_add_def)
  then have ok1: "reassembler_ok others r1"
    unfolding r1_def using ok a g by (intro update_assembly_ok [where a = a and extra = "mset (piece_credit c)" and n = 1]) simp_all
  have l1: "fmlookup (ra_assemblies r1) key = Some ?g" by (simp add: r1_def)
  have c1: "same_clock r r1" by (simp add: r1_def same_clock_def)
  have d1: "fmdrop key (ra_assemblies r1) = fmdrop key (ra_assemblies r)" by (rule fmap_ext) (simp add: r1_def)
  have e: "add_piece r key f payload end header previous c =
      (if \<not> is_complete ?g then (Ok None, r1)
       else case rebuild ?g (fk_version key) of
         Ok packet \<Rightarrow> (Ok (Some packet), (snd (discard_assembly r1 key))\<lparr>ra_stats := ra_stats (snd (discard_assembly r1 key))
           \<lparr>fs_completed := sat_add (fs_completed (ra_stats (snd (discard_assembly r1 key)))) 1\<rparr>\<rparr>)
       | Err e \<Rightarrow> (Err e, snd (discard_assembly r1 key)) | Panic \<Rightarrow> (Panic, snd (discard_assembly r1 key)))"
  proof -
    have x: "\<not> (\<not> more_fragments f \<and> (case as_total a of None \<Rightarrow> False | Some tot \<Rightarrow> tot \<noteq> end))"
      using False by (auto split: option.splits)
    have "add_piece r key f payload end header previous c =
      (if \<not> is_complete ?g then (Ok None, r1)
       else case remove_assembly r1 key of
         (None, r) \<Rightarrow> (Err (FragMalformed ''complete assembly disappeared''), r)
       | (Some a, r) \<Rightarrow>
           let r = drop_leases r (assembly_leases a) in
           case rebuild a (fk_version key) of
             Ok packet \<Rightarrow> (Ok (Some packet), r\<lparr>ra_stats := ra_stats r\<lparr>fs_completed := sat_add (fs_completed (ra_stats r)) 1\<rparr>\<rparr>)
           | Err e \<Rightarrow> (Err e, r)
           | Panic \<Rightarrow> (Panic, r))"
      unfolding r1_def grown_def add_piece_def Let_def a option.case
      using x by (cases "offset_bytes f = 0"; cases "more_fragments f") simp_all
    then show ?thesis unfolding discard_assembly_eq [OF l1] by (simp add: remove_assembly_eq [OF l1] Let_def split: res.split)
  qed
  note d = discard_assembly_ok [OF ok1, of key]
  show thesis
  proof (cases "is_complete ?g")
    case False
    then show thesis using e ok1 c1 nt by (intro waiting [of r1]) (auto simp: r1_def)
  next
    case True
    show thesis
    proof (cases "rebuild ?g (fk_version key)")
      case (Ok packet)
      define s where "s = snd (discard_assembly r1 key)"
      have ap: "add_piece r key f payload end header previous c =
          (Ok (Some packet), s\<lparr>ra_stats := ra_stats s\<lparr>fs_completed := sat_add (fs_completed (ra_stats s)) 1\<rparr>\<rparr>)"
        using e True Ok by (simp add: s_def)
      show thesis using ap Ok True d same_clock_trans [OF c1 d(2)] nt d1
        by (intro complete [of "s\<lparr>ra_stats := ra_stats s\<lparr>fs_completed := sat_add (fs_completed (ra_stats s)) 1\<rparr>\<rparr>"]) (auto simp: s_def)
    next
      case (Err x)
      then show thesis using e True d same_clock_trans [OF c1 d(2)] nt d1 by (intro complete [of "snd (discard_assembly r1 key)"]) auto
    next
      case Panic
      then show thesis using rebuild_no_panic [OF g(1)] by simp
    qed
  qed
qed

section \<open>The headers a parsed fragment has\<close>

lemma header_loop_ok:
  assumes "ipv6_extensions n packet enforce tlen s d hop nh previous offset None None = Ok ip" "ip_fragment ip \<noteq> None"
    "tlen \<le> length packet" "40 \<le> offset" "previous < offset"
  shows "\<exists>h k protocol. ipv6_header_loop n packet nh offset previous = Ok (h, Some k, protocol) \<and> 40 \<le> length h \<and> k < length h"
  using assms
proof (induction n arbitrary: nh previous offset)
  case (Suc n)
  obtain step where st: "ipv6_extension packet enforce tlen s d hop nh previous offset None None = Ok step"
    using Suc.prems(1) by (auto simp: and_then_Ok_iff)
  show ?case
  proof (cases "nh = 44")
    case True
    then have "offset + 8 \<le> length packet" using st by (auto simp: ipv6_extension_def and_then_Ok_iff dest!: require_Ok)
    then show ?thesis using True Suc.prems(4,5) by (simp add: slice_def idx_def)
  next
    case False
    show ?thesis
    proof (cases "nh \<in> {0, 43, 60, 51}")
      case True
      let ?len = "if nh = 51 then (unat (packet ! (offset + 1)) + 2) * 4 else (unat (packet ! (offset + 1)) + 1) * 8"
      have l: "offset + 1 < length packet" "offset + ?len \<le> length packet" "step = Inr (?len, None, None)"
        using st True False by (auto simp: ipv6_extension_def and_then_Ok_iff idx_Ok_iff Let_def split: if_splits dest!: require_Ok)
      have "ipv6_extensions n packet enforce tlen s d hop (packet ! offset) offset (offset + ?len) None None = Ok ip"
        using Suc.prems(1) st l(1) unfolding ipv6_extensions.simps st and_then.simps l(3) by (simp add: idx_def)
      then have "\<exists>h k protocol. ipv6_header_loop n packet (packet ! offset) (offset + ?len) offset = Ok (h, Some k, protocol) \<and> 40 \<le> length h \<and> k < length h"
        using Suc.prems(2-4) by (intro Suc.IH) simp_all
      moreover have "ipv6_header_loop (Suc n) packet nh offset previous = ipv6_header_loop n packet (packet ! offset) (offset + ?len) offset"
      proof -
        have x: "idx packet (offset + 1) = (Ok (packet ! (offset + 1)) :: (FragmentError, u8) res)"
          "idx packet offset = (Ok (packet ! offset) :: (FragmentError, u8) res)" using l(1) by (simp_all add: idx_def)
        have y: "\<not> offset + ?len > length packet" using l(2) by (simp only: not_less)
        show ?thesis unfolding ipv6_header_loop.simps if_not_P [OF False] if_P [OF True] x and_then.simps Let_def if_not_P [OF y] ..
      qed
      ultimately show ?thesis by simp
    next
      case other: False
      then have "\<exists>p. step = Inl p \<and> ip_fragment p = None"
        using st False by (auto simp: ipv6_extension_def and_then_Ok_iff split: if_splits)
      then have "ip_fragment ip = None" using Suc.prems(1) st by auto
      then show ?thesis using Suc.prems(2) by simp
    qed
  qed
qed simp

lemma parse_ipv6_lengths: "parse_ipv6 packet enforce = Ok ip \<Longrightarrow> \<exists>tlen s d hop.
  tlen \<le> length packet \<and> 40 \<le> length packet \<and> ipv6_extensions 8 packet enforce tlen s d hop (packet ! 6) 6 40 None None = Ok ip"
  by (auto simp: parse_ipv6_def and_then_Ok_iff idx_Ok_iff not_less simp del: ipv6_extensions.simps split: if_splits)

lemma fragment_header_ok:
  assumes "parse_ip_packet le packet True = Ok ip" "ip_fragment ip \<noteq> None"
  obtains h previous protocol where "fragment_header packet (ip_version ip) = Ok (h, previous, protocol)" "header_ok (ip_version ip) h previous"
proof -
  have ne: "packet \<noteq> []" using assms(1) by (auto simp: parse_ip_packet_def get_opt_def)
  show thesis
  proof (cases "ip_version ip")
    case IpV4
    have v4: "parse_ipv4 le packet True = Ok ip"
      using assms IpV4 parse_ipv6_parsed_ok(2) [of packet True ip] ne
      by (auto simp: parse_ip_packet_def get_opt_def Let_def split: if_splits)
    let ?hl = "unat (packet ! 0 AND 15) * 4"
    have b: "20 \<le> ?hl" "?hl \<le> length packet" using parse_ipv4_OkD [OF v4] by linarith+
    have "fragment_header packet IpV4 = Ok (take ?hl packet, None, packet ! 9)"
      using b ne by (simp add: fragment_header_def idx_def slice_def)
    moreover have "header_ok IpV4 (take ?hl packet) None" using b by (auto simp: header_ok_def)
    ultimately show thesis using that IpV4 by simp
  next
    case IpV6
    have v6: "parse_ipv6 packet True = Ok ip"
      using assms IpV6 parse_ipv4_parsed_ok(2) [of le packet True ip] ne
      by (auto simp: parse_ip_packet_def get_opt_def Let_def split: if_splits)
    then obtain tlen s d hop where e: "tlen \<le> length packet" "40 \<le> length packet"
      "ipv6_extensions 8 packet True tlen s d hop (packet ! 6) 6 40 None None = Ok ip"
      using parse_ipv6_lengths by blast
    obtain h k protocol where "ipv6_header_loop 8 packet (packet ! 6) 40 6 = Ok (h, Some k, protocol)" "40 \<le> length h" "k < length h"
      using header_loop_ok [OF e(3) assms(2) e(1)] by auto
    then show thesis using that [of h "Some k" protocol] IpV6 e(2)
      by (simp add: fragment_header_def ipv6_fragment_header_def idx_def header_ok_def del: ipv6_header_loop.simps)
  qed
qed

section \<open>Time\<close>

lemma timers_link_later:
  assumes "timers_link fired r" "ra_now r \<le> now"
  shows "timers_link fired (r\<lparr>ra_now := now\<rparr>)"
proof -
  have "expiry_tick (r\<lparr>ra_now := now\<rparr>) = expiry_tick r" by (rule expiry_tick_cong) simp_all
  moreover have "ra_now r < u64_max" if "now < u64_max" using that assms(2) by simp
  ultimately show ?thesis using assms(1) unfolding timers_link_def by simp blast
qed

text \<open>Advancing the wheel leaves the timers of the assemblies that are not due.\<close>

lemma advance_wheel_ok:
  assumes "clock_link r" "timers_link {} r" "store_ok others r" "ra_now r \<le> now" "now \<le> u64_max"
  obtains due r' where "advance_wheel (r\<lparr>ra_now := now\<rparr>) now = (Ok due, r')" "clock_link r'" "up_to_date r'"
    "timers_link (set due) r'" "store_ok others r'" "ra_assemblies r' = ra_assemblies r" "ra_now r' = now"
    "ra_timeout r' = ra_timeout r" "ra_divisor r' = ra_divisor r" "ra_tick r' = ra_tick r" "next_id (ra_expiry r') = next_id (ra_expiry r)"
    "\<And>key a. now < u64_max \<Longrightarrow> fmlookup (ra_assemblies r) key = Some a \<Longrightarrow>
       key \<in> set due \<longleftrightarrow> expiry_tick r (as_created a) \<le> now div ra_tick r"
proof -
  let ?w = "ra_expiry r" and ?t = "target_tick (ra_expiry r) now"
  have w: "wheel_good ?w" "tick_ms ?w = ra_tick r" "now_ms ?w \<le> now" "10 \<le> ra_tick r"
    using assms(1,4) by (simp_all add: clock_link_def FRAGMENT_TIMER_MIN_TICK_MS_def)
  have i: "wheel_inv ?w" "clock_ok ?w" using w(1) by (simp_all add: wheel_good_def)
  note adv = advance_to_eq [OF i w(3) assms(5)]
  define w' where "w' = snd (advance_to ?w now)"
  define due where "due = due_values (timers ?w) ?t"
  define r' where "r' = r\<lparr>ra_now := now, ra_expiry := w'\<rparr>"
  have a: "advance_wheel (r\<lparr>ra_now := now\<rparr>) now = (Ok due, r')"
    using adv(1) by (simp add: advance_wheel_def split_beta r'_def w'_def due_def)
  have w': "wheel_good w'" "now_ms w' \<le> now" "tick_ms w' = tick_ms ?w" "next_id w' = next_id ?w" "current_tick w' = ?t"
    "timers w' = not_due (timers ?w) ?t"
    using wheel.adv_law [OF w(1,3) assms(5)] adv(2,5,6) by (auto simp: w'_def wheel_frame_def)
  have t: "now < u64_max \<Longrightarrow> ?t = now div ra_tick r" "now div ra_tick r \<le> ?t"
    using w(2,4) by (auto simp: target_tick_def div_ceil_def)
  have l1: "\<exists>a. fmlookup (ra_assemblies r) key = Some a \<and> as_timer a = i \<and> (ra_now r < u64_max \<longrightarrow> d = expiry_tick r (as_created a))"
    if "fmlookup (timers ?w) i = Some (d, key)" for i d key using assms(2) that unfolding timers_link_def by blast
  have l2: "\<exists>d. fmlookup (timers ?w) (as_timer a) = Some (d, key)" if "fmlookup (ra_assemblies r) key = Some a" for key a
    using assms(2) that unfolding timers_link_def by blast
  have du: "key \<in> set due \<longleftrightarrow> (\<exists>d. fmlookup (timers ?w) (as_timer a) = Some (d, key) \<and> d \<le> ?t)"
    if "fmlookup (ra_assemblies r) key = Some a" for key a
    using l1 that by (fastforce simp: due_def set_due_values)
  have "timers_link (set due) r'"
  proof -
    have et: "expiry_tick r' = expiry_tick r" by (rule expiry_tick_cong) (simp_all add: r'_def)
    have n: "ra_now r < u64_max" if "now < u64_max" using that assms(4) by simp
    have "key \<notin> set due \<and> (\<exists>a. fmlookup (ra_assemblies r) key = Some a \<and> as_timer a = i \<and> (now < u64_max \<longrightarrow> d = expiry_tick r (as_created a)))"
      if lk: "fmlookup (timers w') i = Some (d, key)" for i d key
    proof -
      have td: "fmlookup (timers ?w) i = Some (d, key)" "\<not> d \<le> ?t" using lk unfolding w'(6) lookup_not_due by (auto split: option.splits if_splits)
      obtain a where x: "fmlookup (ra_assemblies r) key = Some a" "as_timer a = i" "ra_now r < u64_max \<longrightarrow> d = expiry_tick r (as_created a)"
        using l1 [OF td(1)] by blast
      then show ?thesis using du [OF x(1)] td n by auto
    qed
    moreover have "\<exists>d. fmlookup (timers w') (as_timer a) = Some (d, key)"
      if x: "fmlookup (ra_assemblies r) key = Some a" "key \<notin> set due" for key a
    proof -
      obtain d where d: "fmlookup (timers ?w) (as_timer a) = Some (d, key)" using l2 [OF x(1)] by blast
      then have "\<not> d \<le> ?t" using du [OF x(1)] x(2) by blast
      then show ?thesis using d by (simp add: w'(6) lookup_not_due)
    qed
    ultimately show ?thesis unfolding timers_link_def et by (simp add: r'_def)
  qed
  moreover have "key \<in> set due \<longleftrightarrow> expiry_tick r (as_created a) \<le> now div ra_tick r"
    if "now < u64_max" "fmlookup (ra_assemblies r) key = Some a" for key a
    using du [OF that(2)] l1 l2 [OF that(2)] t(1) [OF that(1)] that assms(4) by fastforce
  moreover have "clock_link r'" "up_to_date r'"
    using assms(1,5) w' w(2) t by (auto simp: clock_link_def up_to_date_def r'_def)
  moreover have "store_ok others r'" using assms(3,4) by (force simp: store_ok_def r'_def)
  ultimately show thesis by (intro that [OF a]) (simp_all add: r'_def w')
qed

end
