(* ===== verification/Reassembly_Ops.thy ===== *)
theory Reassembly_Ops
  imports Reassembly_Steps
begin

unbundle bit_operations_syntax

text \<open>
  Every operation of the reassembler keeps its invariant and panics on no input: expiry, ingesting a packet, changing the
  timeout under pressure, and clearing; and the states any sequence of calls reaches.
\<close>

section \<open>Expiry\<close>

lemma expire_due_frame:
  assumes "store_ok others r" "timers_link fired r" "set due \<subseteq> fired"
    "fe_expired ex + fcard (fmdom (ra_assemblies r)) \<le> u64_max"
  shows "\<exists>r' out. expire_due r due mq ex = (out, r') \<and> store_ok others r' \<and> timers_link fired r' \<and> ra_expiry r' = ra_expiry r \<and> same_times r r' \<and>
    ra_assemblies r' = fmfilter (\<lambda>k. k \<notin> set due) (ra_assemblies r) \<and>
    fe_expired out + fcard (fmdom (ra_assemblies r')) = fe_expired ex + fcard (fmdom (ra_assemblies r)) \<and>
    length (fe_invoking out) \<le> max mq (length (fe_invoking ex))"
  using assms
proof (induction r due mq ex rule: expire_due.induct)
  case (1 r mq ex)
  then show ?case by (auto simp: same_times_def)
next
  case (2 r key due mq ex)
  show ?case
  proof (cases "fmlookup (ra_assemblies r) key")
    case None
    have t: "take_assembly r key = (None, r)" using None by (simp add: take_assembly_def)
    have "fmfilter (\<lambda>k. k \<noteq> key \<and> k \<notin> set due) (ra_assemblies r) = fmfilter (\<lambda>k. k \<notin> set due) (ra_assemblies r)"
      using None by (intro fmap_ext) auto
    then show ?thesis using "2.IH"(1) [OF t [symmetric] refl] "2.prems" by (simp add: t)
  next
    case (Some a)
    obtain r1 where t: "take_assembly r key = (Some a, r1)" using take_assembly_eq [OF Some] by blast
    define r2 where "r2 = drop_leases r1 (assembly_leases a)"
    define ex1 where "ex1 = ex\<lparr>fe_expired := sat_add (fe_expired ex) 1\<rparr>"
    define ex2 where "ex2 = (if length (fe_invoking ex1) < mq then
                           (case initial_fragment_packet a key of
                              Some packet \<Rightarrow> ex1\<lparr>fe_invoking := fe_invoking ex1 @ [packet]\<rparr>
                            | None \<Rightarrow> ex1)
                         else ex1)"
    have e: "expire_due r (key # due) mq ex = expire_due r2 due mq ex2"
      unfolding expire_due.simps(2) t prod.case option.case Let_def ex2_def ex1_def r2_def ..
    have r1: "r1 = snd (take_assembly r key)" by (simp add: t)
    have s: "store_ok others r2"
      unfolding r2_def r1 by (intro store_ok_drop_leases store_ok_take "2.prems"(1) Some)
    have l: "timers_link fired r2"
      using timers_link_take [OF "2.prems"(2), of key] "2.prems"(3)
      by (simp add: r2_def r1 timers_link_def expiry_tick_def effective_timeout_def)
    have m: "ra_assemblies r2 = fmdrop key (ra_assemblies r)" "same_times r r2" "ra_expiry r2 = ra_expiry r"
      by (simp_all add: r2_def r1 take_assembly_eq [OF Some] same_times_def)
    have c: "fcard (fmdom (ra_assemblies r)) = Suc (fcard (fmdom (ra_assemblies r2)))"
      unfolding m(1) by (rule fcard_drop [OF Some])
    have x: "fe_expired ex2 = fe_expired ex + 1" "length (fe_invoking ex2) \<le> max mq (length (fe_invoking ex))"
      using "2.prems"(4) c by (auto simp: ex2_def ex1_def sat_add_def split: option.split)
    have "\<exists>r' out. expire_due r2 due mq ex2 = (out, r') \<and> store_ok others r' \<and> timers_link fired r' \<and> ra_expiry r' = ra_expiry r2 \<and> same_times r2 r' \<and>
      ra_assemblies r' = fmfilter (\<lambda>k. k \<notin> set due) (ra_assemblies r2) \<and>
      fe_expired out + fcard (fmdom (ra_assemblies r')) = fe_expired ex2 + fcard (fmdom (ra_assemblies r2)) \<and>
      length (fe_invoking out) \<le> max mq (length (fe_invoking ex2))"
      by (rule "2.IH"(2) [OF t [symmetric] refl ex1_def ex2_def, folded r2_def]) (use s l "2.prems"(3,4) c x(1) in simp_all)
    then obtain r' out where ih: "expire_due r2 due mq ex2 = (out, r')" "store_ok others r'" "timers_link fired r'"
      "ra_expiry r' = ra_expiry r2" "same_times r2 r'" "ra_assemblies r' = fmfilter (\<lambda>k. k \<notin> set due) (ra_assemblies r2)"
      "fe_expired out + fcard (fmdom (ra_assemblies r')) = fe_expired ex2 + fcard (fmdom (ra_assemblies r2))"
      "length (fe_invoking out) \<le> max mq (length (fe_invoking ex2))" by (elim exE conjE)
    have f: "fmfilter (\<lambda>k. k \<notin> set due) (fmdrop key (ra_assemblies r)) = fmfilter (\<lambda>k. k \<notin> set (key # due)) (ra_assemblies r)"
      by (intro fmap_ext) auto
    have "length (fe_invoking out) \<le> max mq (length (fe_invoking ex))" using ih(8) x(2) by simp
    moreover have "fe_expired out + fcard (fmdom (ra_assemblies r')) = fe_expired ex + fcard (fmdom (ra_assemblies r))"
      using ih(7) c x(1) by simp
    moreover have "ra_assemblies r' = fmfilter (\<lambda>k. k \<notin> set (key # due)) (ra_assemblies r)" using ih(6) unfolding m(1) f .
    moreover have "ra_expiry r' = ra_expiry r" using ih(4) m(3) by simp
    ultimately show ?thesis using ih(1-3) same_times_trans [OF m(2) ih(5)] unfolding e by (intro exI conjI)
  qed
qed

lemma timers_link_done:
  "timers_link fired r \<Longrightarrow> (\<And>k. k \<in> fired \<Longrightarrow> fmlookup (ra_assemblies r) k = None) \<Longrightarrow> timers_link {} r"
  unfolding timers_link_def by (metis empty_iff option.distinct(1))

lemma add_expired_frame [simp]: "reassembler_ok others (add_expired r n) = reassembler_ok others r"
  "ra_assemblies (add_expired r n) = ra_assemblies r" "same_times r (add_expired s n) = same_times r s"
  "ra_expiry (add_expired r n) = ra_expiry r" "ra_now (add_expired r n) = ra_now r"
  by (simp_all add: add_expired_def same_times_def)

text \<open>The due assemblies leave, and the invariant holds again.\<close>

lemma expire_ok:
  assumes "store_ok others r" "timers_link (set due) r" "clock_link r" "up_to_date r"
  obtains out r' where "expire_due r due mq no_expirations = (out, r')" "reassembler_ok others r'" "same_times r r'" "ra_expiry r' = ra_expiry r"
    "ra_assemblies r' = fmfilter (\<lambda>k. k \<notin> set due) (ra_assemblies r)"
    "fe_expired out + fcard (fmdom (ra_assemblies r')) = fcard (fmdom (ra_assemblies r))" "length (fe_invoking out) \<le> mq"
proof -
  have "fcard (fmdom (ra_assemblies r)) \<le> u64_max" using assembly_count [OF assms(1)] by (simp add: ASSEMBLY_METADATA_BYTES_def)
  then have b: "fe_expired no_expirations + fcard (fmdom (ra_assemblies r)) \<le> u64_max" by simp
  obtain r' out where e: "expire_due r due mq no_expirations = (out, r')" "store_ok others r'" "timers_link (set due) r'" "ra_expiry r' = ra_expiry r"
    "same_times r r'" "ra_assemblies r' = fmfilter (\<lambda>k. k \<notin> set due) (ra_assemblies r)"
    "fe_expired out + fcard (fmdom (ra_assemblies r')) = fe_expired no_expirations + fcard (fmdom (ra_assemblies r))"
    "length (fe_invoking out) \<le> max mq (length (fe_invoking no_expirations))"
    using expire_due_frame [OF assms(1,2) subset_refl b, of mq] by (elim exE conjE)
  have "timers_link {} r'" using e(3) by (rule timers_link_done) (simp add: e(6))
  moreover have "clock_link r'" "up_to_date r'" using assms(3,4) e(4,5) by (simp_all add: clock_link_def up_to_date_def same_times_def)
  ultimately show thesis using e by (intro that [OF e(1)]) (simp_all add: reassembler_ok_def)
qed

lemma advance_current_ok:
  assumes "reassembler_ok others r" "now \<le> u64_max"
  shows "now < ra_now r \<Longrightarrow> advance_current r now = (Err FragClockWentBackwards, r)"
    "ra_now r \<le> now \<Longrightarrow> \<exists>k r'. advance_current r now = (Ok k, r') \<and> reassembler_ok others r' \<and> same_times (r\<lparr>ra_now := now\<rparr>) r' \<and>
      next_id (ra_expiry r') = next_id (ra_expiry r) \<and> smaller r r' \<and>
      k + fcard (fmdom (ra_assemblies r')) = fcard (fmdom (ra_assemblies r)) \<and>
      (now < u64_max \<longrightarrow> (\<forall>key a. fmlookup (ra_assemblies r) key = Some a \<longrightarrow>
         fmlookup (ra_assemblies r') key = (if expiry_tick r (as_created a) \<le> now div ra_tick r then None else Some a)))"
proof -
  show "now < ra_now r \<Longrightarrow> advance_current r now = (Err FragClockWentBackwards, r)"
    by (simp add: advance_current_def update_time_def then_do_def)
  assume n: "ra_now r \<le> now"
  have l: "clock_link r" "timers_link {} r" "store_ok others r" using assms(1) by (simp_all add: reassembler_ok_def)
  obtain due r1 where a: "advance_wheel (r\<lparr>ra_now := now\<rparr>) now = (Ok due, r1)" "clock_link r1" "up_to_date r1"
    "timers_link (set due) r1" "store_ok others r1" "ra_assemblies r1 = ra_assemblies r" "ra_now r1 = now"
    "ra_timeout r1 = ra_timeout r" "ra_divisor r1 = ra_divisor r" "ra_tick r1 = ra_tick r" "next_id (ra_expiry r1) = next_id (ra_expiry r)"
    "\<And>key a. now < u64_max \<Longrightarrow> fmlookup (ra_assemblies r) key = Some a \<Longrightarrow>
       key \<in> set due \<longleftrightarrow> expiry_tick r (as_created a) \<le> now div ra_tick r"
    using l n assms(2) by (rule advance_wheel_ok) blast
  obtain out r2 where e: "expire_due r1 due 0 no_expirations = (out, r2)" "reassembler_ok others r2" "same_times r1 r2" "ra_expiry r2 = ra_expiry r1"
    "ra_assemblies r2 = fmfilter (\<lambda>k. k \<notin> set due) (ra_assemblies r1)"
    "fe_expired out + fcard (fmdom (ra_assemblies r2)) = fcard (fmdom (ra_assemblies r1))"
    using a(5,4,2,3) by (rule expire_ok)
  have c: "advance_current r now = (Ok (fe_expired out), add_expired r2 (fe_expired out))"
    using n by (simp add: advance_current_def update_time_def then_do_def a(1) e(1))
  have "same_times (r\<lparr>ra_now := now\<rparr>) r2" using e(3) a(7-10) by (simp add: same_times_def)
  moreover have sm: "smaller r (add_expired r2 (fe_expired out))" by (simp add: smaller_def e(5) a(6))
  moreover have "fmlookup (ra_assemblies (add_expired r2 (fe_expired out))) key = (if expiry_tick r (as_created x) \<le> now div ra_tick r then None else Some x)"
    if "now < u64_max" "fmlookup (ra_assemblies r) key = Some x" for key x
    using a(12) [OF that] that(2) by (simp add: e(5) a(6))
  ultimately show "\<exists>k r'. advance_current r now = (Ok k, r') \<and> reassembler_ok others r' \<and> same_times (r\<lparr>ra_now := now\<rparr>) r' \<and>
      next_id (ra_expiry r') = next_id (ra_expiry r) \<and> smaller r r' \<and>
      k + fcard (fmdom (ra_assemblies r')) = fcard (fmdom (ra_assemblies r)) \<and>
      (now < u64_max \<longrightarrow> (\<forall>key a. fmlookup (ra_assemblies r) key = Some a \<longrightarrow>
         fmlookup (ra_assemblies r') key = (if expiry_tick r (as_created a) \<le> now div ra_tick r then None else Some a)))"
    unfolding c using e(2,4,6) a(6,11)
    by (intro exI [of _ "fe_expired out"] exI [of _ "add_expired r2 (fe_expired out)"] conjI allI impI refl sm) simp_all
qed

section \<open>Ingesting\<close>

lemma piece_end_small: "i + n \<le> MAX_REASSEMBLED_BYTES \<Longrightarrow> piece_end i n = i + n"
  by (simp add: piece_end_def MAX_REASSEMBLED_BYTES_def)

lemma list_ex_pieces: "list_ex (\<lambda>(i, p). P i p) (piece_list a) \<longleftrightarrow> (\<exists>i p. fmlookup (as_pieces a) i = Some p \<and> P i p)"
  by (auto simp: list_ex_iff set_piece_list) (metis set_piece_list case_prod_conv)+

lemma accepted_fragment:
  assumes "fmlookup (ra_assemblies r) key = Some a" "assembly_ok v a"
    "\<not> overlaps r key (unat (offset_bytes f)) end" "\<not> conflicts r key protocol f end hl"
  shows "goes_with a f end" "as_protocol a = protocol"
proof -
  have e: "piece_end i (length (piece_bytes p)) = i + length (piece_bytes p)" if "fmlookup (as_pieces a) i = Some p" for i p
    using assms(2) that by (intro piece_end_small) (auto simp: assembly_ok_def piece_ok_def)
  have o: "\<not> (unat (offset_bytes f) < i + length (piece_bytes p) \<and> i < end)" if "fmlookup (as_pieces a) i = Some p" for i p
    using assms(1,3) that e [OF that] unfolding overlaps_def by (auto simp: list_ex_pieces) metis
  have t: "as_protocol a = protocol \<and> (\<forall>t. as_total a = Some t \<longrightarrow> end \<le> t)"
    using assms(1,4) by (auto simp: conflicts_def split: if_splits option.splits)
  have l: "i + length (piece_bytes p) \<le> end" if "fmlookup (as_pieces a) i = Some p" "\<not> more_fragments f" for i p
  proof (rule ccontr)
    assume "\<not> i + length (piece_bytes p) \<le> end"
    then have "list_ex (\<lambda>(offset, piece). piece_end offset (length (piece_bytes piece)) > end) (piece_list a)"
      using that(1) e [OF that(1)] unfolding list_ex_pieces by (metis not_le)
    then have "conflicts r key protocol f end hl" using assms(1) that(2) by (simp add: conflicts_def)
    then show False using assms(4) by simp
  qed
  show "goes_with a f end" unfolding goes_with_def using o l t by blast
  show "as_protocol a = protocol" using t by blast
qed

lemma fresh_goes_with: "fresh_assembly a protocol now \<Longrightarrow> goes_with a f end"
  by (simp add: fresh_assembly_def goes_with_def)

definition buffer_fragment ::
  "Reassembler \<Rightarrow> FragmentKey \<Rightarrow> u8 \<Rightarrow> FragmentInfo \<Rightarrow> bytes \<Rightarrow> nat \<Rightarrow> bytes \<Rightarrow> nat option \<Rightarrow> (FragmentError, bytes option) res \<times> Reassembler" where
  "buffer_fragment r key protocol f payload end header previous =
     then_do (acquire_fragment_credit r key (length payload)) (\<lambda>credit r.
     then_do (open_assembly r key protocol (ra_now r) credit) (\<lambda>_ r.
     add_piece r key f payload end header previous credit))"

lemma buffer_fragment_cases:
  assumes ok: "reassembler_ok others r" and id: "next_id (ra_expiry r) < u64_max"
    and f: "end = unat (offset_bytes f) + length payload" "payload \<noteq> []" "end \<le> MAX_REASSEMBLED_BYTES"
    and h: "offset_bytes f = 0 \<longrightarrow> header_ok (fk_version key) header previous"
    and n: "\<not> overlaps r key (unat (offset_bytes f)) end" "\<not> conflicts r key protocol f end hl"
  obtains
    (refused) e r' where "(\<exists>x s. acquire_fragment_credit r key (length payload) = (Err x, s)) \<or>
        (\<exists>a. fmlookup (ra_assemblies r) key = Some a \<and> \<not> more_fragments f \<and> as_total a \<notin> {None, Some end})"
      "buffer_fragment r key protocol f payload end header previous = (Err e, r')"
      "reassembler_ok others r'" "same_times r r'" "next_id (ra_expiry r') \<le> next_id (ra_expiry r) + 1"
  | (buffered) a c r2 r' where "fmlookup (ra_assemblies r) key = Some a \<or> fresh_assembly a protocol (ra_now r)"
      "acquire_fragment_credit r key (length payload) = (Ok c, r2)" "fmlookup (ra_assemblies r2) key = Some a \<or>
        fmlookup (ra_assemblies r2) key = None \<and> fresh_assembly a protocol (ra_now r)"
      "\<not> is_complete (grown a f payload end header previous c)" "more_fragments f \<or> as_total a \<in> {None, Some end}"
      "buffer_fragment r key protocol f payload end header previous = (Ok None, r')"
      "reassembler_ok others r'" "same_times r r'" "next_id (ra_expiry r') \<le> next_id (ra_expiry r) + 1"
      "ra_assemblies r' = fmupd key (grown a f payload end header previous c) (ra_assemblies r2)"
  | (complete) a c r2 r' where "fmlookup (ra_assemblies r) key = Some a \<or> fresh_assembly a protocol (ra_now r)"
      "acquire_fragment_credit r key (length payload) = (Ok c, r2)" "fmlookup (ra_assemblies r2) key = Some a \<or>
        fmlookup (ra_assemblies r2) key = None \<and> fresh_assembly a protocol (ra_now r)"
      "is_complete (grown a f payload end header previous c)" "more_fragments f \<or> as_total a \<in> {None, Some end}"
      "buffer_fragment r key protocol f payload end header previous =
        (and_then (rebuild (grown a f payload end header previous c) (fk_version key)) (\<lambda>packet. Ok (Some packet)), r')"
      "reassembler_ok others r'" "same_times r r'" "next_id (ra_expiry r') \<le> next_id (ra_expiry r) + 1"
      "ra_assemblies r' = fmdrop key (ra_assemblies r2)" "assembly_ok (fk_version key) (grown a f payload end header previous c)"
proof -
  obtain got r2 where q: "acquire_fragment_credit r key (length payload) = (got, r2)" "same_clock r r2" "smaller r r2"
    "case got of
       Ok c \<Rightarrow> reassembler_ok (mset (credit_leases c) + others) r2 \<and> credit_ok r2 key (length payload) c
     | Err e \<Rightarrow> reassembler_ok others r2 \<and> ra_assemblies r2 = fmempty
     | Panic \<Rightarrow> False"
    using acquire_credit_ok [OF ok, of key "length payload"] by (elim exE conjE)
  have sc: "ra_now r2 = ra_now r" "next_id (ra_expiry r2) = next_id (ra_expiry r)" using q(2) by (simp_all add: same_clock_def)
  show thesis
  proof (cases got)
    case Panic then show thesis using q(4) by simp
  next
    case (Err e)
    then show thesis using q sc
      by (intro refused [of e r2]) (auto simp: buffer_fragment_def then_do_def same_clock_times)
  next
    case (Ok c)
    then have c: "reassembler_ok (mset (credit_leases c) + others) r2" "credit_ok r2 key (length payload) c" using q(4) by simp_all
    obtain r3 a where o: "open_assembly r2 key protocol (ra_now r2) c = (Ok (), r3)" "reassembler_ok (mset (piece_credit c) + others) r3"
      "same_times r2 r3" "next_id (ra_expiry r3) \<le> next_id (ra_expiry r2) + 1" "ra_assemblies r3 = fmupd key a (ra_assemblies r2)"
      "fmlookup (ra_assemblies r2) key = Some a \<or> fmlookup (ra_assemblies r2) key = None \<and> fresh_assembly a protocol (ra_now r2)"
      using c id unfolding sc(2) [symmetric] by (rule open_assembly_ok)
    have a: "fmlookup (ra_assemblies r) key = Some a \<or> fresh_assembly a protocol (ra_now r)"
      using o(6) q(3) sc(1) unfolding smaller_def by auto
    have g: "goes_with a f end"
      using a accepted_fragment(1) [OF _ _ n] fresh_goes_with ok unfolding reassembler_ok_def store_ok_def by blast
    have l3: "fmlookup (ra_assemblies r3) key = Some a" by (simp add: o(5))
    have e: "buffer_fragment r key protocol f payload end header previous = add_piece r3 key f payload end header previous c"
      using q(1) o(1) Ok by (simp add: buffer_fragment_def then_do_def)
    have tm: "same_times r r'" "next_id (ra_expiry r') \<le> next_id (ra_expiry r) + 1" if "same_clock r3 r'" for r'
      using that q(2) o(3,4) by (simp_all add: same_clock_def same_times_def)
    have qc: "acquire_fragment_credit r key (length payload) = (Ok c, r2)" using q(1) Ok by simp
    have o6: "fmlookup (ra_assemblies r2) key = Some a \<or> fmlookup (ra_assemblies r2) key = None \<and> fresh_assembly a protocol (ra_now r)"
      using o(6) sc(1) by simp
    have dd: "fmdrop key (ra_assemblies r3) = fmdrop key (ra_assemblies r2)"
      "fmupd key x (ra_assemblies r3) = fmupd key x (ra_assemblies r2)" for x by (rule fmap_ext, simp add: o(5))+
    show thesis
    proof (rule add_piece_cases [OF o(2) l3 g f c(2) h])
      fix r' assume x: "\<not> more_fragments f" "as_total a \<notin> {None, Some end}"
        "add_piece r3 key f payload end header previous c = (Err (FragMalformed ''conflicting final fragment lengths''), r')"
        "reassembler_ok others r'" "same_clock r3 r'"
      have "fmlookup (ra_assemblies r) key = Some a" using a x(2) by (auto simp: fresh_assembly_def)
      then show thesis using x tm [of r'] by (intro refused) (auto simp: e)
    next
      fix r' assume w: "\<not> is_complete (grown a f payload end header previous c)" "more_fragments f \<or> as_total a \<in> {None, Some end}"
        "add_piece r3 key f payload end header previous c = (Ok None, r')" "reassembler_ok others r'" "same_clock r3 r'"
        "ra_assemblies r' = fmupd key (grown a f payload end header previous c) (ra_assemblies r3)"
      show thesis by (rule buffered [OF a qc o6 w(1,2) _ w(4) tm [OF w(5)]]) (simp_all add: e w(3,6) dd)
    next
      fix r' assume w: "is_complete (grown a f payload end header previous c)" "more_fragments f \<or> as_total a \<in> {None, Some end}"
        "add_piece r3 key f payload end header previous c =
          (and_then (rebuild (grown a f payload end header previous c) (fk_version key)) (\<lambda>packet. Ok (Some packet)), r')"
        "reassembler_ok others r'" "same_clock r3 r'" "ra_assemblies r' = fmdrop key (ra_assemblies r3)"
      have "assembly_ok (fk_version key) a" using o(2) l3 by (simp add: reassembler_ok_def store_ok_def)
      then have "assembly_ok (fk_version key) (grown a f payload end header previous c)"
        using g f c(2) h w(2) by (intro grown_ok(1)) blast+
      then show thesis by (intro complete [OF a qc o6 w(1,2) _ w(4) tm [OF w(5)]]) (simp_all add: e w(3,6) dd)
    qed
  qed
qed

lemma fragment_end_Ok:
  "fragment_end f n = Ok e \<Longrightarrow> e = unat (offset_bytes f) + n \<and> 0 < n \<and> e \<le> MAX_REASSEMBLED_BYTES"
  by (auto simp: fragment_end_def split: if_splits)

lemma fragment_end_no_panic: "fragment_end f n \<noteq> Panic"
  by (simp add: fragment_end_def)

text \<open>\<open>ingest\<close> of a fragment that passes the checks of its own bytes.\<close>

lemma ingest_eq:
  assumes a: "advance_current r now = (Ok k, r1)" "reassembler_ok others r1" "ra_now r1 = now"
    and p: "parse_ip_packet le packet True = Ok ip" "ip_fragment ip = Some f" "\<not> is_atomic f"
    and e: "fragment_end f (length payload) = Ok end" "payload = (case ip_fragment_payload ip of Some p \<Rightarrow> p | None \<Rightarrow> ip_payload ip)"
    and h: "fragment_header packet (ip_version ip) = Ok (header, previous, protocol)"
    and v: "validate_reassembled_size (ip_version ip) (length header) end = Ok ()" and key: "key = fragment_key ip f protocol"
  shows "ingest le r packet now =
    (if overlaps r1 key (unat (offset_bytes f)) end then
       let r = snd (discard_assembly r1 key) in
       (Err Overlap, r\<lparr>ra_stats := ra_stats r\<lparr>fs_overlap_drops := sat_add (fs_overlap_drops (ra_stats r)) 1\<rparr>\<rparr>)
     else if conflicts r1 key protocol f end (length header) then
       (Err (FragMalformed ''fragment conflicts with established datagram bounds''), snd (discard_assembly r1 key))
     else buffer_fragment r1 key protocol f payload end header previous)"
proof -
  have nw: "ra_now (snd (acquire_fragment_credit r1 key (length payload))) = now"
    using acquire_credit_ok [OF a(2), of key "length payload"] a(3) by (auto simp: same_clock_def)
  have b: "then_do (acquire_fragment_credit r1 key (length payload)) (\<lambda>credit r.
      then_do (open_assembly r key protocol now credit) (\<lambda>_ r. add_piece r key f payload end header previous credit)) =
      buffer_fragment r1 key protocol f payload end header previous"
  proof -
    obtain got r2 where q: "acquire_fragment_credit r1 key (length payload) = (got, r2)" by fastforce
    then have "ra_now r2 = now" using nw by simp
    then show ?thesis unfolding buffer_fragment_def q by (cases got) (simp_all add: then_do_def)
  qed
  have "ingest le r packet now =
    (if overlaps r1 key (unat (offset_bytes f)) end then
       let r = snd (discard_assembly r1 key) in
       (Err Overlap, r\<lparr>ra_stats := ra_stats r\<lparr>fs_overlap_drops := sat_add (fs_overlap_drops (ra_stats r)) 1\<rparr>\<rparr>)
     else if conflicts r1 key protocol f end (length header) then
       (Err (FragMalformed ''fragment conflicts with established datagram bounds''), snd (discard_assembly r1 key))
     else then_do (acquire_fragment_credit r1 key (length payload)) (\<lambda>credit r.
       then_do (open_assembly r key protocol now credit) (\<lambda>_ r. add_piece r key f payload end header previous credit)))"
    unfolding ingest_def a(1) then_do_def [of "(Ok _, _)"] prod.case res.case p map_err.simps option.case if_not_P [OF p(3)]
      Let_def e(2) [symmetric] e(1) h v key [symmetric] ..
  then show ?thesis unfolding b .
qed

text \<open>The outcome of an operation that keeps the invariant.\<close>

definition settled :: "BudgetLease multiset \<Rightarrow> Reassembler \<Rightarrow> nat \<Rightarrow> ('e, 'a) res \<times> Reassembler \<Rightarrow> bool" where
  "settled others r now out \<longleftrightarrow> fst out \<noteq> Panic \<and> reassembler_ok others (snd out) \<and>
     next_id (ra_expiry (snd out)) \<le> next_id (ra_expiry r) + 1 \<and> same_times (r\<lparr>ra_now := now\<rparr>) (snd out)"

lemma buffer_fragment_settled:
  assumes ok: "reassembler_ok others r" and id: "next_id (ra_expiry r) < u64_max"
    and f: "end = unat (offset_bytes f) + length payload" "payload \<noteq> []" "end \<le> MAX_REASSEMBLED_BYTES"
    and h: "offset_bytes f = 0 \<longrightarrow> header_ok (fk_version key) header previous"
    and n: "\<not> overlaps r key (unat (offset_bytes f)) end" "\<not> conflicts r key protocol f end hl"
  shows "settled others r (ra_now r) (buffer_fragment r key protocol f payload end header previous)"
proof -
  have t: "same_times r r' \<Longrightarrow> same_times (r\<lparr>ra_now := ra_now r\<rparr>) r'" for r' by (simp add: same_times_def)
  from assms show ?thesis
  proof (cases rule: buffer_fragment_cases)
    case (complete a c r2 r')
    have "and_then (rebuild (grown a f payload end header previous c) (fk_version key)) (\<lambda>packet. Ok (Some packet)) \<noteq> Panic"
      using rebuild_no_panic [OF complete(11)] by (simp add: and_then_Panic_iff)
    then show ?thesis unfolding settled_def complete(6) using complete(7-9) t by simp
  qed (simp_all add: settled_def t)
qed

lemma ingest_settled:
  assumes ok: "reassembler_ok others r" and now: "ra_now r \<le> now" "now \<le> u64_max" and id: "next_id (ra_expiry r) < u64_max"
  shows "settled others r now (ingest le r packet now)"
proof -
  obtain k r1 where a: "advance_current r now = (Ok k, r1)" "reassembler_ok others r1" "same_times (r\<lparr>ra_now := now\<rparr>) r1"
    "next_id (ra_expiry r1) = next_id (ra_expiry r)"
    using advance_current_ok(2) [OF ok now(2,1)] by blast
  have n1: "ra_now r1 = now" using a(3) by (simp add: same_times_def)
  have id1: "next_id (ra_expiry r1) < u64_max" using a(4) id by simp
  have stay: "settled others r now (x, r2)" if "x \<noteq> Panic" "reassembler_ok others r2" "same_clock r1 r2" for x :: "(FragmentError, bytes option) res" and r2
    using that a(3,4) by (simp add: settled_def same_clock_def same_times_def)
  have buf: "settled others r now out" if "settled others r1 now out" for out :: "(FragmentError, bytes option) res \<times> Reassembler"
    using that a(3,4) by (simp add: settled_def same_times_def)
  show ?thesis
  proof (cases "parse_ip_packet le packet True")
    case Panic then show ?thesis using parse_ip_packet_no_panic by blast
  next
    case (Err e) then show ?thesis using stay a(2) by (simp add: ingest_def then_do_def a(1))
  next
    case (Ok ip)
    show ?thesis
    proof (cases "ip_fragment ip = None \<or> is_atomic (the (ip_fragment ip))")
      case True
      then show ?thesis using stay a(2) by (auto simp: ingest_def then_do_def a(1) Ok split: option.splits)
    next
      case False
      then obtain f where f: "ip_fragment ip = Some f" "\<not> is_atomic f" by auto
      then have fr: "ip_fragment ip \<noteq> None" by simp
      define payload where "payload = (case ip_fragment_payload ip of Some p \<Rightarrow> p | None \<Rightarrow> ip_payload ip)"
      obtain header previous protocol where h: "fragment_header packet (ip_version ip) = Ok (header, previous, protocol)"
        "header_ok (ip_version ip) header previous" using Ok fr by (rule fragment_header_ok)
      show ?thesis
      proof (cases "\<exists>end. fragment_end f (length payload) = Ok end \<and> validate_reassembled_size (ip_version ip) (length header) end = Ok ()")
        case False
        then have "\<exists>x. ingest le r packet now = (Err x, r1)"
          using fragment_end_no_panic [of f "length payload"] f h
          by (cases "fragment_end f (length payload)")
            (auto simp: ingest_def then_do_def a(1) Ok payload_def validate_reassembled_size_def split: if_splits)
        then show ?thesis using stay a(2) by auto
      next
        case True
        then obtain "end" where e: "fragment_end f (length payload) = Ok end" "validate_reassembled_size (ip_version ip) (length header) end = Ok ()"
          by blast
        define key where "key = fragment_key ip f protocol"
        note i = ingest_eq [OF a(1,2) n1 Ok f e(1) payload_def h(1) e(2) key_def]
        note d = discard_assembly_ok [OF a(2), of key] and fe = fragment_end_Ok [OF e(1)]
        have hk: "offset_bytes f = 0 \<longrightarrow> header_ok (fk_version key) header previous" using h(2) by (simp add: key_def fragment_key_def)
        have b: "settled others r now (buffer_fragment r1 key protocol f payload end header previous)"
          if "\<not> overlaps r1 key (unat (offset_bytes f)) end" "\<not> conflicts r1 key protocol f end (length header)"
          using buffer_fragment_settled [OF a(2) id1 _ _ _ hk that] fe n1 buf by auto
        show ?thesis unfolding i Let_def using b stay d(1,2) by simp
      qed
    qed
  qed
qed

section \<open>Changing the timeout\<close>

lemma store_ok_retime:
  assumes "store_ok others r" "fmlookup (ra_assemblies r) key = Some a"
  shows "store_ok others (r\<lparr>ra_assemblies := fmupd key (a\<lparr>as_timer := i\<rparr>) (ra_assemblies r)\<rparr>)"
proof -
  let ?a = "a\<lparr>as_timer := i\<rparr>"
  have k: "fset (fmdom (fmupd key ?a (ra_assemblies r))) = fset (fmdom (ra_assemblies r))"
    using fmdomI [OF assms(2)] by auto
  have "index_ok (fmupd key ?a (ra_assemblies r)) (ra_index r)"
    unfolding index_ok_def
  proof (intro allI)
    fix e y
    have "fmlookup (ra_index r) e = Some y \<longleftrightarrow> (\<exists>b. fmlookup (ra_assemblies r) y = Some b \<and> as_eviction b = e)"
      using assms(1) unfolding store_ok_def index_ok_def by blast
    then show "fmlookup (ra_index r) e = Some y \<longleftrightarrow> (\<exists>b. fmlookup (fmupd key ?a (ra_assemblies r)) y = Some b \<and> as_eviction b = e)"
      using assms(2) by auto
  qed
  moreover have "assembly_ok v ?a = assembly_ok v a" "mset (assembly_leases ?a) = mset (assembly_leases a)" for v
    by (simp_all add: assembly_ok_def mset_assembly_leases)
  ultimately show ?thesis
    using assms k fmap_sum_drop [OF assms(2), of "\<lambda>a. mset (assembly_leases a)"]
      fmap_sum_drop [OF assms(2), of "\<lambda>a. fcard (fmdom (as_pieces a))"]
    by (auto simp: store_ok_def fmap_sum_upd fcard.rep_eq split: if_splits)
qed

text \<open>The same assemblies up to their timers.\<close>

definition retimed :: "Reassembler \<Rightarrow> Reassembler \<Rightarrow> bool" where
  "retimed r r' \<longleftrightarrow> (\<forall>key. map_option (\<lambda>a. a\<lparr>as_timer := 0\<rparr>) (fmlookup (ra_assemblies r') key) =
     map_option (\<lambda>a. a\<lparr>as_timer := 0\<rparr>) (fmlookup (ra_assemblies r) key))"

lemma retimed_dom: "retimed r r' \<Longrightarrow> fmlookup (ra_assemblies r') key = None \<longleftrightarrow> fmlookup (ra_assemblies r) key = None"
  unfolding retimed_def by (metis map_option_is_None)

lemma retimed_created:
  assumes "retimed r r'" "fmlookup (ra_assemblies r') key = Some a"
  obtains b where "fmlookup (ra_assemblies r) key = Some b" "as_created b = as_created a" "as_pieces b = as_pieces a"
proof -
  have "map_option (\<lambda>a. a\<lparr>as_timer := 0\<rparr>) (fmlookup (ra_assemblies r) key) = Some (a\<lparr>as_timer := 0\<rparr>)"
    using assms unfolding retimed_def by (metis option.simps(9))
  then obtain b where "fmlookup (ra_assemblies r) key = Some b" "b\<lparr>as_timer := 0\<rparr> = a\<lparr>as_timer := 0\<rparr>" by auto
  moreover from this(2) have "as_created b = as_created a" "as_pieces b = as_pieces a"
    by (metis Assembly.select_convs(4,6) Assembly.surjective Assembly.update_convs(7))+
  ultimately show thesis using that by blast
qed

lemma timers_link_reschedule:
  assumes "timers_link (insert key fired) r" "key \<notin> fired" "fmlookup (ra_assemblies r) key = Some a"
    "fmlookup (timers (ra_expiry r)) i = None" "timers w' = fmupd i (d, key) (timers (ra_expiry r))"
    "ra_now r < u64_max \<longrightarrow> d = expiry_tick r (as_created a)"
  shows "timers_link fired (r\<lparr>ra_expiry := w', ra_assemblies := fmupd key (a\<lparr>as_timer := i\<rparr>) (ra_assemblies r)\<rparr>)" (is "timers_link fired ?r")
proof -
  have et: "expiry_tick ?r = expiry_tick r" by (rule expiry_tick_cong) simp_all
  have l: "\<And>j n k. fmlookup (timers (ra_expiry r)) j = Some (n, k) \<Longrightarrow> k \<notin> insert key fired \<and>
      (\<exists>b. fmlookup (ra_assemblies r) k = Some b \<and> as_timer b = j \<and> (ra_now r < u64_max \<longrightarrow> n = expiry_tick r (as_created b)))"
    "\<And>k b. fmlookup (ra_assemblies r) k = Some b \<Longrightarrow> k \<notin> insert key fired \<Longrightarrow> \<exists>n. fmlookup (timers (ra_expiry r)) (as_timer b) = Some (n, k)"
    using assms(1) unfolding timers_link_def by blast+
  have "k \<notin> fired \<and> (\<exists>b. fmlookup (ra_assemblies ?r) k = Some b \<and> as_timer b = j \<and> (ra_now r < u64_max \<longrightarrow> n = expiry_tick r (as_created b)))"
    if lk: "fmlookup (timers w') j = Some (n, k)" for j n k
  proof (cases "j = i")
    case True
    then have "n = d" "k = key" using lk by (simp_all add: assms(5))
    then show ?thesis using assms(2,6) True by simp
  next
    case False
    then have "fmlookup (timers (ra_expiry r)) j = Some (n, k)" using lk by (simp add: assms(5))
    then show ?thesis using l(1) by fastforce
  qed
  moreover have "\<exists>n. fmlookup (timers w') (as_timer b) = Some (n, k)"
    if lk: "fmlookup (ra_assemblies ?r) k = Some b" "k \<notin> fired" for k b
  proof (cases "k = key")
    case True then show ?thesis using lk by (auto simp: assms(5))
  next
    case False
    then have "fmlookup (ra_assemblies r) k = Some b" "k \<notin> insert key fired" using lk by simp_all
    then obtain n where n: "fmlookup (timers (ra_expiry r)) (as_timer b) = Some (n, k)" using l(2) by blast
    then have "as_timer b \<noteq> i" using assms(4) by auto
    then show ?thesis using n by (simp add: assms(5))
  qed
  ultimately show ?thesis unfolding timers_link_def et by simp
qed

lemma rebuild_loop_ok:
  assumes "store_ok others r" "clock_link r" "up_to_date r"
    "timers_link (set keys \<union> set expired) (r\<lparr>ra_divisor := dv\<rparr>)" "distinct keys" "set keys \<inter> set expired = {}"
    "\<forall>k\<in>set keys. fmlookup (ra_assemblies r) k \<noteq> None" "next_id (ra_expiry r) + length keys \<le> u64_max"
  shows "\<exists>ex r'. rebuild_loop r (ra_now r) (effective_timeout r dv) keys expired = (Ok ex, r') \<and> store_ok others r' \<and> clock_link r' \<and> up_to_date r' \<and>
    timers_link (set ex) (r'\<lparr>ra_divisor := dv\<rparr>) \<and> same_times r r' \<and> next_id (ra_expiry r') \<le> next_id (ra_expiry r) + length keys \<and>
    retimed r r' \<and> set ex = set expired \<union> {k \<in> set keys. \<exists>a. fmlookup (ra_assemblies r) k = Some a \<and> as_created a + effective_timeout r dv \<le> ra_now r}"
  using assms
proof (induction keys arbitrary: r expired)
  case Nil
  then show ?case by (simp add: same_times_def retimed_def)
next
  case (Cons key keys)
  obtain a where a: "fmlookup (ra_assemblies r) key = Some a" using Cons.prems(7) by auto
  have cr: "as_created a \<le> ra_now r" using Cons.prems(1) a by (simp add: store_ok_def)
  let ?e = "effective_timeout r dv" and ?w = "ra_expiry r"
  have du: "?e \<le> sat_sub (ra_now r) (as_created a) \<longleftrightarrow> as_created a + ?e \<le> ra_now r" using cr by (auto simp: sat_sub_def)
  have nk: "key \<notin> set keys" "key \<notin> set expired" using Cons.prems(5,6) by auto
  show ?case
  proof (cases "as_created a + ?e \<le> ra_now r")
    case True
    have "\<exists>ex r'. rebuild_loop r (ra_now r) ?e keys (expired @ [key]) = (Ok ex, r') \<and> store_ok others r' \<and> clock_link r' \<and> up_to_date r' \<and>
      timers_link (set ex) (r'\<lparr>ra_divisor := dv\<rparr>) \<and> same_times r r' \<and> next_id (ra_expiry r') \<le> next_id (ra_expiry r) + length keys \<and>
      retimed r r' \<and> set ex = set (expired @ [key]) \<union> {k \<in> set keys. \<exists>a. fmlookup (ra_assemblies r) k = Some a \<and> as_created a + ?e \<le> ra_now r}"
      using Cons.prems nk by (intro Cons.IH) (simp_all add: Un_commute)
    moreover have "rebuild_loop r (ra_now r) ?e (key # keys) expired = rebuild_loop r (ra_now r) ?e keys (expired @ [key])"
      using a True du by simp
    ultimately show ?thesis using a True by fastforce
  next
    case False
    have id: "next_id ?w < u64_max" using Cons.prems(8) by simp
    have w: "wheel_good ?w" using Cons.prems(2) by (simp add: clock_link_def)
    note acc = deadline_accepted [OF Cons.prems(2,3) id cr, of dv]
    define d where "d = deadline_of ?w (sat_add (as_created a) ?e)"
    obtain w' where s: "schedule ?w (sat_add (as_created a) ?e) key = (Ok (next_id ?w), w')" "wheel_good w'" "fmlookup (timers ?w) (next_id ?w) = None"
      "timers w' = fmupd (next_id ?w) (d, key) (timers ?w)" "tick_ms w' = tick_ms ?w"
      "current_tick w' = current_tick ?w" "next_id w' = next_id ?w + 1"
      using w acc(1) unfolding d_def by (rule schedule_frame)
    define a' where "a' = a\<lparr>as_timer := next_id ?w\<rparr>"
    define r1 where "r1 = r\<lparr>ra_expiry := w', ra_assemblies := fmupd key a' (ra_assemblies r)\<rparr>"
    have l: "rebuild_loop r (ra_now r) ?e (key # keys) expired = rebuild_loop r1 (ra_now r1) (effective_timeout r1 dv) keys expired"
    proof -
      have er: "effective_timeout r1 dv = ?e" "ra_now r1 = ra_now r" by (simp_all add: effective_timeout_def r1_def)
      show ?thesis unfolding er using a False du s(1) by (simp add: then_do_def r1_def a'_def)
    qed
    have st: "store_ok others r1"
      using store_ok_retime [OF Cons.prems(1) a, of "next_id ?w"] by (simp add: r1_def a'_def store_ok_def)
    have cl: "clock_link r1" "up_to_date r1"
      using Cons.prems(2,3) s(2,5,6) by (auto simp: clock_link_def up_to_date_def r1_def now_ms_def)
    have tl: "timers_link (set keys \<union> set expired) (r1\<lparr>ra_divisor := dv\<rparr>)"
    proof -
      have "timers_link (set keys \<union> set expired) ((r\<lparr>ra_divisor := dv\<rparr>)\<lparr>ra_expiry := w', ra_assemblies := fmupd key a' (ra_assemblies r)\<rparr>)"
        using timers_link_reschedule [of key "set keys \<union> set expired" "r\<lparr>ra_divisor := dv\<rparr>" a "next_id ?w" w' d]
          Cons.prems(4) nk a s(3,4) acc(2) False by (simp add: expiry_tick_def d_def effective_timeout_def a'_def)
      moreover have "(r\<lparr>ra_divisor := dv\<rparr>)\<lparr>ra_expiry := w', ra_assemblies := fmupd key a' (ra_assemblies r)\<rparr> = r1\<lparr>ra_divisor := dv\<rparr>"
        by (rule Reassembler.equality) (simp_all add: r1_def)
      ultimately show ?thesis by (simp only:)
    qed
    have pr: "set keys \<inter> set expired = {}" "distinct keys" "\<forall>k\<in>set keys. fmlookup (ra_assemblies r1) k \<noteq> None"
      "next_id (ra_expiry r1) + length keys \<le> u64_max"
      using Cons.prems(5-8) s(7) by (auto simp: r1_def)
    obtain ex r' where ih: "rebuild_loop r1 (ra_now r1) (effective_timeout r1 dv) keys expired = (Ok ex, r')" "store_ok others r'" "clock_link r'" "up_to_date r'"
      "timers_link (set ex) (r'\<lparr>ra_divisor := dv\<rparr>)" "same_times r1 r'" "next_id (ra_expiry r') \<le> next_id (ra_expiry r1) + length keys" "retimed r1 r'"
      "set ex = set expired \<union> {k \<in> set keys. \<exists>a. fmlookup (ra_assemblies r1) k = Some a \<and> as_created a + effective_timeout r1 dv \<le> ra_now r1}"
      using Cons.IH [OF st cl tl pr(2,1,3,4)] by (elim exE conjE)
    have "retimed r r1" using a by (simp add: retimed_def r1_def a'_def)
    then have "retimed r r'" using ih(8) by (simp add: retimed_def)
    moreover have "same_times r r'" using ih(6) by (simp add: same_times_def r1_def)
    moreover have "{k \<in> set keys. \<exists>a. fmlookup (ra_assemblies r1) k = Some a \<and> as_created a + effective_timeout r1 dv \<le> ra_now r1} =
        {k \<in> set (key # keys). \<exists>a. fmlookup (ra_assemblies r) k = Some a \<and> as_created a + ?e \<le> ra_now r}"
      using False a nk by (auto simp: r1_def effective_timeout_def)
    moreover have "next_id (ra_expiry r') \<le> next_id (ra_expiry r) + length (key # keys)" using ih(7) s(7) by (simp add: r1_def)
    ultimately show ?thesis using ih(1-5,9) unfolding l by (intro exI conjI) simp_all
  qed
qed

text \<open>An iteration order of the hash map of assemblies.\<close>

definition enumerates :: "FragmentKey list \<Rightarrow> Reassembler \<Rightarrow> bool" where
  "enumerates keys r \<longleftrightarrow> distinct keys \<and> set keys = fset (fmdom (ra_assemblies r))"

lemma enumerates_length: "store_ok others r \<Longrightarrow> enumerates keys r \<Longrightarrow> length keys \<le> 2 ^ 57"
  using assembly_count [of others r]
  by (auto simp: enumerates_def fcard.rep_eq ASSEMBLY_METADATA_BYTES_def dest!: distinct_card [symmetric])

lemma new_wheel_clock:
  assumes "clock_link r" "store_ok others r" "ra_now r \<le> now" "now \<le> u64_max"
  obtains wheel where "wheel_new (ra_tick r) now = (Ok wheel :: ('e, FragmentKey TimerWheel) res)"
    "clock_link (r\<lparr>ra_now := now, ra_expiry := wheel\<rparr>)" "up_to_date (r\<lparr>ra_now := now, ra_expiry := wheel\<rparr>)"
    "store_ok others (r\<lparr>ra_now := now, ra_expiry := wheel\<rparr>)" "timers wheel = fmempty" "next_id wheel = 0"
proof -
  have t: "10 \<le> ra_tick r" "2 \<le> ra_tick r" using assms(1) by (simp_all add: clock_link_def FRAGMENT_TIMER_MIN_TICK_MS_def)
  obtain wheel :: "FragmentKey TimerWheel" where w: "wheel_new (ra_tick r) now = (Ok wheel :: ('e, FragmentKey TimerWheel) res)" "wheel_good wheel"
    "next_id wheel = 0" "current_tick wheel = now div ra_tick r" "tick_ms wheel = ra_tick r" "timers wheel = fmempty"
    using t(2) assms(4) by (rule wheel_new_good)
  have "now_ms wheel \<le> now" by (simp add: now_ms_def w(4,5) sat_mul_def min.coboundedI1)
  then show thesis using assms w
    by (intro that [of wheel]) (auto simp: clock_link_def up_to_date_def store_ok_def intro: order_trans)
qed

text \<open>The clock of the reassembler moves and the timeout divisor changes: which assemblies leave.\<close>

lemma tick_due:
  assumes "0 < t" "now < u64_max"
  shows "div_ceil (sat_add created e) t \<le> now div t \<Longrightarrow> created + e \<le> now"
    "created + e + t \<le> now \<Longrightarrow> div_ceil (sat_add created e) t \<le> now div t"
proof -
  define x where "x = now div t * t"
  have q: "x \<le> now" "now < x + t"
    using dividend_less_div_times [OF assms(1), of now] by (simp_all add: x_def add.commute)
  have d: "div_ceil (sat_add created e) t \<le> now div t \<longleftrightarrow> sat_add created e \<le> x" using assms(1) by (simp add: div_ceil_le_iff x_def)
  show "div_ceil (sat_add created e) t \<le> now div t \<Longrightarrow> created + e \<le> now"
    using assms q unfolding d by (simp add: sat_add_def min_def split: if_splits)
  show "created + e + t \<le> now \<Longrightarrow> div_ceil (sat_add created e) t \<le> now div t"
    using assms q unfolding d by (simp add: sat_add_def min_def)
qed

lemma rebuild_expiry_ok:
  assumes l: "clock_link r" "store_ok others r" and now: "ra_now r \<le> now" "now \<le> u64_max" and keys: "enumerates keys r"
  obtains ex r1 where "rebuild_expiry (r\<lparr>ra_now := now\<rparr>) now d keys = (Ok ex, r1)" "clock_link r1" "up_to_date r1" "timers_link (set ex) r1"
    "store_ok others r1" "retimed r r1" "same_times (r\<lparr>ra_now := now, ra_divisor := d\<rparr>) r1" "next_id (ra_expiry r1) \<le> 2 ^ 57"
    "\<And>key a. fmlookup (ra_assemblies r) key = Some a \<Longrightarrow> key \<in> set ex \<longleftrightarrow> as_created a + effective_timeout r d \<le> now"
proof -
  obtain wheel where w: "wheel_new (ra_tick r) now = (Ok wheel :: (FragmentError, FragmentKey TimerWheel) res)"
    "clock_link (r\<lparr>ra_now := now, ra_expiry := wheel\<rparr>)" "up_to_date (r\<lparr>ra_now := now, ra_expiry := wheel\<rparr>)"
    "store_ok others (r\<lparr>ra_now := now, ra_expiry := wheel\<rparr>)" "timers wheel = fmempty" "next_id wheel = 0"
    using l now by (rule new_wheel_clock)
  define r0 where "r0 = r\<lparr>ra_now := now, ra_expiry := wheel\<rparr>"
  have len: "length keys \<le> 2 ^ 57" using l(2) keys by (rule enumerates_length)
  have tl0: "timers_link (set keys \<union> set []) (r0\<lparr>ra_divisor := d\<rparr>)"
    using keys by (auto simp: timers_link_def r0_def w(5) enumerates_def dest: fmdomI)
  have k0: "distinct keys" "set keys \<inter> set [] = {}" "\<forall>k\<in>set keys. fmlookup (ra_assemblies r0) k \<noteq> None"
    "next_id (ra_expiry r0) + length keys \<le> u64_max"
    using keys len w(6) by (auto simp: enumerates_def r0_def fmlookup_dom_iff)
  obtain ex r1 where x: "rebuild_loop r0 (ra_now r0) (effective_timeout r0 d) keys [] = (Ok ex, r1)" "store_ok others r1" "clock_link r1" "up_to_date r1"
    "timers_link (set ex) (r1\<lparr>ra_divisor := d\<rparr>)" "same_times r0 r1" "next_id (ra_expiry r1) \<le> next_id (ra_expiry r0) + length keys" "retimed r0 r1"
    "set ex = set [] \<union> {k \<in> set keys. \<exists>a. fmlookup (ra_assemblies r0) k = Some a \<and> as_created a + effective_timeout r0 d \<le> ra_now r0}"
    using rebuild_loop_ok [OF w(4,2,3) [folded r0_def] tl0 k0] by (elim exE conjE)
  have e0: "effective_timeout r0 d = effective_timeout r d" "ra_now r0 = now" "ra_assemblies r0 = ra_assemblies r" "next_id (ra_expiry r0) = 0"
    by (simp_all add: effective_timeout_def r0_def w(6))
  have st: "rebuild_expiry (r\<lparr>ra_now := now\<rparr>) now d keys = (Ok ex, r1\<lparr>ra_divisor := d\<rparr>)"
    using w(1) x(1) unfolding e0(1,2) by (simp add: rebuild_expiry_def then_do_def r0_def effective_timeout_def)
  have cl: "clock_link (r1\<lparr>ra_divisor := d\<rparr>)" "up_to_date (r1\<lparr>ra_divisor := d\<rparr>)" "store_ok others (r1\<lparr>ra_divisor := d\<rparr>)"
    using x(2-4) by (simp_all add: clock_link_def up_to_date_def store_ok_def)
  have "key \<in> set ex \<longleftrightarrow> as_created a + effective_timeout r d \<le> now" if "fmlookup (ra_assemblies r) key = Some a" for key a
    using that keys fmdomI [OF that] unfolding x(9) e0 by (auto simp: enumerates_def)
  moreover have "retimed r (r1\<lparr>ra_divisor := d\<rparr>)" using x(8) by (simp add: retimed_def e0)
  moreover have "same_times (r\<lparr>ra_now := now, ra_divisor := d\<rparr>) (r1\<lparr>ra_divisor := d\<rparr>)" using x(6) by (simp add: same_times_def r0_def)
  moreover have "next_id (ra_expiry r1) \<le> 2 ^ 57" using x(7) len e0(4) by simp
  ultimately show thesis using cl x(5) by (intro that [OF st]) simp_all
qed

lemma pressure_ok:
  assumes ok: "reassembler_ok others r" and now: "ra_now r \<le> now" "now \<le> u64_max" and keys: "enumerates keys r"
  obtains out r' where "advance_time_under_pressure_with_quotes r now dv mq keys = (Ok out, r')" "reassembler_ok others r'"
    "same_times (r\<lparr>ra_now := now, ra_divisor := max dv 1\<rparr>) r'" "next_id (ra_expiry r') \<le> max (next_id (ra_expiry r)) (2 ^ 57)"
    "fe_expired out + fcard (fmdom (ra_assemblies r')) = fcard (fmdom (ra_assemblies r))" "length (fe_invoking out) \<le> mq"
    "\<And>key a. now < u64_max \<Longrightarrow> fmlookup (ra_assemblies r) key = Some a \<Longrightarrow>
       (fmlookup (ra_assemblies r') key = None \<longrightarrow> as_created a + effective_timeout r dv \<le> now) \<and>
       (as_created a + effective_timeout r dv + ra_tick r \<le> now \<longrightarrow> fmlookup (ra_assemblies r') key = None)"
    "\<And>key. fmlookup (ra_assemblies r) key = None \<Longrightarrow> fmlookup (ra_assemblies r') key = None"
proof -
  define d where "d = max dv 1"
  have l: "clock_link r" "timers_link {} r" "store_ok others r" using ok by (simp_all add: reassembler_ok_def)
  have t: "0 < ra_tick r" using l(1) by (simp add: clock_link_def FRAGMENT_TIMER_MIN_TICK_MS_def)
  have ed: "effective_timeout r dv = effective_timeout r d" by (simp add: effective_timeout_def d_def)
  define step where "step = (if d = ra_divisor r then advance_wheel (r\<lparr>ra_now := now\<rparr>) now else rebuild_expiry (r\<lparr>ra_now := now\<rparr>) now d keys)"
  have "\<exists>due r1. step = (Ok due, r1) \<and> clock_link r1 \<and> up_to_date r1 \<and> timers_link (set due) r1 \<and> store_ok others r1 \<and> retimed r r1 \<and>
      same_times (r\<lparr>ra_now := now, ra_divisor := d\<rparr>) r1 \<and> next_id (ra_expiry r1) \<le> max (next_id (ra_expiry r)) (2 ^ 57) \<and>
      (\<forall>key a. now < u64_max \<longrightarrow> fmlookup (ra_assemblies r) key = Some a \<longrightarrow>
         (key \<in> set due \<longrightarrow> as_created a + effective_timeout r d \<le> now) \<and>
         (as_created a + effective_timeout r d + ra_tick r \<le> now \<longrightarrow> key \<in> set due))"
  proof (cases "d = ra_divisor r")
    case True
    obtain due r1 where a: "advance_wheel (r\<lparr>ra_now := now\<rparr>) now = (Ok due, r1)" "clock_link r1" "up_to_date r1"
      "timers_link (set due) r1" "store_ok others r1" "ra_assemblies r1 = ra_assemblies r" "ra_now r1 = now"
      "ra_timeout r1 = ra_timeout r" "ra_divisor r1 = ra_divisor r" "ra_tick r1 = ra_tick r" "next_id (ra_expiry r1) = next_id (ra_expiry r)"
      "\<And>key a. now < u64_max \<Longrightarrow> fmlookup (ra_assemblies r) key = Some a \<Longrightarrow>
         key \<in> set due \<longleftrightarrow> expiry_tick r (as_created a) \<le> now div ra_tick r"
      using l now by (rule advance_wheel_ok) blast
    have "(key \<in> set due \<longrightarrow> as_created x + effective_timeout r d \<le> now) \<and>
        (as_created x + effective_timeout r d + ra_tick r \<le> now \<longrightarrow> key \<in> set due)"
      if "now < u64_max" "fmlookup (ra_assemblies r) key = Some x" for key x
      using a(12) [OF that] tick_due [OF t that(1), of "as_created x" "effective_timeout r d"] True by (simp add: expiry_tick_def)
    then show ?thesis using a(1-11) True
      by (intro exI [of _ due] exI [of _ r1]) (auto simp: step_def same_times_def retimed_def)
  next
    case False
    obtain ex r1 where "rebuild_expiry (r\<lparr>ra_now := now\<rparr>) now d keys = (Ok ex, r1)" "clock_link r1" "up_to_date r1" "timers_link (set ex) r1"
      "store_ok others r1" "retimed r r1" "same_times (r\<lparr>ra_now := now, ra_divisor := d\<rparr>) r1" "next_id (ra_expiry r1) \<le> 2 ^ 57"
      "\<And>key a. fmlookup (ra_assemblies r) key = Some a \<Longrightarrow> key \<in> set ex \<longleftrightarrow> as_created a + effective_timeout r d \<le> now"
      using l(1,3) now keys by (rule rebuild_expiry_ok) blast
    then show ?thesis using False by (intro exI [of _ ex] exI [of _ r1]) (auto simp: step_def)
  qed
  then obtain due r1 where s: "step = (Ok due, r1)" "clock_link r1" "up_to_date r1" "timers_link (set due) r1" "store_ok others r1" "retimed r r1"
    "same_times (r\<lparr>ra_now := now, ra_divisor := d\<rparr>) r1" "next_id (ra_expiry r1) \<le> max (next_id (ra_expiry r)) (2 ^ 57)"
    "\<And>key a. now < u64_max \<Longrightarrow> fmlookup (ra_assemblies r) key = Some a \<Longrightarrow>
       (key \<in> set due \<longrightarrow> as_created a + effective_timeout r d \<le> now) \<and>
       (as_created a + effective_timeout r d + ra_tick r \<le> now \<longrightarrow> key \<in> set due)" by blast
  obtain out r2 where e: "expire_due r1 due mq no_expirations = (out, r2)" "reassembler_ok others r2" "same_times r1 r2" "ra_expiry r2 = ra_expiry r1"
    "ra_assemblies r2 = fmfilter (\<lambda>k. k \<notin> set due) (ra_assemblies r1)"
    "fe_expired out + fcard (fmdom (ra_assemblies r2)) = fcard (fmdom (ra_assemblies r1))" "length (fe_invoking out) \<le> mq"
    using s(5,4,2,3) by (rule expire_ok)
  have a: "advance_time_under_pressure_with_quotes r now dv mq keys = (Ok out, add_expired r2 (fe_expired out))"
    using now(1) s(1) e(1) unfolding step_def d_def
    by (simp add: advance_time_under_pressure_with_quotes_def update_time_def then_do_def cong: if_cong)
  have dom: "fmdom (ra_assemblies r1) = fmdom (ra_assemblies r)"
    using retimed_dom [OF s(6)] by (intro fset_eqI) (metis fmdom_notD fmdom_notI)
  have lk: "fmlookup (ra_assemblies r2) key = None \<longleftrightarrow> fmlookup (ra_assemblies r) key = None \<or> key \<in> set due" for key
    using retimed_dom [OF s(6), of key] by (simp add: e(5))
  have st: "same_times (r\<lparr>ra_now := now, ra_divisor := max dv 1\<rparr>) (add_expired r2 (fe_expired out))"
    using same_times_trans [OF s(7) e(3)] unfolding d_def by (simp only: add_expired_frame)
  show thesis
    by (rule that [OF a _ st]) (use e(2,4,6,7) s(8,9) lk dom in \<open>simp_all add: ed\<close>)
qed

section \<open>Clearing\<close>

lemma mset_all_leases:
  assumes "enumerates keys r"
  shows "mset (concat [assembly_leases a. key \<leftarrow> keys, a \<leftarrow> (case fmlookup (ra_assemblies r) key of Some a \<Rightarrow> [a] | None \<Rightarrow> [])]) =
    held (ra_assemblies r)"
proof -
  have "mset (concat [assembly_leases a. key \<leftarrow> ks, a \<leftarrow> (case fmlookup (ra_assemblies r) key of Some a \<Rightarrow> [a] | None \<Rightarrow> [])]) =
      (\<Sum>key\<leftarrow>ks. mset (assembly_leases (the (fmlookup (ra_assemblies r) key))))" if "set ks \<subseteq> fset (fmdom (ra_assemblies r))" for ks
    using that by (induction ks) (auto simp: fmlookup_dom_iff)
  then show ?thesis using assms by (simp add: enumerates_def fmap_sum_def sum_list_distinct_conv_sum_set)
qed

lemma clear_ok:
  assumes ok: "reassembler_ok others r" and keys: "enumerates keys r"
  obtains r' where "clear_reassembler r keys = (Ok () :: ('e, unit) res, r')" "reassembler_ok others r'" "same_times r r'"
    "next_id (ra_expiry r') = 0" "ra_assemblies r' = fmempty"
proof -
  have l: "clock_link r" "store_ok others r" "ra_now r \<le> u64_max" using ok by (simp_all add: reassembler_ok_def clock_link_def)
  obtain wheel where w: "wheel_new (ra_tick r) (ra_now r) = (Ok wheel :: ('e, FragmentKey TimerWheel) res)"
    "clock_link (r\<lparr>ra_now := ra_now r, ra_expiry := wheel\<rparr>)" "up_to_date (r\<lparr>ra_now := ra_now r, ra_expiry := wheel\<rparr>)"
    "timers wheel = fmempty" "next_id wheel = 0"
    using l(1,2) order_refl l(3) by (rule new_wheel_clock)
  let ?ls = "concat [assembly_leases a. key \<leftarrow> keys, a \<leftarrow> (case fmlookup (ra_assemblies r) key of Some a \<Rightarrow> [a] | None \<Rightarrow> [])]"
  let ?s = "(ra_stats r)\<lparr>fs_active := 0, fs_buffered := 0\<rparr>"
  define r' where "r' = (drop_leases r ?ls)\<lparr>ra_assemblies := fmempty, ra_index := fmempty, ra_expiry := wheel, ra_stats := ?s\<rparr>"
  have c: "clear_reassembler r keys = (Ok () :: ('e, unit) res, r')"
    using w(1) by (simp add: clear_reassembler_def Let_def then_do_def r'_def)
  have "ledger_ok (foldl drop_lease (ra_ledger r) ?ls) others"
    using ledger.release_all [of "ra_ledger r" ?ls others] l(2) mset_all_leases [OF keys] by (simp add: store_ok_def)
  then have "store_ok others r'" using l(2) by (simp add: store_ok_def r'_def drop_leases_def index_ok_def)
  moreover have "timers_link {} r'" by (simp add: timers_link_def r'_def w(4))
  moreover have "clock_link r'" "up_to_date r'" using w(2,3) by (simp_all add: clock_link_def up_to_date_def r'_def)
  ultimately have "reassembler_ok others r'" by (simp add: reassembler_ok_def)
  then show thesis by (intro that [OF c]) (simp_all add: r'_def same_times_def w(5))
qed

lemma new_ok:
  assumes "ledger_ok led others" "0 < timeout" "timeout \<le> u64_max"
  obtains r where "reassembler_new led timeout = (Ok r :: ('e, Reassembler) res)" "reassembler_ok others r" "next_id (ra_expiry r) = 0" "ra_now r = 0"
    "ra_timeout r = timeout" "ra_divisor r = 1" "ra_assemblies r = fmempty" "ra_ledger r = led"
proof -
  define tick where "tick = max (div_ceil timeout TIMER_WHEEL_SAFE_DELTA_TICKS) FRAGMENT_TIMER_MIN_TICK_MS"
  have t: "2 \<le> tick" by (simp add: tick_def FRAGMENT_TIMER_MIN_TICK_MS_def)
  obtain wheel :: "FragmentKey TimerWheel" where w: "wheel_new tick 0 = (Ok wheel :: ('e, FragmentKey TimerWheel) res)" "wheel_good wheel"
    "next_id wheel = 0" "current_tick wheel = 0 div tick" "tick_ms wheel = tick" "timers wheel = fmempty"
    using t le0 by (rule wheel_new_good)
  let ?r = "\<lparr>ra_ledger = led, ra_timeout = timeout, ra_now = 0, ra_divisor = 1, ra_tick = tick, ra_expiry = wheel,
      ra_assemblies = fmempty, ra_index = fmempty, ra_serial = 0,
      ra_stats = \<lparr>fs_active = 0, fs_buffered = 0, fs_completed = 0, fs_expired = 0, fs_evicted = 0, fs_overlap_drops = 0\<rparr>\<rparr>"
  have n: "reassembler_new led timeout = (Ok ?r :: ('e, Reassembler) res)"
    using assms(2) w(1) by (simp add: reassembler_new_def tick_def Let_def)
  have "store_ok others ?r" using assms(1) by (simp add: store_ok_def index_ok_def)
  moreover have "clock_link ?r" using assms(2,3) w by (simp add: clock_link_def now_ms_def sat_mul_def tick_def)
  ultimately have "reassembler_ok others ?r" using w by (simp add: reassembler_ok_def timers_link_def up_to_date_def)
  then show thesis using w(3) by (intro that [OF n]) simp_all
qed

section \<open>Sequences of operations\<close>

datatype reassembly_op = OpIngest bytes nat | OpAdvance nat nat nat | OpClear

datatype reassembly_out = Reassembled "bytes option" | Expirations FragmentExpirations | Cleared

fun reassembly_do ::
  "bool \<Rightarrow> FragmentKey list \<Rightarrow> Reassembler \<Rightarrow> reassembly_op \<Rightarrow> (FragmentError, reassembly_out) res \<times> Reassembler" where
  "reassembly_do le keys r (OpIngest packet now) = then_do (ingest le r packet now) (\<lambda>out r. (Ok (Reassembled out), r))"
| "reassembly_do le keys r (OpAdvance now divisor quotes) =
     then_do (advance_time_under_pressure_with_quotes r now divisor quotes keys) (\<lambda>out r. (Ok (Expirations out), r))"
| "reassembly_do le keys r OpClear = then_do (clear_reassembler r keys) (\<lambda>out r. (Ok Cleared, r))"

fun op_clock :: "reassembly_op \<Rightarrow> nat" where
  "op_clock (OpIngest packet now) = now"
| "op_clock (OpAdvance now divisor quotes) = now"
| "op_clock OpClear = 0"

text \<open>The states of a reassembler after any \<open>n\<close> calls, whatever order its hash map is iterated in.\<close>

inductive reassembly_reachable :: "bool \<Rightarrow> ResourceLedger \<Rightarrow> nat \<Rightarrow> nat \<Rightarrow> Reassembler \<Rightarrow> bool" for le led timeout where
  created: "reassembler_new led timeout = (Ok r :: (unit, Reassembler) res) \<Longrightarrow> reassembly_reachable le led timeout 0 r"
| called: "reassembly_reachable le led timeout n r \<Longrightarrow> enumerates keys r \<Longrightarrow> op_clock p \<le> u64_max \<Longrightarrow>
    reassembly_do le keys r p = (out, r') \<Longrightarrow> reassembly_reachable le led timeout (Suc n) r'"

lemma then_do_fst: "fst (then_do m (\<lambda>x r. (Ok (g x), r))) \<noteq> Panic \<longleftrightarrow> fst m \<noteq> Panic" "snd (then_do m (\<lambda>x r. (Ok (g x), r))) = snd m"
  by (cases m; cases "fst m"; simp add: then_do_def)+

lemma reassembly_do_ok:
  assumes ok: "reassembler_ok others r" and id: "next_id (ra_expiry r) < u64_max" and it: "enumerates keys r" and c: "op_clock p \<le> u64_max"
  shows "fst (reassembly_do le keys r p) \<noteq> Panic" "reassembler_ok others (snd (reassembly_do le keys r p))"
    "next_id (ra_expiry (snd (reassembly_do le keys r p))) \<le> max (next_id (ra_expiry r)) (2 ^ 57) + 1"
proof -
  have "fst (reassembly_do le keys r p) \<noteq> Panic \<and> reassembler_ok others (snd (reassembly_do le keys r p)) \<and>
    next_id (ra_expiry (snd (reassembly_do le keys r p))) \<le> max (next_id (ra_expiry r)) (2 ^ 57) + 1"
  proof (cases p)
    case (OpIngest packet now)
    show ?thesis
    proof (cases "now < ra_now r")
      case True
      have "ingest le r packet now = (Err FragClockWentBackwards, r)"
        using advance_current_ok(1) [OF ok _ True] c OpIngest by (simp add: ingest_def then_do_def)
      then show ?thesis using ok by (simp add: OpIngest then_do_fst)
    next
      case False
      then have "settled others r now (ingest le r packet now)" using ok id c OpIngest by (intro ingest_settled) simp_all
      then show ?thesis by (auto simp: settled_def OpIngest then_do_fst max_def)
    qed
  next
    case (OpAdvance now dv mq)
    show ?thesis
    proof (cases "now < ra_now r")
      case True
      have "advance_time_under_pressure_with_quotes r now dv mq keys = (Err FragClockWentBackwards, r)"
        using True by (simp add: advance_time_under_pressure_with_quotes_def update_time_def then_do_def)
      then show ?thesis using ok by (simp add: OpAdvance then_do_fst)
    next
      case False
      then obtain out r' where "advance_time_under_pressure_with_quotes r now dv mq keys = (Ok out, r')" "reassembler_ok others r'"
        "next_id (ra_expiry r') \<le> max (next_id (ra_expiry r)) (2 ^ 57)"
        using pressure_ok [OF ok, of now keys dv mq] it c OpAdvance by (metis not_le op_clock.simps(2))
      then show ?thesis by (auto simp: OpAdvance then_do_fst max_def)
    qed
  next
    case OpClear
    obtain r' where "clear_reassembler r keys = (Ok () :: (FragmentError, unit) res, r')" "reassembler_ok others r'" "next_id (ra_expiry r') = 0"
      using ok it by (rule clear_ok)
    then show ?thesis by (simp add: OpClear then_do_fst)
  qed
  then show "fst (reassembly_do le keys r p) \<noteq> Panic" "reassembler_ok others (snd (reassembly_do le keys r p))"
    "next_id (ra_expiry (snd (reassembly_do le keys r p))) \<le> max (next_id (ra_expiry r)) (2 ^ 57) + 1" by simp_all
qed

lemma reassembly_reachable_ok:
  assumes "reassembly_reachable le led timeout n r" "ledger_ok led others" "0 < timeout" "timeout \<le> u64_max" "n < 2 ^ 63"
  shows "reassembler_ok others r" "next_id (ra_expiry r) \<le> 2 ^ 57 + n"
proof -
  have "reassembler_ok others r \<and> next_id (ra_expiry r) \<le> 2 ^ 57 + n" using assms(1,5)
  proof (induction rule: reassembly_reachable.induct)
    case (created r)
    obtain s where "reassembler_new led timeout = (Ok s :: (unit, Reassembler) res)" "reassembler_ok others s" "next_id (ra_expiry s) = 0"
      using assms(2-4) by (rule new_ok)
    then show ?case using created by simp
  next
    case (called n r keys p out r')
    have r: "reassembler_ok others r" "next_id (ra_expiry r) \<le> 2 ^ 57 + n" using called by simp_all
    then have id: "next_id (ra_expiry r) < u64_max" using called.prems by simp
    note s = reassembly_do_ok [where le = le, OF r(1) id called.hyps(2,3), unfolded called.hyps(4) snd_conv]
    have "max (next_id (ra_expiry r)) (2 ^ 57) \<le> 2 ^ 57 + n" using r(2) by simp
    then show ?case using s(2,3) by simp
  qed
  then show "reassembler_ok others r" "next_id (ra_expiry r) \<le> 2 ^ 57 + n" by simp_all
qed

end
