(* ===== verification/Reassembly_Gather.thy ===== *)
theory Reassembly_Gather
  imports Reassembly_Ops
begin

unbundle bit_operations_syntax

text \<open>
  The fragments of one datagram in the reassembler: an assembly is complete exactly when it holds all of them, the credit
  of an affordable fragment is granted without eviction, and the step of the state at each arrival.
\<close>

section \<open>Pieces of a tiling\<close>

text \<open>The assembly holds the fragments \<open>D\<close> of a datagram whose payload has \<open>tot\<close> bytes.\<close>

definition gathers :: "Assembly \<Rightarrow> (nat \<times> bytes) set \<Rightarrow> nat \<Rightarrow> bytes \<Rightarrow> nat option \<Rightarrow> u8 \<Rightarrow> bool" where
  "gathers a D tot header previous protocol \<longleftrightarrow> as_protocol a = protocol \<and>
     (\<forall>off c. (\<exists>p. fmlookup (as_pieces a) off = Some p \<and> piece_bytes p = c) \<longleftrightarrow> (off, c) \<in> D) \<and>
     as_header a = (if \<exists>c. (0, c) \<in> D then Some header else None) \<and>
     as_previous a = (if \<exists>c. (0, c) \<in> D then previous else None) \<and>
     as_total a = (if \<exists>(off, c)\<in>D. off + length c = tot then Some tot else None)"

lemma gathers_fresh: "fresh_assembly a protocol now \<Longrightarrow> gathers a {} tot header previous protocol"
  by (simp add: fresh_assembly_def gathers_def)

lemma gathers_grown:
  assumes "gathers a D tot header previous protocol" "unat (offset_bytes f) = off" "more_fragments f = (off + length c < tot)"
    "off + length c \<le> tot" "\<And>c'. (off, c') \<notin> D" "off = 0 \<Longrightarrow> h = header \<and> v = previous"
  shows "gathers (grown a f c (off + length c) h v cr) (insert (off, c) D) tot header previous protocol"
proof -
  have p: "(\<exists>p. fmlookup (as_pieces a) i = Some p \<and> piece_bytes p = x) \<longleftrightarrow> (i, x) \<in> D" for i x
    using assms(1) unfolding gathers_def by blast
  have o: "offset_bytes f = 0 \<longleftrightarrow> off = 0" using assms(2) by (auto simp: word_unat_eq_iff)
  have "(\<exists>p. fmlookup (as_pieces (grown a f c (off + length c) h v cr)) i = Some p \<and> piece_bytes p = x) \<longleftrightarrow> (i, x) \<in> insert (off, c) D" for i x
    using p [of i x] assms(2,5) by (cases "i = off") auto
  moreover have "(\<exists>c'. (0, c') \<in> insert (off, c) D) \<longleftrightarrow> off = 0 \<or> (\<exists>c'. (0, c') \<in> D)" by auto
  ultimately show ?thesis
    using assms(1,3,4,6) o unfolding gathers_def by auto
qed

lemma place_sorted: "tiling e tot cs \<Longrightarrow> sorted_wrt (<) (map fst (Frag_Facts.place Pair e cs)) \<and> (\<forall>i\<in>set (map fst (Frag_Facts.place Pair e cs)). e \<le> i)"
proof (induction cs arbitrary: e)
  case (Cons c cs)
  then have s: "sorted_wrt (<) (map fst (Frag_Facts.place Pair (e + length c) cs))"
    and l: "\<forall>i\<in>set (map fst (Frag_Facts.place Pair (e + length c) cs)). e + length c \<le> i" by simp_all
  have "0 < length c" using Cons.prems by simp
  then have "e < i" if "i \<in> set (map fst (Frag_Facts.place Pair (e + length c) cs))" for i
    using bspec [OF l that] by linarith
  then show ?case using s by (auto intro: less_imp_le)
qed simp

lemma place_disjoint:
  assumes "tiling e tot cs" "(i, x) \<in> set (Frag_Facts.place Pair e cs)" "(j, y) \<in> set (Frag_Facts.place Pair e cs)" "i < j"
  shows "i + length x \<le> j"
  using assms
proof (induction cs arbitrary: e)
  case (Cons c cs)
  have t: "tiling (e + length c) tot cs" using Cons.prems(1) by simp
  have lo: "e + length c \<le> k" if "(k, z) \<in> set (Frag_Facts.place Pair (e + length c) cs)" for k z
    using place_sorted [OF t] that by force
  show ?case
  proof (cases "(i, x) \<in> set (Frag_Facts.place Pair (e + length c) cs)")
    case True
    have "(j, y) \<in> set (Frag_Facts.place Pair (e + length c) cs)" using Cons.prems(3,4) lo [OF True] by auto
    then show ?thesis using Cons.IH [OF t True] Cons.prems(4) by blast
  next
    case False
    then have ix: "i = e" "x = c" using Cons.prems(2) by auto
    then have "(j, y) \<in> set (Frag_Facts.place Pair (e + length c) cs)" using Cons.prems(3,4) by auto
    then show ?thesis using lo ix by auto
  qed
qed simp

lemma place_functional: "tiling e tot cs \<Longrightarrow> (i, x) \<in> set (Frag_Facts.place Pair e cs) \<Longrightarrow> (i, y) \<in> set (Frag_Facts.place Pair e cs) \<Longrightarrow> x = y"
proof (induction cs arbitrary: e)
  case (Cons c cs)
  have t: "tiling (e + length c) tot cs" "c \<noteq> []" using Cons.prems(1) by simp_all
  have "e < k" if "(k, z) \<in> set (Frag_Facts.place Pair (e + length c) cs)" for k z
  proof -
    have "e + length c \<le> k" using place_sorted [OF t(1)] that by force
    moreover have "0 < length c" using t(2) by simp
    ultimately show ?thesis by linarith
  qed
  then show ?case using Cons.IH [OF t(1)] Cons.prems(2,3) by auto
qed simp

lemma place_length_sum: "tiling e tot cs \<Longrightarrow> e + (\<Sum>(i, c)\<leftarrow>Frag_Facts.place Pair e cs. length c) = tot"
proof (induction cs arbitrary: e)
  case (Cons c cs)
  then have "e + length c + (\<Sum>(i, c)\<leftarrow>Frag_Facts.place Pair (e + length c) cs. length c) = tot" by simp
  then show ?case by simp
qed simp

lemma place_distinct: "tiling e tot cs \<Longrightarrow> distinct (Frag_Facts.place Pair e cs)"
  using place_sorted [of e tot cs] by (metis distinct_map strict_sorted_iff)

section \<open>Completeness\<close>

lemma contiguous_sum:
  assumes "contiguous e ps = Some t" "\<forall>(i, p)\<in>set ps. i + length (piece_bytes p) \<le> MAX_REASSEMBLED_BYTES"
  shows "t = e + (\<Sum>(i, p)\<leftarrow>ps. length (piece_bytes p))"
  using assms
proof (induction ps arbitrary: e)
  case (Cons x ps)
  obtain i p where x: "x = (i, p)" by fastforce
  then have i: "i = e" using Cons.prems(1) by (auto split: if_splits)
  have "piece_end e (length (piece_bytes p)) = e + length (piece_bytes p)" using Cons.prems(2) x i by (intro piece_end_small) auto
  then show ?case using Cons.IH [of "e + length (piece_bytes p)"] Cons.prems x i by simp
qed simp

lemma contiguous_place:
  assumes "map (\<lambda>(i, p). (i, piece_bytes p)) ps = Frag_Facts.place Pair e cs" "tiling e tot cs" "tot \<le> MAX_REASSEMBLED_BYTES"
  shows "contiguous e ps = Some tot"
  using assms
proof (induction cs arbitrary: e ps)
  case (Cons c cs)
  then obtain p ps' where ps: "ps = (e, p) # ps'" "piece_bytes p = c" "map (\<lambda>(i, p). (i, piece_bytes p)) ps' = Frag_Facts.place Pair (e + length c) cs"
    by auto
  have "piece_end e (length c) = e + length c" using Cons.prems by (intro piece_end_small) simp
  then show ?case using Cons.IH [OF ps(3)] Cons.prems(2,3) ps by simp
qed simp

lemma gathered_list:
  assumes "gathers a D tot header previous protocol"
  shows "set (map (\<lambda>(i, p). (i, piece_bytes p)) (piece_list a)) = D" "distinct (map (\<lambda>(i, p). (i, piece_bytes p)) (piece_list a))"
    "sorted_wrt (<) (map fst (map (\<lambda>(i, p). (i, piece_bytes p)) (piece_list a)))"
proof -
  have p: "(\<exists>p. fmlookup (as_pieces a) i = Some p \<and> piece_bytes p = x) \<longleftrightarrow> (i, x) \<in> D" for i x
    using assms unfolding gathers_def by blast
  show "set (map (\<lambda>(i, p). (i, piece_bytes p)) (piece_list a)) = D"
    using p by (auto simp: set_piece_list image_iff) (metis (no_types, lifting) case_prod_conv image_eqI set_piece_list)+
  have "map fst (map (\<lambda>(i, p). (i, piece_bytes p)) (piece_list a)) = sorted_list_of_fset (fmdom (as_pieces a))"
    by (simp add: piece_list_eq comp_def split_beta)
  then show s: "sorted_wrt (<) (map fst (map (\<lambda>(i, p). (i, piece_bytes p)) (piece_list a)))"
    by (simp add: sorted_list_of_fset.rep_eq)
  then show "distinct (map (\<lambda>(i, p). (i, piece_bytes p)) (piece_list a))" by (metis distinct_map strict_sorted_iff)
qed

lemma sorted_pairs_eq:
  assumes "set xs = set ys" "sorted_wrt (<) (map fst xs)" "sorted_wrt (<) (map fst ys :: nat list)"
  shows "xs = ys"
proof -
  have m: "map fst xs = map fst ys"
    using assms by (intro sorted_distinct_set_unique) (auto simp: strict_sorted_iff)
  have d: "distinct (map fst xs)" using assms(2) by (simp add: strict_sorted_iff)
  show ?thesis
  proof (rule nth_equalityI)
    show l: "length xs = length ys" using m by (metis length_map)
    fix i assume i: "i < length xs"
    have f: "fst (xs ! i) = fst (ys ! i)" using m i l by (metis nth_map)
    have "ys ! i \<in> set xs" using i l assms(1) by simp
    then obtain j where j: "j < length xs" "xs ! j = ys ! i" by (auto simp: in_set_conv_nth)
    then have "map fst xs ! j = map fst xs ! i" using f i by simp
    then have "j = i" using d i j(1) by (metis length_map nth_eq_iff_index_eq)
    then show "xs ! i = ys ! i" using j by simp
  qed
qed

text \<open>An assembly is complete exactly when it holds all the fragments.\<close>

lemma complete_iff_all:
  assumes t: "tiling 0 tot cs" "cs \<noteq> []" "tot \<le> MAX_REASSEMBLED_BYTES" and g: "gathers a D tot header previous protocol"
    and D: "D \<subseteq> set (Frag_Facts.place Pair 0 cs)"
  shows "is_complete a \<longleftrightarrow> D = set (Frag_Facts.place Pair 0 cs)"
    "D = set (Frag_Facts.place Pair 0 cs) \<Longrightarrow> map (\<lambda>(i, p). (i, piece_bytes p)) (piece_list a) = Frag_Facts.place Pair 0 cs \<and> as_header a = Some header \<and> as_previous a = previous"
proof -
  let ?l = "map (\<lambda>(i, p). (i, piece_bytes p)) (piece_list a)"
  note gl = gathered_list [OF g]
  have all: "?l = Frag_Facts.place Pair 0 cs \<and> as_header a = Some header \<and> as_previous a = previous" if "D = set (Frag_Facts.place Pair 0 cs)"
  proof -
    have "?l = Frag_Facts.place Pair 0 cs" using gl place_sorted [OF t(1)] that by (intro sorted_pairs_eq) simp_all
    moreover have "(0, hd cs) \<in> D" using t(2) that by (cases cs) simp_all
    ultimately show ?thesis using g by (auto simp: gathers_def)
  qed
  then show "D = set (Frag_Facts.place Pair 0 cs) \<Longrightarrow> ?l = Frag_Facts.place Pair 0 cs \<and> as_header a = Some header \<and> as_previous a = previous" .
  have bound: "\<forall>(i, p)\<in>set (piece_list a). i + length (piece_bytes p) \<le> MAX_REASSEMBLED_BYTES"
  proof clarify
    fix i p assume "(i, p) \<in> set (piece_list a)"
    then have "(i, piece_bytes p) \<in> set ?l" by force
    then have "(i, piece_bytes p) \<in> set (Frag_Facts.place Pair 0 cs)" using gl(1) D by blast
    then show "i + length (piece_bytes p) \<le> MAX_REASSEMBLED_BYTES" using place_in(3) [OF t(1)] t(3) by fastforce
  qed
  show "is_complete a \<longleftrightarrow> D = set (Frag_Facts.place Pair 0 cs)"
  proof
    assume D: "D = set (Frag_Facts.place Pair 0 cs)"
    have "contiguous 0 (piece_list a) = Some tot" using all [OF D] t(1,3) by (intro contiguous_place) simp_all
    moreover have "\<exists>(i, c)\<in>D. i + length c = tot"
    proof -
      have "\<exists>(i, c)\<in>set (Frag_Facts.place Pair e xs). i + length c = tot" if "tiling e tot xs" "xs \<noteq> []" for e xs
        using that by (induction xs arbitrary: e) (auto, metis Frag_Facts.place.simps(1) tiling.simps(1))
      then show ?thesis using t D by blast
    qed
    ultimately show "is_complete a" using all [OF D] g by (simp add: is_complete_def gathers_def)
  next
    assume c: "is_complete a"
    then have "as_total a = Some tot" using g by (auto simp: is_complete_def gathers_def split: option.splits if_splits)
    then have ct: "contiguous 0 (piece_list a) = Some tot" using c by (auto simp: is_complete_def split: option.splits)
    have "tot = (\<Sum>(i, p)\<leftarrow>piece_list a. length (piece_bytes p))" using contiguous_sum [OF ct bound] by (simp only: add_0)
    also have "\<dots> = (\<Sum>(i, c)\<leftarrow>?l. length c)" by (simp add: comp_def case_prod_unfold)
    also have "\<dots> = (\<Sum>(i, c)\<in>D. length c)" unfolding sum_list_distinct_conv_sum_set [OF gl(2)] gl(1) ..
    finally have s: "(\<Sum>(i, c)\<in>D. length c) = (\<Sum>(i, c)\<in>set (Frag_Facts.place Pair 0 cs). length c)"
      using place_length_sum [OF t(1)] unfolding sum_list_distinct_conv_sum_set [OF place_distinct [OF t(1)]] by simp
    show "D = set (Frag_Facts.place Pair 0 cs)"
    proof (rule ccontr)
      assume "D \<noteq> set (Frag_Facts.place Pair 0 cs)"
      then obtain i x where ix: "(i, x) \<in> set (Frag_Facts.place Pair 0 cs)" "(i, x) \<notin> D" using D by auto
      have "(\<Sum>(i, c)\<in>D. length c) < (\<Sum>(i, c)\<in>set (Frag_Facts.place Pair 0 cs). length c)"
        using D ix place_in(4) [OF t(1) _ ix(1)] by (intro sum_strict_mono2 [where b = "(i, x)"]) auto
      then show False using s by simp
    qed
  qed
qed

section \<open>Affordable leases\<close>

definition affordable :: "ResourceLedger \<Rightarrow> BudgetLease multiset \<Rightarrow> bool" where
  "affordable led M \<longleftrightarrow> (\<forall>k. charged M k \<le> limit led k) \<and> charged_bytes M \<le> total_bytes (led_budget led)"

lemma charged_bytes_union [simp]: "charged_bytes (A + B) = charged_bytes A + charged_bytes B"
  by (simp add: charged_bytes_def)

lemma affordable_mono: "affordable led (A + B) \<Longrightarrow> affordable led A"
  unfolding affordable_def charged_union charged_bytes_union by (meson add_leD1)

lemma affordable_budget: "led_budget led' = led_budget led \<Longrightarrow> affordable led' M = affordable led M"
  unfolding affordable_def by (metis limit_cong)

lemma try_acquire_affordable:
  assumes "ledger_ok led L" "affordable led (add_mset \<lparr>lease_kind = k, lease_amount = a\<rparr> L)"
  obtains led' where "try_acquire led k a = (Ok \<lparr>lease_kind = k, lease_amount = a\<rparr>, led')"
    "ledger_ok led' (add_mset \<lparr>lease_kind = k, lease_amount = a\<rparr> L)" "led_budget led' = led_budget led"
proof -
  have r: "representable led" "led_total led = charged_bytes L" "led_used led k = charged L k" using assms(1) by (simp_all add: ledger_ok_def)
  have "charged (add_mset \<lparr>lease_kind = k, lease_amount = a\<rparr> L) k \<le> limit led k" using assms(2) unfolding affordable_def by blast
  moreover have "limit led k \<le> usize_max" using r(1) by (simp add: representable_def)
  ultimately have "charged L k + a \<le> min (limit led k) usize_max" by simp
  moreover have "is_bytes k \<longrightarrow> charged_bytes L + a \<le> total_bytes (led_budget led)"
    using conjunct2 [OF assms(2) [unfolded affordable_def]] by auto
  ultimately have "fits led k a usize_max" unfolding fits_def r(2,3) by blast
  note g = try_acquire_granted [OF r(1) this]
  define led' where "led' = snd (try_acquire led k a)"
  have t: "try_acquire led k a = (Ok \<lparr>lease_kind = k, lease_amount = a\<rparr>, led')"
    unfolding led'_def try_acquire_def g by (simp only: snd_conv)
  show thesis by (rule that [OF t try_acquire_keeps(1,2) [OF assms(1) t [unfolded try_acquire_def]]])
qed

lemma acquire_each_affordable:
  assumes "ledger_ok led (mset acc + L)" "affordable led (mset (map (\<lambda>(k, a). \<lparr>lease_kind = k, lease_amount = a\<rparr>) cs) + (mset acc + L))"
  shows "\<exists>led'. acquire_each try_acquire drop_lease led cs acc = (Ok (acc @ map (\<lambda>(k, a). \<lparr>lease_kind = k, lease_amount = a\<rparr>) cs), led') \<and>
    led_budget led' = led_budget led"
  using assms
proof (induction cs arbitrary: led acc)
  case (Cons c cs)
  obtain k a where c: "c = (k, a)" by fastforce
  let ?l = "\<lparr>lease_kind = k, lease_amount = a\<rparr>"
  have "affordable led (add_mset ?l (mset acc + L) + mset (map (\<lambda>(k, a). \<lparr>lease_kind = k, lease_amount = a\<rparr>) cs))"
    using Cons.prems(2) by (simp add: c ac_simps)
  then have "affordable led (add_mset ?l (mset acc + L))" by (rule affordable_mono)
  with Cons.prems(1) obtain led1 where t: "try_acquire led k a = (Ok ?l, led1)" "ledger_ok led1 (add_mset ?l (mset acc + L))"
    "led_budget led1 = led_budget led" by (rule try_acquire_affordable)
  have "ledger_ok led1 (mset (acc @ [?l]) + L)" using t(2) by (simp add: ac_simps)
  moreover have "affordable led1 (mset (map (\<lambda>(k, a). \<lparr>lease_kind = k, lease_amount = a\<rparr>) cs) + (mset (acc @ [?l]) + L))"
    using Cons.prems(2) unfolding affordable_budget [OF t(3)] by (simp add: c ac_simps)
  ultimately have "\<exists>led'. acquire_each try_acquire drop_lease led1 cs (acc @ [?l]) =
      (Ok ((acc @ [?l]) @ map (\<lambda>(k, a). \<lparr>lease_kind = k, lease_amount = a\<rparr>) cs), led') \<and> led_budget led' = led_budget led1"
    by (rule Cons.IH)
  then show ?case using t(1,3) by (simp add: c)
qed simp

text \<open>The leases of one fragment with \<open>n\<close> bytes of payload.\<close>

definition fragment_leases :: "nat \<Rightarrow> BudgetLease multiset" where
  "fragment_leases n = {#\<lparr>lease_kind = Fragments, lease_amount = 1\<rparr>, \<lparr>lease_kind = FragmentBytes, lease_amount = n\<rparr>,
     \<lparr>lease_kind = MetadataBytes, lease_amount = PIECE_METADATA_BYTES\<rparr>#}"

definition assembly_lease :: BudgetLease where
  "assembly_lease = \<lparr>lease_kind = MetadataBytes, lease_amount = ASSEMBLY_METADATA_BYTES\<rparr>"

lemma acquire_credit_affordable:
  assumes ok: "reassembler_ok others r"
    and a: "affordable (ra_ledger r) ((if fmlookup (ra_assemblies r) key = None then {#assembly_lease#} else {#}) +
      fragment_leases n + (held (ra_assemblies r) + others))"
  obtains c r' where "acquire_fragment_credit r key n = (Ok c, r')" "ra_assemblies r' = ra_assemblies r"
    "led_budget (ra_ledger r') = led_budget (ra_ledger r)"
proof -
  let ?new = "fmlookup (ra_assemblies r) key = None"
  let ?cs = "[(Fragments, 1), (FragmentBytes, n), (MetadataBytes, PIECE_METADATA_BYTES)] @
             (if ?new then [(MetadataBytes, ASSEMBLY_METADATA_BYTES)] else [])"
  have m: "mset (map (\<lambda>(k, a). \<lparr>lease_kind = k, lease_amount = a\<rparr>) ?cs) =
      (if ?new then {#assembly_lease#} else {#}) + fragment_leases n"
    by (simp add: fragment_leases_def assembly_lease_def)
  have "ledger_ok (ra_ledger r) (mset [] + (held (ra_assemblies r) + others))" using ok by (simp add: reassembler_ok_def store_ok_def)
  moreover have "affordable (ra_ledger r) (mset (map (\<lambda>(k, a). \<lparr>lease_kind = k, lease_amount = a\<rparr>) ?cs) + (mset [] + (held (ra_assemblies r) + others)))"
    unfolding m using a by simp
  ultimately have "\<exists>led'. acquire_each try_acquire drop_lease (ra_ledger r) ?cs [] =
      (Ok ([] @ map (\<lambda>(k, a). \<lparr>lease_kind = k, lease_amount = a\<rparr>) ?cs), led') \<and> led_budget led' = led_budget (ra_ledger r)"
    by (rule acquire_each_affordable)
  then obtain led' ls where g: "acquire_each try_acquire drop_lease (ra_ledger r) ?cs [] = (Ok ls, led')" "led_budget led' = led_budget (ra_ledger r)"
    by blast
  have "try_acquire_fragment_credit r n ?new = (Ok (credit_of ls), r\<lparr>ra_ledger := led'\<rparr>)"
    unfolding try_acquire_fragment_credit_def g(1) by simp
  then have "acquire_fragment_credit r key n = (Ok (credit_of ls), r\<lparr>ra_ledger := led'\<rparr>)"
    by (simp add: acquire_fragment_credit.simps [of r])
  then show thesis using that g(2) by simp
qed

section \<open>The budget stays\<close>

definition same_budget :: "Reassembler \<Rightarrow> Reassembler \<Rightarrow> bool" where
  "same_budget r r' \<longleftrightarrow> led_budget (ra_ledger r') = led_budget (ra_ledger r)"

lemma drop_lease_budget [simp]: "led_budget (drop_lease led l) = led_budget led"
  by (simp add: drop_lease_def give_back_def Let_def)

lemma drop_leases_budget [simp]: "same_budget r (drop_leases r' ls) = same_budget r r'"
proof -
  have "led_budget (foldl drop_lease led ls) = led_budget led" for led by (induction ls arbitrary: led) simp_all
  then show ?thesis by (simp add: same_budget_def drop_leases_def)
qed

lemma same_budget_refl [simp]: "same_budget r r"
  by (simp add: same_budget_def)

lemma same_budget_trans: "same_budget r s \<Longrightarrow> same_budget s t \<Longrightarrow> same_budget r t"
  by (simp add: same_budget_def)

lemma then_do_budget:
  "same_budget r (snd m) \<Longrightarrow> (\<And>x s. m = (Ok x, s) \<Longrightarrow> same_budget s (snd (f x s))) \<Longrightarrow> same_budget r (snd (then_do m f))"
  by (cases m; cases "fst m") (auto simp: then_do_def intro: same_budget_trans)

lemma take_assembly_budget: "same_budget r (snd (take_assembly r key))"
  by (simp add: take_assembly_def same_budget_def Let_def split: option.split)

lemma remove_assembly_budget: "same_budget r (snd (remove_assembly r key))"
  using take_assembly_budget [of r key] by (auto simp: remove_assembly_def same_budget_def split: prod.splits option.splits)

lemma discard_assembly_budget: "same_budget r (snd (discard_assembly r key))"
  using remove_assembly_budget [of r key] by (auto simp: discard_assembly_def split: prod.splits option.splits)

lemma expire_due_budget: "same_budget r (snd (expire_due r due mq ex))"
proof (induction due arbitrary: r ex)
  case (Cons key due)
  obtain x r1 where t: "take_assembly r key = (x, r1)" by fastforce
  then have r1: "same_budget r r1" using take_assembly_budget [of r key] by simp
  show ?case
  proof (cases x)
    case None
    show ?thesis unfolding expire_due.simps t None prod.case option.case by (rule same_budget_trans [OF r1 Cons.IH])
  next
    case (Some a)
    show ?thesis unfolding expire_due.simps t Some prod.case option.case Let_def
      by (rule same_budget_trans [OF _ Cons.IH]) (simp add: r1)
  qed
qed simp

lemma advance_current_budget: "same_budget r (snd (advance_current r now))"
  unfolding advance_current_def
proof (rule then_do_budget)
  show "same_budget r (snd (update_time r now))" by (simp add: update_time_def same_budget_def)
  fix x s
  show "same_budget s (snd (then_do (advance_wheel s now) (\<lambda>due r. let (expired, r) = expire_due r due 0 no_expirations
      in (Ok (fe_expired expired), add_expired r (fe_expired expired)))))"
  proof (rule then_do_budget)
    show "same_budget s (snd (advance_wheel s now))" by (simp add: advance_wheel_def same_budget_def split_beta)
    fix due t
    show "same_budget t (snd (let (expired, r) = expire_due t due 0 no_expirations
      in (Ok (fe_expired expired), add_expired r (fe_expired expired))))"
      using expire_due_budget [of t due 0 no_expirations] by (simp add: split_beta add_expired_def same_budget_def)
  qed
qed

lemma open_assembly_budget: "same_budget r (snd (open_assembly r key protocol now c))"
proof -
  have "ra_ledger (snd (eviction_loop n s created)) = ra_ledger s" for n s created
    by (induction n arbitrary: s) (simp_all add: Let_def)
  then have "ra_ledger (snd (next_eviction_key s created :: (FragmentError, nat \<times> nat) res \<times> Reassembler)) = ra_ledger s" for s created
    by (simp add: next_eviction_key_def split: prod.splits option.splits del: eviction_loop.simps) (metis snd_conv)
  then show ?thesis
    by (auto simp: open_assembly_def Let_def same_budget_def then_do_def drop_leases_budget [unfolded same_budget_def]
        split: option.splits prod.splits res.splits) (metis Reassembler.select_convs(1) Reassembler.surjective Reassembler.update_convs(6) snd_conv)+
qed

lemma add_piece_budget: "same_budget r (snd (add_piece r key f payload end header previous c))"
proof (cases "fmlookup (ra_assemblies r) key")
  case None then show ?thesis by (simp add: add_piece_def Let_def)
next
  case (Some a)
  have rb: "led_budget (ra_ledger t) = led_budget (ra_ledger s)" if "remove_assembly s key = (x, t)" for s t x
    using remove_assembly_budget [of s key] that by (simp add: same_budget_def)
  have d: "led_budget (ra_ledger (snd (discard_assembly s key))) = led_budget (ra_ledger s)"
    "led_budget (ra_ledger (drop_leases s ls)) = led_budget (ra_ledger s)" for s ls
    using discard_assembly_budget [of s key] drop_leases_budget [of s s ls] by (simp_all add: same_budget_def)
  let ?out = "\<lambda>A S1 S2 x a2. if A then (Err (FragMalformed ''conflicting final fragment lengths''), drop_leases (snd (discard_assembly S1 key)) x)
      else if \<not> is_complete a2 then (Ok None, S2)
      else case remove_assembly S2 key of
          (None, r) \<Rightarrow> (Err (FragMalformed ''complete assembly disappeared''), r)
        | (Some a, r) \<Rightarrow> (case rebuild a (fk_version key) of
            Ok packet \<Rightarrow> (Ok (Some packet), (drop_leases r (assembly_leases a))\<lparr>ra_stats := ra_stats (drop_leases r (assembly_leases a))
              \<lparr>fs_completed := sat_add (fs_completed (ra_stats (drop_leases r (assembly_leases a)))) 1\<rparr>\<rparr>)
          | Err e \<Rightarrow> (Err e, drop_leases r (assembly_leases a)) | Panic \<Rightarrow> (Panic, drop_leases r (assembly_leases a)))"
  have "\<exists>A S1 S2 x a2. add_piece r key f payload end header previous c = ?out A S1 S2 x a2 \<and> ra_ledger S1 = ra_ledger r \<and> ra_ledger S2 = ra_ledger r"
    unfolding add_piece_def Let_def Some option.case by (intro exI conjI) (rule refl, simp_all)
  then obtain A S1 S2 x a2 where o: "add_piece r key f payload end header previous c = ?out A S1 S2 x a2" "ra_ledger S1 = ra_ledger r" "ra_ledger S2 = ra_ledger r"
    by blast
  obtain y t where y: "remove_assembly S2 key = (y, t)" by fastforce
  show ?thesis
    unfolding same_budget_def o(1) y prod.case using rb [OF y] o(2,3) by (simp add: d split: option.split res.split)
qed

section \<open>Fragments of one datagram\<close>

abbreviation tiles :: "bytes list \<Rightarrow> (nat \<times> bytes) list" where
  "tiles cs \<equiv> Frag_Facts.place Pair 0 cs"

text \<open>What reassembly relies on of the fragments \<open>raw off c\<close> of a datagram: they parse to their place in it and have the
headers \<open>hdr off\<close>.\<close>

definition fragment_set ::
  "bool \<Rightarrow> ParsedIpPacket \<Rightarrow> u32 \<Rightarrow> bytes list \<Rightarrow> (nat \<Rightarrow> bytes \<Rightarrow> bytes) \<Rightarrow> (nat \<Rightarrow> bytes \<Rightarrow> bytes) \<Rightarrow> nat option \<Rightarrow> bool" where
  "fragment_set le ip ident cs raw hdr prev \<longleftrightarrow>
     tiling 0 (length (ip_payload ip)) cs \<and> cs \<noteq> [] \<and> length (ip_payload ip) \<le> MAX_REASSEMBLED_BYTES \<and>
     (\<forall>c\<in>set cs. length c < length (ip_payload ip)) \<and>
     (\<forall>c. (0, c) \<in> set (tiles cs) \<longrightarrow> \<not> reassembled_size_exceeds (ip_version ip) (length (hdr 0 c)) (length (ip_payload ip))) \<and>
     (\<forall>(off, c)\<in>set (tiles cs). parse_ip_packet le (raw off c) True = Ok (as_fragment ip ident off c) \<and>
        fragment_header (raw off c) (ip_version ip) = Ok (hdr off c, prev, ip_next_header ip) \<and>
        header_ok (ip_version ip) (hdr off c) prev \<and>
        \<not> reassembled_size_exceeds (ip_version ip) (length (hdr off c)) (off + length c))"

definition datagram_key :: "ParsedIpPacket \<Rightarrow> u32 \<Rightarrow> FragmentKey" where
  "datagram_key ip ident =
     \<lparr>fk_version = ip_version ip, fk_source = ip_source ip, fk_destination = ip_destination ip,
      fk_protocol = (if ip_version ip = IpV4 then ip_next_header ip else 0), fk_identification = wire_ident (ip_version ip) ident\<rparr>"

definition tile_info :: "ParsedIpPacket \<Rightarrow> u32 \<Rightarrow> nat \<Rightarrow> bytes \<Rightarrow> FragmentInfo" where
  "tile_info ip ident off c = \<lparr>identification = wire_ident (ip_version ip) ident, offset_bytes = word_of_nat off,
     more_fragments = off + length c < length (ip_payload ip)\<rparr>"

lemma place_aligned: "tiling e tot cs \<Longrightarrow> (off, c) \<in> set (Frag_Facts.place Pair e cs) \<Longrightarrow> off + length c < tot \<Longrightarrow> 8 dvd length c"
  by (induction cs arbitrary: e) auto

lemma tile_facts:
  assumes "fragment_set le ip ident cs raw hdr prev" "(off, c) \<in> set (tiles cs)"
  shows "unat (offset_bytes (tile_info ip ident off c)) = off" "\<not> is_atomic (tile_info ip ident off c)"
    "fragment_end (tile_info ip ident off c) (length c) = Ok (off + length c)"
    "validate_reassembled_size (ip_version ip) (length (hdr off c)) (off + length c) = Ok ()"
    "off + length c \<le> length (ip_payload ip)" "c \<noteq> []" "off + length c \<le> MAX_REASSEMBLED_BYTES"
proof -
  have t: "tiling 0 (length (ip_payload ip)) cs" "length (ip_payload ip) \<le> 65535" "\<forall>c\<in>set cs. length c < length (ip_payload ip)"
    using assms(1) by (simp_all add: fragment_set_def MAX_REASSEMBLED_BYTES_def)
  note p = place_in [OF t(1) _ assms(2), simplified]
  show l: "off + length c \<le> length (ip_payload ip)" "c \<noteq> []" "off + length c \<le> MAX_REASSEMBLED_BYTES" using p t(2) by (simp_all add: MAX_REASSEMBLED_BYTES_def)
  have "off < 2 ^ 32" using l(1) t(2) by simp
  then show u: "unat (offset_bytes (tile_info ip ident off c)) = off" by (simp add: tile_info_def unat_of_nat)
  have "off \<noteq> 0 \<or> off + length c < length (ip_payload ip)" using p(4,5) t(3) by auto
  then show "\<not> is_atomic (tile_info ip ident off c)" using u by (auto simp: is_atomic_def tile_info_def)
  have "off + length c < length (ip_payload ip) \<longrightarrow> length c mod 8 = 0" using place_aligned [OF t(1) assms(2)] by (simp add: dvd_eq_mod_eq_0)
  then show "fragment_end (tile_info ip ident off c) (length c) = Ok (off + length c)"
    using u l t(2) by (simp add: fragment_end_def MAX_REASSEMBLED_BYTES_def) (simp add: tile_info_def)
  show "validate_reassembled_size (ip_version ip) (length (hdr off c)) (off + length c) = Ok ()"
    using assms unfolding fragment_set_def validate_reassembled_size_def by auto
qed

text \<open>The fragments \<open>D\<close> have arrived, the first of them at \<open>t0\<close>.\<close>

definition holding :: "Reassembler \<Rightarrow> ParsedIpPacket \<Rightarrow> u32 \<Rightarrow> (nat \<times> bytes) set \<Rightarrow> bytes \<Rightarrow> nat option \<Rightarrow> nat \<Rightarrow> bool" where
  "holding r ip ident D header prev t0 \<longleftrightarrow>
     (case fmlookup (ra_assemblies r) (datagram_key ip ident) of
        None \<Rightarrow> D = {}
      | Some a \<Rightarrow> D \<noteq> {} \<and> gathers a D (length (ip_payload ip)) header prev (ip_next_header ip) \<and> as_created a = t0)"

lemma no_conflict:
  assumes fs: "fragment_set le ip ident cs raw hdr prev" and x: "(off, c) \<in> set (tiles cs)" "(off, c) \<notin> D" and D: "D \<subseteq> set (tiles cs)"
    and h: "holding r ip ident D (hdr 0 c0) prev t0" and c0: "(0, c0) \<in> set (tiles cs)" and ok: "reassembler_ok others r"
  shows "\<not> overlaps r (datagram_key ip ident) off (off + length c)"
    "\<not> conflicts r (datagram_key ip ident) (ip_next_header ip) (tile_info ip ident off c) (off + length c) (length (hdr off c))"
proof -
  have t: "tiling 0 (length (ip_payload ip)) cs" using fs by (simp add: fragment_set_def)
  note tf = tile_facts [OF fs x(1)]
  have "\<not> overlaps r (datagram_key ip ident) off (off + length c) \<and>
    \<not> conflicts r (datagram_key ip ident) (ip_next_header ip) (tile_info ip ident off c) (off + length c) (length (hdr off c))"
  proof (cases "fmlookup (ra_assemblies r) (datagram_key ip ident)")
    case None then show ?thesis by (simp add: overlaps_def conflicts_def)
  next
    case (Some a)
    have g: "gathers a D (length (ip_payload ip)) (hdr 0 c0) prev (ip_next_header ip)" using h Some by (simp add: holding_def)
    have aok: "assembly_ok (fk_version (datagram_key ip ident)) a" using ok Some by (simp add: reassembler_ok_def store_ok_def)
    have pe: "piece_end i (length (piece_bytes p)) = i + length (piece_bytes p)" if "fmlookup (as_pieces a) i = Some p" for i p
      using aok that by (intro piece_end_small) (auto simp: assembly_ok_def piece_ok_def)
    have pD: "(i, piece_bytes p) \<in> set (tiles cs)" "(i, piece_bytes p) \<in> D" if "fmlookup (as_pieces a) i = Some p" for i p
      using g that D unfolding gathers_def by blast+
    have dis: "\<not> (off < i + length (piece_bytes p) \<and> i < off + length c)" if "fmlookup (as_pieces a) i = Some p" for i p
    proof -
      have "i \<noteq> off" using pD [OF that] place_functional [OF t x(1)] x(2) by auto
      then show ?thesis using place_disjoint [OF t x(1) pD(1) [OF that]] place_disjoint [OF t pD(1) [OF that] x(1)]
        by (metis linorder_neqE_nat not_less)
    qed
    have ends: "i + length (piece_bytes p) \<le> length (ip_payload ip)" if "fmlookup (as_pieces a) i = Some p" for i p
      using place_in(3) [OF t _ pD(1) [OF that]] by simp
    have "\<not> overlaps r (datagram_key ip ident) off (off + length c)"
      unfolding overlaps_def using dis pe by (auto simp: Some list_ex_pieces)
    moreover have "\<not> conflicts r (datagram_key ip ident) (ip_next_header ip) (tile_info ip ident off c) (off + length c) (length (hdr off c))"
    proof -
      have "as_protocol a = ip_next_header ip" "as_total a \<in> {None, Some (length (ip_payload ip))}"
        "as_header a \<in> {None, Some (hdr 0 c0)}" using g by (simp_all add: gathers_def)
      moreover have z: "\<not> reassembled_size_exceeds (ip_version ip) (length (hdr 0 y)) (length (ip_payload ip))" if "(0, y) \<in> set (tiles cs)" for y
        using fs that unfolding fragment_set_def by blast
      moreover have "\<not> more_fragments (tile_info ip ident off c) \<Longrightarrow> off + length c = length (ip_payload ip)"
        using tf(5) by (simp add: tile_info_def)
      moreover have "offset_bytes (tile_info ip ident off c) = 0 \<longleftrightarrow> off = 0" using tf(1) by (auto simp: word_unat_eq_iff)
      moreover have "fk_version (datagram_key ip ident) = ip_version ip" by (simp add: datagram_key_def)
      ultimately show ?thesis
        using x(1) c0 tf(5) pe ends unfolding conflicts_def Some option.case
        by (auto simp: list_ex_pieces not_less split: option.splits if_splits)
    qed
    ultimately show ?thesis by blast
  qed
  then show "\<not> overlaps r (datagram_key ip ident) off (off + length c)"
    "\<not> conflicts r (datagram_key ip ident) (ip_next_header ip) (tile_info ip ident off c) (off + length c) (length (hdr off c))" by simp_all
qed

lemma held_smaller:
  assumes "smaller r r'" obtains X where "held (ra_assemblies r) = held (ra_assemblies r') + X"
proof -
  let ?f = "\<lambda>m k. mset (assembly_leases (the (fmlookup m k)))"
  have l: "fmlookup (ra_assemblies r) k = Some a" if "fmlookup (ra_assemblies r') k = Some a" for k a
    using assms that by (simp add: smaller_def)
  have sub: "fset (fmdom (ra_assemblies r')) \<subseteq> fset (fmdom (ra_assemblies r))" using l by (auto simp: fmlookup_dom_iff)
  have "held (ra_assemblies r) = sum (?f (ra_assemblies r)) (fset (fmdom (ra_assemblies r)) - fset (fmdom (ra_assemblies r'))) +
      sum (?f (ra_assemblies r)) (fset (fmdom (ra_assemblies r')))"
    unfolding fmap_sum_def by (rule sum.subset_diff [OF sub]) simp
  moreover have "sum (?f (ra_assemblies r)) (fset (fmdom (ra_assemblies r'))) = held (ra_assemblies r')"
    unfolding fmap_sum_def using l by (intro sum.cong refl) (auto simp: fmlookup_dom_iff)
  ultimately show thesis using that by (simp add: add.commute)
qed

lemma buffer_fragment_budget:
  assumes "acquire_fragment_credit r key (length payload) = (Ok c, r2)" "same_budget r r2"
  shows "same_budget r (snd (buffer_fragment r key protocol f payload end header previous))"
  unfolding buffer_fragment_def
  by (rule then_do_budget) (use assms in \<open>auto intro!: then_do_budget open_assembly_budget add_piece_budget\<close>)

lemma grown_leases:
  assumes "assembly_ok v (grown a f payload end header previous c)" "fmlookup (as_pieces a) (unat (offset_bytes f)) = None"
  shows "mset (assembly_leases (grown a f payload end header previous c)) = fragment_leases (length payload) + mset (assembly_leases a)"
proof -
  let ?p = "\<lparr>piece_bytes = payload, piece_slot = cr_slot c, piece_payload = cr_payload c, piece_metadata = cr_piece_metadata c\<rparr>"
  have "piece_ok (unat (offset_bytes f)) ?p" using assms(1) by (auto simp: assembly_ok_def)
  then have "mset (piece_leases ?p) = fragment_leases (length payload)" by (simp add: piece_ok_def piece_leases_def fragment_leases_def)
  then show ?thesis using assms(2) by (simp add: mset_assembly_leases fmap_sum_upd)
qed

lemma tile_step:
  assumes fs: "fragment_set le ip ident cs raw hdr prev" and x: "(off, c) \<in> set (tiles cs)" "(off, c) \<notin> D" and D: "D \<subseteq> set (tiles cs)"
    and c0: "(0, c0) \<in> set (tiles cs)" and ok: "reassembler_ok others r" and id: "next_id (ra_expiry r) < u64_max"
    and now: "ra_now r \<le> now" "now < u64_max" and h: "holding r ip ident D (hdr 0 c0) prev t0"
    and live: "D \<noteq> {} \<Longrightarrow> \<not> expiry_tick r t0 \<le> now div ra_tick r"
    and aff: "affordable (ra_ledger r) ((if D = {} then {#assembly_lease#} else {#}) + fragment_leases (length c) + rest + (held (ra_assemblies r) + others))"
  obtains
    (waiting) r' where "insert (off, c) D \<noteq> set (tiles cs)" "ingest le r (raw off c) now = (Ok None, r')" "reassembler_ok others r'"
      "same_times (r\<lparr>ra_now := now\<rparr>) r'" "next_id (ra_expiry r') \<le> next_id (ra_expiry r) + 1"
      "holding r' ip ident (insert (off, c) D) (hdr 0 c0) prev (if D = {} then now else t0)"
      "affordable (ra_ledger r') (rest + (held (ra_assemblies r') + others))"
  | (final) G r' where "insert (off, c) D = set (tiles cs)" "gathers G (set (tiles cs)) (length (ip_payload ip)) (hdr 0 c0) prev (ip_next_header ip)"
      "ingest le r (raw off c) now = (and_then (rebuild G (ip_version ip)) (\<lambda>packet. Ok (Some packet)), r')"
      "reassembler_ok others r'" "same_times (r\<lparr>ra_now := now\<rparr>) r'" "fmlookup (ra_assemblies r') (datagram_key ip ident) = None"
proof -
  let ?key = "datagram_key ip ident" and ?f = "tile_info ip ident off c" and ?stop = "off + length c" and ?tot = "length (ip_payload ip)"
  have t: "tiling 0 ?tot cs" "cs \<noteq> []" "?tot \<le> MAX_REASSEMBLED_BYTES" using fs by (simp_all add: fragment_set_def)
  have px: "parse_ip_packet le (raw off c) True = Ok (as_fragment ip ident off c)"
    "fragment_header (raw off c) (ip_version ip) = Ok (hdr off c, prev, ip_next_header ip)" "header_ok (ip_version ip) (hdr off c) prev"
    using fs x(1) unfolding fragment_set_def by auto
  note tf = tile_facts [OF fs x(1)]
  have kv: "fk_version ?key = ip_version ip" by (simp add: datagram_key_def)
  obtain k r1 where a: "advance_current r now = (Ok k, r1)" "reassembler_ok others r1" "same_times (r\<lparr>ra_now := now\<rparr>) r1"
    "next_id (ra_expiry r1) = next_id (ra_expiry r)" "smaller r r1"
    "now < u64_max \<longrightarrow> (\<forall>key a. fmlookup (ra_assemblies r) key = Some a \<longrightarrow>
       fmlookup (ra_assemblies r1) key = (if expiry_tick r (as_created a) \<le> now div ra_tick r then None else Some a))"
    using advance_current_ok(2) [OF ok less_imp_le [OF now(2)] now(1)] by (elim exE conjE)
  have n1: "ra_now r1 = now" and id1: "next_id (ra_expiry r1) < u64_max" using a(3,4) id by (simp_all add: same_times_def)
  have l1: "fmlookup (ra_assemblies r1) ?key = fmlookup (ra_assemblies r) ?key"
  proof (cases "fmlookup (ra_assemblies r) ?key")
    case None
    then show ?thesis using a(5) unfolding smaller_def by (metis not_Some_eq)
  next
    case (Some y)
    then have "D \<noteq> {}" "as_created y = t0" using h by (simp_all add: holding_def)
    then show ?thesis using a(6) now(2) Some live by simp
  qed
  have h1: "holding r1 ip ident D (hdr 0 c0) prev t0" using h by (simp add: holding_def l1)
  have D0: "D = {} \<longleftrightarrow> fmlookup (ra_assemblies r1) ?key = None" using h1 by (auto simp: holding_def split: option.splits)
  obtain X where X: "held (ra_assemblies r) = held (ra_assemblies r1) + X" using a(5) by (rule held_smaller)
  have b1: "led_budget (ra_ledger r1) = led_budget (ra_ledger r)" using advance_current_budget [of r now] by (simp add: a(1) same_budget_def)
  have aff1: "affordable (ra_ledger r1) ((if D = {} then {#assembly_lease#} else {#}) + fragment_leases (length c) + rest + (held (ra_assemblies r1) + others))"
    using aff affordable_mono [of _ _ X] unfolding affordable_budget [OF b1] X by (simp add: ac_simps)
  then have "affordable (ra_ledger r1) ((if fmlookup (ra_assemblies r1) ?key = None then {#assembly_lease#} else {#}) + fragment_leases (length c) + (held (ra_assemblies r1) + others))"
    using affordable_mono [of _ _ rest] unfolding D0 by (simp add: ac_simps)
  then obtain cr r2 where q: "acquire_fragment_credit r1 ?key (length c) = (Ok cr, r2)" "ra_assemblies r2 = ra_assemblies r1"
    "led_budget (ra_ledger r2) = led_budget (ra_ledger r1)" by (rule acquire_credit_affordable [OF a(2)])
  note nc = no_conflict [OF fs x D h1 c0 a(2)]
  have i: "ingest le r (raw off c) now = buffer_fragment r1 ?key (ip_next_header ip) ?f c ?stop (hdr off c) prev"
  proof -
    have "ip_fragment (as_fragment ip ident off c) = Some ?f" "ip_version (as_fragment ip ident off c) = ip_version ip"
      "c = (case ip_fragment_payload (as_fragment ip ident off c) of Some p \<Rightarrow> p | None \<Rightarrow> ip_payload (as_fragment ip ident off c))"
      "?key = fragment_key (as_fragment ip ident off c) ?f (ip_next_header ip)"
      by (simp_all add: as_fragment_def tile_info_def datagram_key_def fragment_key_def)
    then show ?thesis using ingest_eq [OF a(1,2) n1 px(1) _ tf(2,3), of "hdr off c" prev "ip_next_header ip" ?key] px(2) tf(1,4) nc by simp
  qed
  have sb: "same_budget r1 (snd (ingest le r (raw off c) now))"
    unfolding i by (rule buffer_fragment_budget [OF q(1)]) (simp add: same_budget_def q(3))
  have st: "same_times (r\<lparr>ra_now := now\<rparr>) r'" if "same_times r1 r'" for r' using a(3) that by (rule same_times_trans)
  have grow: "gathers (grown y ?f c ?stop (hdr off c) prev cr') (insert (off, c) D) ?tot (hdr 0 c0) prev (ip_next_header ip)"
    and y0: "fmlookup (as_pieces y) off = None" and yc: "as_created y = (if D = {} then now else t0)"
    if y: "fmlookup (ra_assemblies r2) ?key = Some y \<or> fmlookup (ra_assemblies r2) ?key = None \<and> fresh_assembly y (ip_next_header ip) (ra_now r1)" for y cr'
  proof -
    have g: "gathers y D ?tot (hdr 0 c0) prev (ip_next_header ip)"
      using y h1 D0 gathers_fresh unfolding q(2) holding_def by (auto split: option.splits)
    show "as_created y = (if D = {} then now else t0)"
      using y h1 D0 n1 unfolding q(2) holding_def by (auto simp: fresh_assembly_def split: option.splits)
    have nD: "(off, c') \<notin> D" for c' using D x place_functional [OF t(1) x(1), of c'] by blast
    then show "fmlookup (as_pieces y) off = None" using g unfolding gathers_def by (metis not_Some_eq)
    have "off = 0 \<Longrightarrow> hdr off c = hdr 0 c0 \<and> prev = prev" using place_functional [OF t(1) x(1), of c0] c0 by auto
    then show "gathers (grown y ?f c ?stop (hdr off c) prev cr') (insert (off, c) D) ?tot (hdr 0 c0) prev (ip_next_header ip)"
      using g tf(1,5) nD by (intro gathers_grown) (simp_all add: tile_info_def)
  qed
  have Dx: "insert (off, c) D \<subseteq> set (tiles cs)" using D x(1) by simp
  have hk: "offset_bytes ?f = 0 \<longrightarrow> header_ok (fk_version ?key) (hdr off c) prev" using px(3) kv by simp
  have en: "?stop = unat (offset_bytes ?f) + length c" using tf(1) by simp
  have nv: "\<not> overlaps r1 ?key (unat (offset_bytes ?f)) ?stop" using nc(1) tf(1) by simp
  show thesis
  proof (rule buffer_fragment_cases [OF a(2) id1 en tf(6,7) hk nv nc(2)])
    fix e r' assume w: "(\<exists>x s. acquire_fragment_credit r1 ?key (length c) = (Err x, s)) \<or>
        (\<exists>a. fmlookup (ra_assemblies r1) ?key = Some a \<and> \<not> more_fragments ?f \<and> as_total a \<notin> {None, Some ?stop})"
    have "as_total y \<in> {None, Some ?tot}" if "fmlookup (ra_assemblies r1) ?key = Some y" for y
      using h1 that by (auto simp: holding_def gathers_def)
    then show thesis using w q(1) tf(5) by (auto simp: tile_info_def)
  next
    fix y cr' r2' r'
    assume w: "acquire_fragment_credit r1 ?key (length c) = (Ok cr', r2')" "fmlookup (ra_assemblies r2') ?key = Some y \<or>
        fmlookup (ra_assemblies r2') ?key = None \<and> fresh_assembly y (ip_next_header ip) (ra_now r1)"
      "\<not> is_complete (grown y ?f c ?stop (hdr off c) prev cr')"
      "buffer_fragment r1 ?key (ip_next_header ip) ?f c ?stop (hdr off c) prev = (Ok None, r')" "reassembler_ok others r'" "same_times r1 r'"
      "next_id (ra_expiry r') \<le> next_id (ra_expiry r1) + 1"
      "ra_assemblies r' = fmupd ?key (grown y ?f c ?stop (hdr off c) prev cr') (ra_assemblies r2')"
    have r2: "r2' = r2" using w(1) q(1) by simp
    note y = w(2) [unfolded r2]
    note g = grow [OF y, of cr']
    have "insert (off, c) D \<noteq> set (tiles cs)" using complete_iff_all(1) [OF t g Dx] w(3) by simp
    moreover have "ingest le r (raw off c) now = (Ok None, r')" using i w(4) by simp
    moreover have "holding r' ip ident (insert (off, c) D) (hdr 0 c0) prev (if D = {} then now else t0)"
      using g yc [OF y] w(8) by (simp add: holding_def)
    moreover have "affordable (ra_ledger r') (rest + (held (ra_assemblies r') + others))"
    proof -
      let ?G = "grown y ?f c ?stop (hdr off c) prev cr'"
      have gok: "assembly_ok (fk_version ?key) ?G" using w(5,8) by (simp add: reassembler_ok_def store_ok_def)
      have lg: "mset (assembly_leases ?G) = fragment_leases (length c) + mset (assembly_leases y)"
        using grown_leases [OF gok] y0 [OF y] tf(1) by simp
      have "held (ra_assemblies r') = (if D = {} then {#assembly_lease#} else {#}) + fragment_leases (length c) + held (ra_assemblies r1)"
      proof (cases "D = {}")
        case True
        then have n: "fmlookup (ra_assemblies r1) ?key = None" "as_pieces y = fmempty" using D0 y unfolding q(2) by (auto simp: fresh_assembly_def)
        have "as_metadata y = assembly_lease" using gok by (simp add: assembly_ok_def assembly_lease_def)
        then have "mset (assembly_leases y) = {#assembly_lease#}" by (simp add: mset_assembly_leases n(2))
        then show ?thesis using True lg n(1) by (simp add: w(8) r2 q(2) fmap_sum_upd ac_simps)
      next
        case False
        then have n: "fmlookup (ra_assemblies r1) ?key = Some y" using D0 y unfolding q(2) by auto
        show ?thesis using False lg fmap_sum_drop [OF n, of "\<lambda>a. mset (assembly_leases a)"]
          by (simp add: w(8) r2 q(2) fmap_sum_upd ac_simps)
      qed
      moreover have "led_budget (ra_ledger r') = led_budget (ra_ledger r1)" using sb w(4) i by (simp add: same_budget_def)
      ultimately show ?thesis using aff1 by (simp add: affordable_budget [of "ra_ledger r'" "ra_ledger r1"] ac_simps)
    qed
    ultimately show thesis using w(5-7) st a(4) by (intro waiting) simp_all
  next
    fix y cr' r2' r'
    assume w: "acquire_fragment_credit r1 ?key (length c) = (Ok cr', r2')" "fmlookup (ra_assemblies r2') ?key = Some y \<or>
        fmlookup (ra_assemblies r2') ?key = None \<and> fresh_assembly y (ip_next_header ip) (ra_now r1)"
      "is_complete (grown y ?f c ?stop (hdr off c) prev cr')"
      "buffer_fragment r1 ?key (ip_next_header ip) ?f c ?stop (hdr off c) prev =
        (and_then (rebuild (grown y ?f c ?stop (hdr off c) prev cr') (fk_version ?key)) (\<lambda>packet. Ok (Some packet)), r')"
      "reassembler_ok others r'" "same_times r1 r'" "ra_assemblies r' = fmdrop ?key (ra_assemblies r2')"
    have r2: "r2' = r2" using w(1) q(1) by simp
    note g = grow [OF w(2) [unfolded r2], of cr']
    have e: "insert (off, c) D = set (tiles cs)" using complete_iff_all(1) [OF t g Dx] w(3) by simp
    show thesis using e g w st i kv by (intro final [of "grown y ?f c ?stop (hdr off c) prev cr'" r']) simp_all
  qed
qed

end
