(* ===== verification/Reassembly_Trip.thy ===== *)
theory Reassembly_Trip
  imports Reassembly_Gather
begin

unbundle bit_operations_syntax

text \<open>
  Rebuilding a datagram from its fragments: what \<open>rebuild\<close> makes of the pieces, the headers of the fragments that
  \<open>fragment_outbound_ip_packet\<close> emits, their arrival in any order, and the properties of the reassembler.
\<close>

section \<open>The rebuilt datagram\<close>

lemma pair_sum_eq:
  assumes "even (length h)" "length h \<le> 60" "unat acc + word_sum h < 2 ^ 32"
  shows "unat (pair_sum h acc) = unat acc + word_sum h"
  using assms
proof (induction h acc rule: pair_sum.induct)
  case (1 a b rest acc)
  have u: "unat (ucast (be16 a b) :: u32) = unat (be16 a b)" by (rule unat_ucast_up) simp
  have s: "unat (acc + ucast (be16 a b)) = unat acc + unat (be16 a b)"
    using "1.prems"(3) u by (simp add: unat_word_ariths)
  have "unat (pair_sum rest (acc + ucast (be16 a b))) = unat (acc + ucast (be16 a b)) + word_sum rest"
    using "1.prems" s by (intro "1.IH") simp_all
  then show ?case using s by simp
qed simp_all

text \<open>The reassembler's own IPv4 checksum is the stack's.\<close>

lemma ipv4_checksum_eq:
  assumes "even (length h)" "length h \<le> 60"
  shows "ipv4_checksum h = finalize_checksum (checksum_sum le h 0)"
proof -
  have "word_sum h \<le> (length h + 1) * 65535" by (rule word_sum_bound)
  also have "\<dots> \<le> 61 * 65535" using assms(2) by (intro mult_le_mono1) simp
  finally have "word_sum h < 2 ^ 32" by simp
  then have "unat (pair_sum h 0) = word_sum h" using pair_sum_eq [OF assms, of 0] by simp
  then have "unat (fold_checksum (pair_sum h 0)) = unat (checksum_sum le h 0)"
    using unat_checksum_sum [of h le 0] assms(2) by (simp add: unat_fold)
  then have "fold_checksum (pair_sum h 0) = checksum_sum le h 0" by (simp only: word_unat_eq_iff)
  then show ?thesis by (simp add: ipv4_checksum_def finalize_checksum_def)
qed

lemma to_be16_be16: "to_be16 (be16 a b) = [a, b]"
proof -
  have "unat (ucast (drop_bit 8 (be16 a b)) :: u8) = unat a" "unat (ucast (be16 a b) :: u8) = unat b"
    using unat_u8_bound(1) [of a] unat_u8_bound(1) [of b] by (simp_all add: unat_ucast8 unat_drop_div unat_be16)
  then show ?thesis by (simp add: to_be16_def word_unat_eq_iff)
qed

lemma gathered_packet:
  assumes "tiling 0 tot cs" "cs \<noteq> []" "tot \<le> MAX_REASSEMBLED_BYTES" "gathers G (set (tiles cs)) tot header prev protocol"
  shows "as_header G = Some header" "as_previous G = prev" "as_protocol G = protocol"
    "concat (map (\<lambda>(i, p). piece_bytes p) (piece_list G)) = concat cs"
proof -
  note c = complete_iff_all(2) [OF assms subset_refl refl]
  show "as_header G = Some header" "as_previous G = prev" using c by simp_all
  show "as_protocol G = protocol" using assms(4) by (simp add: gathers_def)
  have "map snd (Frag_Facts.place Pair e cs) = cs" for e by (induction cs arbitrary: e) simp_all
  moreover have "map (\<lambda>(i, p). piece_bytes p) (piece_list G) = map snd (map (\<lambda>(i, p). (i, piece_bytes p)) (piece_list G))"
    by (simp add: comp_def case_prod_unfold)
  ultimately show "concat (map (\<lambda>(i, p). piece_bytes p) (piece_list G)) = concat cs" using c by metis
qed

lemma rebuild_v6:
  assumes "length s = 16" "length d = 16" "length payload \<le> 65535" "as_header G = Some ([v0, v1, v2, v3] @ to_be16 n @ [44, hop] @ s @ d)"
    "as_previous G = Some 6" "as_protocol G = nh" "concat (map (\<lambda>(i, p). piece_bytes p) (piece_list G)) = payload"
  shows "rebuild G IpV6 = Ok ([v0, v1, v2, v3] @ to_be16 (word_of_nat (length payload)) @ [nh, hop] @ s @ d @ payload)"
  using assms by (simp add: rebuild_def Let_def store_def copy_at_def try_u16_simps sat_sub_def to_be16_def)

lemma rebuild_v4:
  assumes "length s = 4" "length d = 4" "unat (b0 AND 0x0f) * 4 = 20 + length opts" "20 + length opts + length payload \<le> 65535"
    "as_header G = Some ([b0, tos] @ to_be16 n @ to_be16 i @ to_be16 bits @ [hop, proto] @ to_be16 ck @ s @ d @ opts)"
    "concat (map (\<lambda>(i, p). piece_bytes p) (piece_list G)) = payload"
  shows "rebuild G IpV4 = Ok (frag4 le b0 tos i 0 hop proto s d opts payload)"
proof -
  let ?pre = "[b0, tos] @ to_be16 (word_of_nat (20 + length opts + length payload)) @ to_be16 i @ to_be16 0 @ [hop, proto]"
  let ?h = "?pre @ [0, 0] @ s @ d @ opts"
  have "b0 AND 0x0f \<le> 0x0f" by (rule word_and_le1)
  then have "unat (b0 AND 0x0f) \<le> 15" by (simp add: word_le_nat_alt)
  moreover have "length ?h = 20 + length opts" using assms(1,2) by (simp add: to_be16_def)
  ultimately have ck: "ipv4_checksum ?h = finalize_checksum (checksum_sum le ?h 0)"
  proof (intro ipv4_checksum_eq)
    assume l: "unat (b0 AND 0x0f) \<le> 15" "length ?h = 20 + length opts"
    have "length ?h = unat (b0 AND 0x0f) * 4" using l(2) assms(3) by simp
    then show "even (length ?h)" "length ?h \<le> 60" using l(1) by (simp_all only:) simp_all
  qed
  have z: "to_be16 0 = [0, 0]" by (simp add: to_be16_def)
  have tk: "take (20 + length opts) (?pre @ [0, 0] @ s @ d @ opts @ payload) = ?h"
    using assms(1,2) by (simp add: to_be16_def take_Cons' numeral_eq_Suc)
  have l: "length ([b0, tos] @ to_be16 n @ to_be16 i @ to_be16 bits @ [hop, proto] @ to_be16 ck' @ s @ d @ opts @ payload) = 20 + length opts + length payload"
    for n i bits ck' using assms(1,2) by (simp add: to_be16_def)
  have "rebuild G IpV4 = and_then (slice (?pre @ [0, 0] @ s @ d @ opts @ payload) 0 (20 + length opts)) (\<lambda>header.
      copy_at (?pre @ [0, 0] @ s @ d @ opts @ payload) 10 12 (to_be16 (ipv4_checksum header)))"
    using assms by (simp add: rebuild_def Let_def copy_at_def idx_def try_u16_simps to_be16_def del: of_nat_add)
  also have "\<dots> = copy_at (?pre @ [0, 0] @ s @ d @ opts @ payload) 10 12 (to_be16 (finalize_checksum (checksum_sum le ?h 0)))"
  proof -
    have "20 + length opts \<le> length (?pre @ [0, 0] @ s @ d @ opts @ payload)" using assms(1,2) by (simp add: to_be16_def)
    then have "slice (?pre @ [0, 0] @ s @ d @ opts @ payload) 0 (20 + length opts) = (Ok ?h :: (FragmentError, bytes) res)"
      unfolding slice_def drop_0 diff_zero tk by (simp only: le0 simp_thms if_True)
    then show ?thesis unfolding ck [symmetric] by (simp only: and_then.simps)
  qed
  also have "\<dots> = Ok (frag4 le b0 tos i 0 hop proto s d opts payload)"
    using assms(1,2) by (simp add: copy_at_def frag4_def Let_def z)
  finally show ?thesis .
qed

section \<open>The fragments of the stack\<close>

lemma fragment_set_v6:
  assumes "length s = 16" "length d = 16" "no_extension nh" "length payload \<le> 65535" "concat cs = payload" "tiling 0 (length payload) cs"
    "\<forall>c\<in>set cs. length c < length payload" "cs \<noteq> []"
    "ip = \<lparr>ip_version = IpV6, ip_source = V6 s, ip_destination = V6 d, ip_next_header = nh, ip_hop_limit = hop,
       ip_fragment = None, ip_fragment_payload = None, ip_payload = payload\<rparr>"
    "\<And>off c. (off, c) \<in> set (tiles cs) \<Longrightarrow>
       parse_ip_packet le (raw6 v0 v1 v2 v3 nh hop s d ident (length payload) off c) True = Ok (as_fragment ip ident off c)"
  shows "fragment_set le ip ident cs (raw6 v0 v1 v2 v3 nh hop s d ident (length payload))
    (\<lambda>off c. [v0, v1, v2, v3] @ to_be16 (word_of_nat (8 + length c)) @ [44, hop] @ s @ d) (Some 6)"
proof -
  have h: "fragment_header (raw6 v0 v1 v2 v3 nh hop s d ident (length payload) off c) IpV6 =
      Ok ([v0, v1, v2, v3] @ to_be16 (word_of_nat (8 + length c)) @ [44, hop] @ s @ d, Some 6, nh)" for off c
  proof -
    let ?p = "raw6 v0 v1 v2 v3 nh hop s d ident (length payload) off c"
    have l: "length ?p = 48 + length c" using assms(1,2) by (simp add: raw6_def)
    have t: "take 40 ?p = [v0, v1, v2, v3] @ to_be16 (word_of_nat (8 + length c)) @ [44, hop] @ s @ d"
      using assms(1,2) by (simp add: raw6_def to_be16_def del: of_nat_add)
    have n: "?p ! 6 = 44" "?p ! 40 = nh" using assms(1,2) by (simp_all add: raw6_def to_be16_def nth_append nth_Cons' del: of_nat_add)
    have e8: "(8::nat) = Suc 7" by simp
    have "slice ?p 0 40 = (Ok ([v0, v1, v2, v3] @ to_be16 (word_of_nat (8 + length c)) @ [44, hop] @ s @ d) :: (FragmentError, bytes) res)"
      using l t by (simp add: slice_def)
    then have "ipv6_header_loop 8 ?p 44 40 6 = Ok ([v0, v1, v2, v3] @ to_be16 (word_of_nat (8 + length c)) @ [44, hop] @ s @ d, Some 6, nh)"
      unfolding e8 ipv6_header_loop.simps using l n(2) by (simp add: idx_def)
    then show ?thesis using l n(1) by (simp add: fragment_header_def ipv6_fragment_header_def idx_def del: ipv6_header_loop.simps)
  qed
  have b: "off + length c \<le> length payload" if "(off, c) \<in> set (tiles cs)" for off c using place_in(3) [OF assms(6) _ that] by simp
  have l: "length ([v0, v1, v2, v3] @ to_be16 w @ [44, hop] @ s @ d) = 40" for w using assms(1,2) by simp
  have z: "\<not> reassembled_size_exceeds IpV6 40 k" if "k \<le> length payload" for k
    using that assms(4) by (simp add: reassembled_size_exceeds_def checked_sub_def checked_add_def)
  have o: "header_ok IpV6 ([v0, v1, v2, v3] @ to_be16 w @ [44, hop] @ s @ d) (Some 6)" for w
    unfolding header_ok_def IpVersion.case l by simp
  have ip: "ip_version ip = IpV6" "ip_next_header ip = nh" "ip_payload ip = payload" by (simp_all add: assms(9))
  show ?thesis
    unfolding fragment_set_def ip l using assms(4,6-8) h b o z assms(10) by (auto simp: MAX_REASSEMBLED_BYTES_def simp del: append.simps)
qed

lemma frag4_header:
  assumes "length s = 4" "length d = 4" "unat (b AND 0x0f) * 4 = 20 + length opts"
  shows "fragment_header (frag4 le b tos i bits hop proto s d opts c) IpV4 =
    Ok (take (20 + length opts) (frag4 le b tos i bits hop proto s d opts c), None, proto)"
    "\<exists>n ck. take (20 + length opts) (frag4 le b tos i bits hop proto s d opts c) =
      [b, tos] @ to_be16 n @ to_be16 i @ to_be16 bits @ [hop, proto] @ to_be16 ck @ s @ d @ opts"
    "length (take (20 + length opts) (frag4 le b tos i bits hop proto s d opts c)) = 20 + length opts"
    "header_ok IpV4 (take (20 + length opts) (frag4 le b tos i bits hop proto s d opts c)) None"
proof -
  let ?p = "frag4 le b tos i bits hop proto s d opts c"
  have l: "length ?p = 20 + length opts + length c" using assms(1,2) by (simp add: frag4_def Let_def)
  have n: "?p ! 0 = b" "?p ! 9 = proto" by (simp_all add: frag4_def Let_def to_be16_def del: of_nat_add)
  show "fragment_header ?p IpV4 = Ok (take (20 + length opts) ?p, None, proto)"
    using l n assms(3) by (simp add: fragment_header_def idx_def slice_def)
  show "\<exists>n ck. take (20 + length opts) ?p = [b, tos] @ to_be16 n @ to_be16 i @ to_be16 bits @ [hop, proto] @ to_be16 ck @ s @ d @ opts"
    using assms(1,2) by (intro exI) (simp add: frag4_def Let_def to_be16_def take_Cons' numeral_eq_Suc del: of_nat_add)
  show t: "length (take (20 + length opts) ?p) = 20 + length opts" using l by simp
  show "header_ok IpV4 (take (20 + length opts) ?p) None" using n(1) assms(3) t by (simp add: header_ok_def)
qed

lemma fragment_set_v4:
  assumes "length s = 4" "length d = 4" "unat (b0 AND 0x0f) * 4 = 20 + length opts" "20 + length opts + length payload \<le> 65535"
    "length copied \<le> length opts" "length copied \<le> 40" "4 dvd length copied" "concat cs = payload" "tiling 0 (length payload) cs"
    "\<forall>c\<in>set cs. length c < length payload" "cs \<noteq> []"
    "ip = \<lparr>ip_version = IpV4, ip_source = V4 s, ip_destination = V4 d, ip_next_header = proto, ip_hop_limit = hop,
       ip_fragment = None, ip_fragment_payload = None, ip_payload = payload\<rparr>"
    "\<And>off c. (off, c) \<in> set (tiles cs) \<Longrightarrow>
       parse_ip_packet le (raw4 le b0 tos i hop proto s d opts copied (length payload) off c) True = Ok (as_fragment ip ident off c)"
  shows "fragment_set le ip ident cs (raw4 le b0 tos i hop proto s d opts copied (length payload))
    (\<lambda>off c. take (20 + length (if off = 0 then opts else copied)) (raw4 le b0 tos i hop proto s d opts copied (length payload) off c)) None"
proof -
  note b = later_b0 [OF assms(6,7)]
  have h: "fragment_header (raw4 le b0 tos i hop proto s d opts copied (length payload) off c) IpV4 =
      Ok (take (20 + length (if off = 0 then opts else copied)) (raw4 le b0 tos i hop proto s d opts copied (length payload) off c), None, proto)"
    "header_ok IpV4 (take (20 + length (if off = 0 then opts else copied)) (raw4 le b0 tos i hop proto s d opts copied (length payload) off c)) None"
    "length (take (20 + length (if off = 0 then opts else copied)) (raw4 le b0 tos i hop proto s d opts copied (length payload) off c)) =
      20 + length (if off = 0 then opts else copied)" for off c
    using frag4_header [OF assms(1-3)] frag4_header [OF assms(1,2) b(1)] unfolding raw4_def by simp_all
  have e: "off + length c \<le> length payload" if "(off, c) \<in> set (tiles cs)" for off c using place_in(3) [OF assms(9) _ that] by simp
  have z: "\<not> reassembled_size_exceeds IpV4 (20 + length (if off = 0 then opts else copied)) k" if "k \<le> length payload" for off k :: nat
  proof -
    have "length (if off = 0 then opts else copied) \<le> length opts" using assms(5) by simp
    then show ?thesis using that assms(4) by (simp only: reassembled_size_exceeds_def checked_add_def IpVersion.case Let_def) simp
  qed
  have ip: "ip_version ip = IpV4" "ip_next_header ip = proto" "ip_payload ip = payload" by (simp_all add: assms(12))
  show ?thesis
    unfolding fragment_set_def ip h(3) using assms(4,9-11) h(1,2) e z z [of _ 0, unfolded if_P [OF refl]] assms(13)
    by (auto simp: MAX_REASSEMBLED_BYTES_def)
qed

section \<open>All fragments, in any order\<close>

fun ingest_all :: "bool \<Rightarrow> Reassembler \<Rightarrow> (bytes \<times> nat) list \<Rightarrow> (FragmentError, bytes option) res list \<times> Reassembler" where
  "ingest_all le r [] = ([], r)"
| "ingest_all le r ((packet, now) # rest) =
     (let (x, r) = ingest le r packet now; (xs, r) = ingest_all le r rest in (x # xs, r))"

definition tile_leases :: "(nat \<times> bytes) list \<Rightarrow> BudgetLease multiset" where
  "tile_leases xs = sum_list (map (\<lambda>x. fragment_leases (length (snd x))) xs)"

lemma last_one: "D \<union> insert y X = T \<Longrightarrow> D \<inter> insert y X = {} \<Longrightarrow> insert y D = T \<Longrightarrow> y \<notin> X \<Longrightarrow> X = {}"
  by auto

lemma tiles_arrive:
  assumes fs: "fragment_set le ip ident cs raw hdr prev" and c0: "(0, c0) \<in> set (tiles cs)"
    and D: "D \<union> set (map fst xs) = set (tiles cs)" "D \<inter> set (map fst xs) = {}" "distinct (map fst xs)" "xs \<noteq> []"
    and ok: "reassembler_ok others r" and id: "next_id (ra_expiry r) + length xs \<le> u64_max"
    and ts: "sorted (map snd xs)" "ra_now r \<le> snd (hd xs)" "\<forall>t\<in>set (map snd xs). t < u64_max"
      "\<forall>t\<in>set (map snd xs). t < (if D = {} then snd (hd xs) else t0) + effective_timeout r (ra_divisor r)"
    and h: "holding r ip ident D (hdr 0 c0) prev t0"
    and aff: "affordable (ra_ledger r) ((if D = {} then {#assembly_lease#} else {#}) + tile_leases (map fst xs) + (held (ra_assemblies r) + others))"
  shows "\<exists>G r'. ingest_all le r (map (\<lambda>((off, c), t). (raw off c, t)) xs) =
      (replicate (length xs - 1) (Ok None) @ [and_then (rebuild G (ip_version ip)) (\<lambda>packet. Ok (Some packet))], r') \<and>
    gathers G (set (tiles cs)) (length (ip_payload ip)) (hdr 0 c0) prev (ip_next_header ip) \<and>
    reassembler_ok others r' \<and> fmlookup (ra_assemblies r') (datagram_key ip ident) = None"
  using D ok id ts h aff
proof (induction xs arbitrary: D r t0)
  case (Cons x xs)
  obtain off c t where x: "x = ((off, c), t)" by (metis prod.exhaust)
  have xt: "(off, c) \<in> set (tiles cs)" "(off, c) \<notin> D" "D \<subseteq> set (tiles cs)" using Cons.prems(1,2) by (auto simp: x)
  have t: "ra_now r \<le> t" "t < u64_max" "t < (if D = {} then t else t0) + effective_timeout r (ra_divisor r)" using Cons.prems(8-10) by (auto simp: x split: if_splits)
  have tick: "0 < ra_tick r" using Cons.prems(5) by (simp add: reassembler_ok_def clock_link_def FRAGMENT_TIMER_MIN_TICK_MS_def)
  have live: "\<not> expiry_tick r t0 \<le> t div ra_tick r" if "D \<noteq> {}"
    using tick_due(1) [OF tick t(2), of t0 "effective_timeout r (ra_divisor r)"] t(3) that by (auto simp: expiry_tick_def)
  have id: "next_id (ra_expiry r) < u64_max" using Cons.prems(6) by simp
  have aff: "affordable (ra_ledger r) ((if D = {} then {#assembly_lease#} else {#}) + fragment_leases (length c) + tile_leases (map fst xs) +
      (held (ra_assemblies r) + others))" using Cons.prems(12) by (simp add: tile_leases_def x ac_simps)
  show ?case
  proof (rule tile_step [OF fs xt c0 Cons.prems(5) id t(1,2) Cons.prems(11) _ aff])
    show "D \<noteq> {} \<Longrightarrow> \<not> expiry_tick r t0 \<le> t div ra_tick r" by (rule live)
  next
    fix r' assume 2: "insert (off, c) D \<noteq> set (tiles cs)" "ingest le r (raw off c) t = (Ok None, r')" "reassembler_ok others r'"
      "same_times (r\<lparr>ra_now := t\<rparr>) r'" "next_id (ra_expiry r') \<le> next_id (ra_expiry r) + 1"
      "holding r' ip ident (insert (off, c) D) (hdr 0 c0) prev (if D = {} then t else t0)"
      "affordable (ra_ledger r') (tile_leases (map fst xs) + (held (ra_assemblies r') + others))"
    let ?D = "insert (off, c) D"
    have ne: "xs \<noteq> []" using 2(1) Cons.prems(1) by (auto simp: x)
    then obtain y ys where y: "xs = y # ys" by (cases xs) auto
    have times: "effective_timeout r' (ra_divisor r') = effective_timeout r (ra_divisor r)" "ra_now r' = t"
      using 2(4) by (simp_all add: same_times_def effective_timeout_def)
    have s4: "\<forall>u\<in>set (map snd xs). u < (if ?D = {} then snd (hd xs) else (if D = {} then t else t0)) + effective_timeout r' (ra_divisor r')"
      using Cons.prems(10) times by (auto simp: x split: if_splits)
    have d: "?D \<union> set (map fst xs) = set (tiles cs)" "?D \<inter> set (map fst xs) = {}" "distinct (map fst xs)"
      using Cons.prems(1-3) by (auto simp: x)
    have i: "next_id (ra_expiry r') + length xs \<le> u64_max" using 2(5) Cons.prems(6) by simp
    have s3: "sorted (map snd xs)" "ra_now r' \<le> snd (hd xs)" "\<forall>t\<in>set (map snd xs). t < u64_max"
      using Cons.prems(7,9) times(2) by (simp_all add: x y)
    have af: "affordable (ra_ledger r') ((if ?D = {} then {#assembly_lease#} else {#}) + tile_leases (map fst xs) + (held (ra_assemblies r') + others))"
      using 2(7) by simp
    obtain G s where ih: "ingest_all le r' (map (\<lambda>((off, c), t). (raw off c, t)) xs) =
        (replicate (length xs - 1) (Ok None) @ [and_then (rebuild G (ip_version ip)) (\<lambda>packet. Ok (Some packet))], s)"
      "gathers G (set (tiles cs)) (length (ip_payload ip)) (hdr 0 c0) prev (ip_next_header ip)"
      "reassembler_ok others s" "fmlookup (ra_assemblies s) (datagram_key ip ident) = None"
      using Cons.IH [OF d ne 2(3) i s3 s4 2(6) af] by (elim exE conjE)
    show ?thesis using ih 2(2) y by (intro exI [of _ G] exI [of _ s]) (simp add: x)
  next
    fix G r' assume 3: "insert (off, c) D = set (tiles cs)" "gathers G (set (tiles cs)) (length (ip_payload ip)) (hdr 0 c0) prev (ip_next_header ip)"
      "ingest le r (raw off c) t = (and_then (rebuild G (ip_version ip)) (\<lambda>packet. Ok (Some packet)), r')"
      "reassembler_ok others r'" "same_times (r\<lparr>ra_now := t\<rparr>) r'" "fmlookup (ra_assemblies r') (datagram_key ip ident) = None"
    have e: "set (map fst (x # xs)) = insert (off, c) (set (map fst xs))" by (simp add: x)
    have n: "(off, c) \<notin> set (map fst xs)" using Cons.prems(3) by (simp add: x)
    have "set (map fst xs) = {}" by (rule last_one [OF Cons.prems(1,2) [unfolded e] 3(1) n])
    then have xs: "xs = []" by simp
    have o: "ingest_all le r (map (\<lambda>((off, c), t). (raw off c, t)) (x # xs)) =
        (replicate (length (x # xs) - 1) (Ok None) @ [and_then (rebuild G (ip_version ip)) (\<lambda>packet. Ok (Some packet))], r')"
      unfolding xs by (simp add: x 3(3))
    show ?thesis by (rule exI [of _ G], rule exI [of _ r'], intro conjI, rule o, rule 3(2), rule 3(4), rule 3(6))
  qed
qed simp

text \<open>Arrivals in any order are the tiles in some order.\<close>

lemma mset_map_order:
  assumes "mset zs = mset (map f ys)" obtains xs where "mset xs = mset ys" "map f xs = zs"
  using assms
proof (induction zs arbitrary: ys thesis)
  case (Cons z zs)
  then have "z \<in> set (map f ys)" by (metis list.set_intros(1) mset_eq_setD)
  then obtain y where y: "y \<in> set ys" "z = f y" by auto
  then obtain as bs where ys: "ys = as @ y # bs" by (meson split_list)
  then have "mset zs = mset (map f (as @ bs))" using Cons.prems(2) y(2) by simp
  then obtain xs where "mset xs = mset (as @ bs)" "map f xs = zs" using Cons.IH by blast
  then show ?case using Cons.prems(1) [of "y # xs"] ys y(2) by simp
qed simp

definition fragment_payload_len :: "bool \<Rightarrow> bytes \<Rightarrow> nat" where
  "fragment_payload_len le frag = (case parse_ip_packet le frag True of Ok ip \<Rightarrow> length (ip_payload ip) | _ \<Rightarrow> 0)"

text \<open>What the fragments of a datagram are charged.\<close>

definition datagram_leases :: "bool \<Rightarrow> bytes list \<Rightarrow> BudgetLease multiset" where
  "datagram_leases le frags = {#assembly_lease#} + sum_list (map (\<lambda>frag. fragment_leases (fragment_payload_len le frag)) frags)"

lemma round_trip:
  assumes fs: "fragment_set le ip ident cs raw hdr prev" and frags: "frags = Frag_Facts.place raw 0 cs"
    and arr: "mset (map fst arrivals) = mset frags"
    and ts: "sorted (map snd arrivals)" "\<forall>t\<in>set (map snd arrivals). ra_now r \<le> t \<and> t < u64_max \<and>
      t < snd (hd arrivals) + effective_timeout r (ra_divisor r)"
    and ok: "reassembler_ok others r" "fmlookup (ra_assemblies r) (datagram_key ip ident) = None"
      "next_id (ra_expiry r) + length arrivals \<le> u64_max"
    and aff: "affordable (ra_ledger r) (datagram_leases le frags + (held (ra_assemblies r) + others))"
  obtains G r' where "ingest_all le r arrivals = (replicate (length arrivals - 1) (Ok None) @
      [and_then (rebuild G (ip_version ip)) (\<lambda>packet. Ok (Some packet))], r')"
    "gathers G (set (tiles cs)) (length (ip_payload ip)) (hdr 0 (hd cs)) prev (ip_next_header ip)"
    "reassembler_ok others r'" "fmlookup (ra_assemblies r') (datagram_key ip ident) = None"
proof -
  have t: "tiling 0 (length (ip_payload ip)) cs" "cs \<noteq> []" using fs by (simp_all add: fragment_set_def)
  have "mset (map fst arrivals) = mset (map (\<lambda>(off, c). raw off c) (tiles cs))" using arr unfolding frags place_map [of raw] .
  then obtain ys where ys: "mset ys = mset (tiles cs)" "map (\<lambda>(off, c). raw off c) ys = map fst arrivals" by (rule mset_map_order)
  define xs where "xs = zip ys (map snd arrivals)"
  have l: "length ys = length arrivals" using ys(2) by (metis length_map)
  then have x: "map fst xs = ys" "map snd xs = map snd arrivals" "length xs = length arrivals" by (simp_all add: xs_def)
  have a: "map (\<lambda>((off, c), t). (raw off c, t)) xs = arrivals"
  proof (rule nth_equalityI)
    fix i assume i: "i < length (map (\<lambda>((off, c), t). (raw off c, t)) xs)"
    then have i': "i < length ys" "i < length arrivals" using x(3) l by simp_all
    have "(\<lambda>(off, c). raw off c) (ys ! i) = fst (arrivals ! i)" using ys(2) i' by (metis nth_map)
    then show "map (\<lambda>((off, c), t). (raw off c, t)) xs ! i = arrivals ! i"
      using i i' by (simp add: xs_def split_beta prod_eq_iff)
  qed (simp add: x(3))
  have set: "set ys = set (tiles cs)" "distinct ys" using ys(1) place_distinct [OF t(1)] by (metis mset_eq_setD, metis mset_eq_imp_distinct_iff)
  have ne: "xs \<noteq> []" using set(1) t(2) x(1) by (cases cs) auto
  have hd: "snd (hd xs) = snd (hd arrivals)" using ne x(2) by (metis list.map_sel(1) map_is_Nil_conv)
  have c0: "(0, hd cs) \<in> set (tiles cs)" using t(2) by (cases cs) simp_all
  have h: "holding r ip ident {} (hdr 0 (hd cs)) prev 0" using ok(2) by (simp add: holding_def)
  have lease: "fragment_leases (fragment_payload_len le (raw off c)) = fragment_leases (length c)" if "(off, c) \<in> set (tiles cs)" for off c
  proof -
    have "parse_ip_packet le (raw off c) True = Ok (as_fragment ip ident off c)" using fs that unfolding fragment_set_def by auto
    then show ?thesis by (simp add: fragment_payload_len_def as_fragment_def)
  qed
  have "datagram_leases le frags = {#assembly_lease#} + tile_leases ys"
  proof -
    have "sum_list (map (\<lambda>frag. fragment_leases (fragment_payload_len le frag)) frags) = tile_leases (tiles cs)"
      unfolding frags place_map [of raw] tile_leases_def map_map
    proof (rule arg_cong [of _ _ sum_list], rule map_cong [OF refl])
      fix x assume "x \<in> set (tiles cs)"
      then have "(fst x, snd x) \<in> set (tiles cs)" by simp
      from lease [OF this] show "((\<lambda>frag. fragment_leases (fragment_payload_len le frag)) \<circ> (\<lambda>(off, c). raw off c)) x = fragment_leases (length (snd x))"
        by (simp add: split_beta)
    qed
    also have "\<dots> = tile_leases ys"
    proof -
      have "sum_mset (mset (map (\<lambda>x. fragment_leases (length (snd x))) (tiles cs))) = sum_mset (mset (map (\<lambda>x. fragment_leases (length (snd x))) ys))"
        by (simp only: mset_map ys(1))
      then show ?thesis unfolding tile_leases_def by (simp only: sum_mset_sum_list)
    qed
    finally show ?thesis by (simp add: datagram_leases_def)
  qed
  then have af: "affordable (ra_ledger r) ((if {} = ({} :: (nat \<times> bytes) set) then {#assembly_lease#} else {#}) + tile_leases (map fst xs) + (held (ra_assemblies r) + others))"
    using aff x(1) by simp
  have mem: "snd (hd arrivals) \<in> set (map snd arrivals)" using ne x(3) by (cases arrivals) auto
  have "\<exists>G r'. ingest_all le r (map (\<lambda>((off, c), t). (raw off c, t)) xs) =
      (replicate (length xs - 1) (Ok None) @ [and_then (rebuild G (ip_version ip)) (\<lambda>packet. Ok (Some packet))], r') \<and>
    gathers G (set (tiles cs)) (length (ip_payload ip)) (hdr 0 (hd cs)) prev (ip_next_header ip) \<and>
    reassembler_ok others r' \<and> fmlookup (ra_assemblies r') (datagram_key ip ident) = None"
    by (rule tiles_arrive [OF fs c0 _ _ _ ne ok(1) _ _ _ _ _ h af])
      (use set x(1) x(2,3) [symmetric] ts ok(3) hd mem in \<open>simp_all only: Un_empty_left Int_empty_left x hd if_P refl ball_conj_distrib, simp_all?\<close>)
  then obtain G r' where g: "ingest_all le r arrivals = (replicate (length arrivals - 1) (Ok None) @
      [and_then (rebuild G (ip_version ip)) (\<lambda>packet. Ok (Some packet))], r')"
    "gathers G (set (tiles cs)) (length (ip_payload ip)) (hdr 0 (hd cs)) prev (ip_next_header ip)"
    "reassembler_ok others r'" "fmlookup (ra_assemblies r') (datagram_key ip ident) = None" unfolding a x(3) by (elim exE conjE)
  show thesis by (rule that [OF g])
qed

lemma too_long_payload:
  assumes "parse_ip_packet le packet True = Ok ip" "plain ip packet" "mtu < packet_len ip packet" "fragment_room ip packet \<le> mtu"
  shows "ip_payload ip \<noteq> []"
proof (cases "ip_version ip")
  case IpV4
  from ipv4_datagram [OF assms(1) IpV4] obtain b0 tos l1 l2 i1 i2 f1 f2 hop proto c1 c2 s d opts payload where
    p: "take (packet_len ip packet) packet = [b0, tos, l1, l2, i1, i2, f1, f2, hop, proto, c1, c2] @ s @ d @ opts @ payload"
    "unat (b0 AND 0x0f) * 4 = 20 + length opts" "ip_payload ip = payload" "packet_len ip packet = 20 + length opts + length payload"
    by (metis ParsedIpPacket.select_convs(8))
  have "take (packet_len ip packet) packet ! 0 = b0" unfolding p(1) by simp
  then have "packet ! 0 = b0" using p(4) by simp
  then show ?thesis using assms(3,4) p IpV4 by (auto simp: fragment_room_def)
next
  case IpV6
  have "no_extension (packet ! 6)" using assms(2) IpV6 by (simp add: plain_def)
  from ipv6_datagram [OF assms(1) IpV6 this] obtain payload where
    "ip_payload ip = payload" "packet_len ip packet = 40 + length payload" by (metis ParsedIpPacket.select_convs(8))
  then show ?thesis using assms(3,4) IpV6 by (auto simp: fragment_room_def)
qed

lemma parse_plain6:
  assumes "length s = 16" "length d = 16" "length body \<le> 65535" "no_extension nh" "drop_bit 4 v0 = 6" "be16 l1 l2 = word_of_nat (length body)"
  shows "parse_ip_packet le ([v0, v1, v2, v3, l1, l2, nh, hop] @ s @ d @ body) verify =
     Ok \<lparr>ip_version = IpV6, ip_source = V6 s, ip_destination = V6 d, ip_next_header = nh, ip_hop_limit = hop,
         ip_fragment = None, ip_fragment_payload = None, ip_payload = body\<rparr>"
proof -
  define h where "h = [v0, v1, v2, v3, l1, l2, nh, hop] @ s @ d"
  have h: "length h = 40" "h ! 0 = v0" "be16 (h ! 4) (h ! 5) = word_of_nat (length body)"
    "h ! 6 = nh" "h ! 7 = hop" "take 16 (drop 8 h) = s" "drop 24 h = d" using assms(1,2,6) by (simp_all add: h_def)
  have ne: "h \<noteq> []" using h(1) by auto
  have u: "unat (word_of_nat (length body) :: u16) = length body" using assms(3) by (rule unat_word_of_nat16)
  have e: "ipv6_extension (h @ body) True (40 + length body) s d hop nh 6 40 None None =
      Ok (Inl \<lparr>ip_version = IpV6, ip_source = V6 s, ip_destination = V6 d, ip_next_header = nh,
         ip_hop_limit = hop, ip_fragment = None, ip_fragment_payload = None, ip_payload = body\<rparr>)"
    using assms(4) h(1) by (simp add: ipv6_extension_def slice_simps no_extension_def)
  have "ipv6_extensions (Suc 7) (h @ body) True (40 + length body) s d hop nh 6 40 None None =
      Ok \<lparr>ip_version = IpV6, ip_source = V6 s, ip_destination = V6 d, ip_next_header = nh,
         ip_hop_limit = hop, ip_fragment = None, ip_fragment_payload = None, ip_payload = body\<rparr>"
    unfolding ipv6_extensions.simps e by simp
  then have x: "ipv6_extensions 8 (h @ body) True (40 + length body) s d hop nh 6 40 None None =
      Ok \<lparr>ip_version = IpV6, ip_source = V6 s, ip_destination = V6 d, ip_next_header = nh,
         ip_hop_limit = hop, ip_fragment = None, ip_fragment_payload = None, ip_payload = body\<rparr>"
    by (simp del: ipv6_extensions.simps)
  have r: "read16 (h @ body) 4 5 = Ok (word_of_nat (length body))"
    using h(1,3) by (simp add: read16_def slice_simps nth_append)
  have c: "checked_add 40 (length body) = Some (40 + length body)" using assms(3) by (simp add: checked_add_def)
  have sl: "(slice (h @ body) 8 24 :: bytes wire) = Ok s" "(slice (h @ body) 24 40 :: bytes wire) = Ok d"
    "(idx (h @ body) 6 :: u8 wire) = Ok nh" "(idx (h @ body) 7 :: u8 wire) = Ok hop"
    using h assms(1,2) by (simp_all add: slice_simps nth_append)
  have "parse_ipv6 (h @ body) True =
      Ok \<lparr>ip_version = IpV6, ip_source = V6 s, ip_destination = V6 d, ip_next_header = nh,
         ip_hop_limit = hop, ip_fragment = None, ip_fragment_payload = None, ip_payload = body\<rparr>"
    unfolding parse_ipv6_def r and_then.simps u c sl ok_or_def option.case x by (simp add: h(1))
  then have "parse_ip_packet le (h @ body) verify = Ok \<lparr>ip_version = IpV6, ip_source = V6 s, ip_destination = V6 d, ip_next_header = nh,
         ip_hop_limit = hop, ip_fragment = None, ip_fragment_payload = None, ip_payload = body\<rparr>"
    using assms(5) by (simp add: parse_ip_packet_def get_opt_def ne nth_append h)
  then show ?thesis by (simp add: h_def)
qed

definition arrive_in_time :: "Reassembler \<Rightarrow> (bytes \<times> nat) list \<Rightarrow> bool" where
  "arrive_in_time r arrivals \<longleftrightarrow> sorted (map snd arrivals) \<and>
     (\<forall>t\<in>set (map snd arrivals). ra_now r \<le> t \<and> t < u64_max \<and> t < snd (hd arrivals) + effective_timeout r (ra_divisor r))"

definition room_for :: "bool \<Rightarrow> Reassembler \<Rightarrow> BudgetLease multiset \<Rightarrow> bytes list \<Rightarrow> bool" where
  "room_for le r others frags \<longleftrightarrow> next_id (ra_expiry r) + length frags \<le> u64_max \<and>
     affordable (ra_ledger r) (datagram_leases le frags + (held (ra_assemblies r) + others))"

definition returns_datagram :: "bool \<Rightarrow> ParsedIpPacket \<Rightarrow> bytes \<Rightarrow> u32 \<Rightarrow> Reassembler \<Rightarrow> (bytes \<times> nat) list \<Rightarrow> BudgetLease multiset \<Rightarrow> bool" where
  "returns_datagram le ip packet ident r arrivals others \<longleftrightarrow>
     (\<exists>datagram r'. ingest_all le r arrivals = (replicate (length arrivals - 1) (Ok None) @ [Ok (Some datagram)], r') \<and>
       parse_ip_packet le datagram True = Ok ip \<and> (ip_version ip = IpV6 \<longrightarrow> datagram = take (packet_len ip packet) packet) \<and>
       reassembler_ok others r' \<and> fmlookup (ra_assemblies r') (datagram_key ip ident) = None)"

lemma v4_returns:
  assumes pk: "parse_ip_packet le packet True = Ok ip" "plain ip packet" "mtu < packet_len ip packet" "fragment_room ip packet \<le> mtu"
    and v: "ip_version ip = IpV4" and fr: "fragment_outbound_ip_packet le packet mtu ident = Ok frags"
    and arr: "mset (map fst arrivals) = mset frags" "arrive_in_time r arrivals"
    and ok: "reassembler_ok others r" "fmlookup (ra_assemblies r) (datagram_key ip ident) = None" "room_for le r others frags"
  shows "returns_datagram le ip packet ident r arrivals others"
proof -
  have nf: "ip_fragment ip = None" using pk(2) by (simp add: plain_def)
  have ne: "ip_payload ip \<noteq> []" by (rule too_long_payload [OF pk])
  have len: "length arrivals = length frags" using arr(1) by (metis length_map size_mset)
  show ?thesis
  proof (rule fragment_outbound_v4 [OF pk(1) v nf pk(3,4), of ident])
    fix b0 tos hop proto s d opts copied cs payload
    assume f: "fragment_outbound_ip_packet le packet mtu ident = Ok (Frag_Facts.place (raw4 le b0 tos (ucast ident) hop proto s d opts copied (length payload)) 0 cs)"
      and cs: "concat cs = payload" "tiling 0 (length payload) cs" "\<forall>c\<in>set cs. length c < length payload"
      and ip: "ip = \<lparr>ip_version = IpV4, ip_source = V4 s, ip_destination = V4 d, ip_next_header = proto, ip_hop_limit = hop,
        ip_fragment = None, ip_fragment_payload = None, ip_payload = payload\<rparr>"
      and l: "length s = 4" "length d = 4" "unat (b0 AND 0x0f) * 4 = 20 + length opts" "drop_bit 4 b0 = 4"
        "validate_ipv4_options opts 0 = Ok ()" "20 + length opts + length payload \<le> 65535"
      and c: "length copied \<le> length opts" "length copied \<le> 40" "4 dvd length copied"
      and raw: "\<And>off c. (off, c) \<in> set (tiles cs) \<Longrightarrow>
        length (raw4 le b0 tos (ucast ident) hop proto s d opts copied (length payload) off c) \<le> mtu \<and>
        parse_ip_packet le (raw4 le b0 tos (ucast ident) hop proto s d opts copied (length payload) off c) True = Ok (as_fragment ip ident off c)"
    have csn: "cs \<noteq> []" using ne cs(1) ip by auto
    have pay: "ip_payload ip = payload" using ip by simp
    note fs = fragment_set_v4 [OF l(1-3,6) c cs csn ip conjunct2 [OF raw]]
    let ?raw = "raw4 le b0 tos (ucast ident) hop proto s d opts copied (length payload)"
    have frags: "frags = Frag_Facts.place ?raw 0 cs" using fr f by simp
    obtain G r' where g: "ingest_all le r arrivals = (replicate (length arrivals - 1) (Ok None) @
        [and_then (rebuild G (ip_version ip)) (\<lambda>packet. Ok (Some packet))], r')"
      "gathers G (set (tiles cs)) (length (ip_payload ip)) (take (20 + length opts) (?raw 0 (hd cs))) None (ip_next_header ip)"
      "reassembler_ok others r'" "fmlookup (ra_assemblies r') (datagram_key ip ident) = None"
      by (rule round_trip [OF fs frags arr(1) _ _ ok(1,2)]) (use arr(2) ok(3) len in \<open>auto simp: arrive_in_time_def room_for_def\<close>)
    have mx: "length payload \<le> MAX_REASSEMBLED_BYTES" using l(6) by (simp add: MAX_REASSEMBLED_BYTES_def)
    note G = gathered_packet [OF cs(2) csn mx g(2) [unfolded pay]]
    obtain n ck where h: "take (20 + length opts) (?raw 0 (hd cs)) =
        [b0, tos] @ to_be16 n @ to_be16 (ucast ident) @ to_be16 (frag_bits 0 (length (hd cs) < length payload)) @ [hop, proto] @ to_be16 ck @ s @ d @ opts"
      using frag4_header(2) [OF l(1-3), of le tos "ucast ident" "frag_bits 0 (length (hd cs) < length payload)" hop proto "hd cs"]
      by (auto simp: raw4_def)
    have re: "rebuild G IpV4 = Ok (frag4 le b0 tos (ucast ident) 0 hop proto s d opts payload)"
      by (rule rebuild_v4 [OF l(1-3,6) G(1) [unfolded h] G(4) [unfolded cs(1)]])
    have "frag_bits 0 False = 0" by (simp add: frag_bits_def)
    then have p: "parse_ip_packet le (frag4 le b0 tos (ucast ident) 0 hop proto s d opts payload) True = Ok ip"
      using parse_frag4 [OF l(1,2,6,3,4,5), of 0 le tos "ucast ident" False hop proto True] ip by simp
    show ?thesis unfolding returns_datagram_def
      by (rule exI [of _ "frag4 le b0 tos (ucast ident) 0 hop proto s d opts payload"], rule exI [of _ r'])
        (use g(1,3,4) re p v in simp)
  qed
qed

lemma v6_returns:
  assumes pk: "parse_ip_packet le packet True = Ok ip" "plain ip packet" "mtu < packet_len ip packet" "fragment_room ip packet \<le> mtu"
    and v: "ip_version ip = IpV6" and fr: "fragment_outbound_ip_packet le packet mtu ident = Ok frags"
    and arr: "mset (map fst arrivals) = mset frags" "arrive_in_time r arrivals"
    and ok: "reassembler_ok others r" "fmlookup (ra_assemblies r) (datagram_key ip ident) = None" "room_for le r others frags"
  shows "returns_datagram le ip packet ident r arrivals others"
proof -
  have nx: "no_extension (packet ! 6)" using pk(2) v by (simp add: plain_def)
  have ne: "ip_payload ip \<noteq> []" by (rule too_long_payload [OF pk])
  have len: "length arrivals = length frags" using arr(1) by (metis length_map size_mset)
  show ?thesis
  proof (rule fragment_outbound_v6 [OF pk(1) v nx pk(3,4), of ident])
    fix v0 v1 v2 v3 l1 l2 nh hop s d cs and payload :: bytes
    let ?raw = "raw6 v0 v1 v2 v3 nh hop s d ident (length payload)"
    assume f: "fragment_outbound_ip_packet le packet mtu ident = Ok (Frag_Facts.place ?raw 0 cs)"
      and cs: "concat cs = payload" "tiling 0 (length payload) cs" "\<forall>c\<in>set cs. length c < length payload"
      and ip: "ip = \<lparr>ip_version = IpV6, ip_source = V6 s, ip_destination = V6 d, ip_next_header = nh, ip_hop_limit = hop,
        ip_fragment = None, ip_fragment_payload = None, ip_payload = payload\<rparr>"
      and l: "length s = 16" "length d = 16" "drop_bit 4 v0 = 6" "no_extension nh" "length payload \<le> 65535"
      and tk: "take (packet_len ip packet) packet = [v0, v1, v2, v3, l1, l2, nh, hop] @ s @ d @ payload" "be16 l1 l2 = word_of_nat (length payload)"
      and raw: "\<And>off c. (off, c) \<in> set (tiles cs) \<Longrightarrow> length (?raw off c) \<le> mtu \<and>
        parse_ip_packet le (?raw off c) True = Ok (as_fragment ip ident off c)"
    have csn: "cs \<noteq> []" using ne cs(1) ip by auto
    have pay: "ip_payload ip = payload" "ip_next_header ip = nh" using ip by simp_all
    note fs = fragment_set_v6 [OF l(1,2,4,5) cs csn ip conjunct2 [OF raw]]
    have frags: "frags = Frag_Facts.place ?raw 0 cs" using fr f by simp
    obtain G r' where g: "ingest_all le r arrivals = (replicate (length arrivals - 1) (Ok None) @
        [and_then (rebuild G (ip_version ip)) (\<lambda>packet. Ok (Some packet))], r')"
      "gathers G (set (tiles cs)) (length (ip_payload ip)) ([v0, v1, v2, v3] @ to_be16 (word_of_nat (8 + length (hd cs))) @ [44, hop] @ s @ d) (Some 6) (ip_next_header ip)"
      "reassembler_ok others r'" "fmlookup (ra_assemblies r') (datagram_key ip ident) = None"
      by (rule round_trip [OF fs frags arr(1) _ _ ok(1,2)]) (use arr(2) ok(3) len in \<open>auto simp: arrive_in_time_def room_for_def\<close>)
    have mx: "length payload \<le> MAX_REASSEMBLED_BYTES" using l(5) by (simp add: MAX_REASSEMBLED_BYTES_def)
    note G = gathered_packet [OF cs(2) csn mx g(2) [unfolded pay]]
    have "rebuild G IpV6 = Ok ([v0, v1, v2, v3] @ to_be16 (word_of_nat (length payload)) @ [nh, hop] @ s @ d @ payload)"
      by (rule rebuild_v6 [OF l(1,2,5) G(1-3) G(4) [unfolded cs(1)]])
    also have "to_be16 (word_of_nat (length payload)) = [l1, l2]" using to_be16_be16 [of l1 l2] unfolding tk(2) .
    finally have re: "rebuild G IpV6 = Ok (take (packet_len ip packet) packet)" unfolding tk(1) by simp
    have p: "parse_ip_packet le (take (packet_len ip packet) packet) True = Ok ip"
      unfolding tk(1) by (subst ip) (rule parse_plain6 [OF l(1,2,5,4,3) tk(2)])
    show ?thesis unfolding returns_datagram_def
      by (rule exI [of _ "take (packet_len ip packet) packet"], rule exI [of _ r']) (use g(1,3,4) re p v in simp)
  qed
qed

section \<open>The cost of a datagram\<close>

lemma charged_tile_leases:
  "charged (tile_leases xs) k = (case k of Fragments \<Rightarrow> length xs | FragmentBytes \<Rightarrow> sum_list (map (length \<circ> snd) xs)
     | MetadataBytes \<Rightarrow> PIECE_METADATA_BYTES * length xs | _ \<Rightarrow> 0)"
  "charged_bytes (tile_leases xs) = sum_list (map (length \<circ> snd) xs) + PIECE_METADATA_BYTES * length xs"
  by (cases k; induction xs; simp add: tile_leases_def fragment_leases_def charged_union)
    (induction xs; simp add: tile_leases_def fragment_leases_def is_bytes_def)

lemma tiling_count: "tiling off tot cs \<Longrightarrow> off + length cs \<le> tot \<and> off + sum_list (map length cs) = tot"
proof (induction cs arbitrary: off)
  case (Cons c cs)
  then have "off + length c + length cs \<le> tot" "off + length c + sum_list (map length cs) = tot" "c \<noteq> []" by auto
  then show ?case by (cases c) simp_all
qed simp

lemma tile_sizes: "map (length \<circ> snd) (Frag_Facts.place Pair off cs) = map length cs"
  by (induction cs arbitrary: off) simp_all

section \<open>Properties\<close>

text \<open>A reassembler on an idle ledger of the mobile profile, used to apply the properties below.\<close>

definition idle_ledger :: ResourceLedger where
  "idle_ledger = \<lparr>led_budget = profile_budget Mobile, led_total = 0, led_used = (\<lambda>_. 0), led_peaks = (\<lambda>_. 0), led_denied = 0\<rparr>"

lemma idle_ledger_ok: "ledger_ok idle_ledger {#}"
  by (simp add: ledger_ok_def representable_def idle_ledger_def limit_def profile_budget_def split: ResourceKind.split)



text \<open>C25: the reassembler is safe under any sequence of calls. From a fresh reassembler, after fewer than \<open>2^63\<close> calls of
\<open>ingest\<close>, \<open>advance_time_under_pressure_with_quotes\<close> (which the other forms of \<open>advance_time\<close> call) and \<open>clear\<close> with any packets, clocks, divisors and quote limits, and whatever order the
hash map is iterated in, the invariant holds: the assemblies, the eviction index, the timers and the leases in the
ledger agree. No call panics in that state.\<close>

theorem reassembler_safe:
  assumes "reassembly_reachable le led timeout n r" "ledger_ok led others" "0 < timeout" "timeout \<le> u64_max" "n < 2 ^ 63"
  shows "reassembler_ok others r \<and>
    (\<forall>keys p. enumerates keys r \<and> op_clock p \<le> u64_max \<longrightarrow> fst (reassembly_do le keys r p) \<noteq> Panic)"
proof -
  note ok = reassembly_reachable_ok [OF assms]
  have "next_id (ra_expiry r) < u64_max" using ok(2) assms(5) by simp
  then show ?thesis using ok(1) reassembly_do_ok(1) by blast
qed

lemma reassembler_safe_witness:
  "\<exists>r. reassembler_new idle_ledger 30000 = (Ok r :: (unit, Reassembler) res) \<and> reassembler_ok {#} r \<and>
     fst (reassembly_do True [] r (OpIngest [0x45, 0] 5)) \<noteq> Panic"
proof -
  obtain r where r: "reassembler_new idle_ledger 30000 = (Ok r :: (unit, Reassembler) res)" "ra_assemblies r = fmempty"
    using new_ok [OF idle_ledger_ok, of 30000] by auto
  have re: "reassembly_reachable True idle_ledger 30000 0 r" by (rule created [OF r(1)])
  have "enumerates [] r" by (simp add: enumerates_def r(2))
  moreover have "op_clock (OpIngest [0x45, 0] 5) \<le> u64_max" by simp
  moreover have "reassembler_ok {#} r \<and> (\<forall>keys p. enumerates keys r \<and> op_clock p \<le> u64_max \<longrightarrow> fst (reassembly_do True keys r p) \<noteq> Panic)"
    by (rule reassembler_safe [OF re idle_ledger_ok]) simp_all
  ultimately show ?thesis using r(1) by blast
qed



text \<open>C27: the loops of eviction come to an end. Evicting the oldest assembly until a fragment's credit fits returns, without
a panic: it grants the credit or has evicted every assembly, never touches the ones it keeps, and leaves the invariant.
The search for an unused eviction key, a loop in the source without a bound, returns a key that is free.\<close>

theorem eviction_terminates:
  assumes "reassembler_ok others r"
  shows "\<exists>got r'. acquire_fragment_credit r key n = (got, r') \<and> got \<noteq> Panic \<and>
      (\<forall>k a. fmlookup (ra_assemblies r') k = Some a \<longrightarrow> fmlookup (ra_assemblies r) k = Some a) \<and>
      (case got of Ok c \<Rightarrow> reassembler_ok (mset (credit_leases c) + others) r'
         | _ \<Rightarrow> ra_assemblies r' = fmempty \<and> reassembler_ok others r') \<and>
    (\<exists>k s. next_eviction_key r created = (Ok k, r\<lparr>ra_serial := s\<rparr>) \<and> fmlookup (ra_index r) k = None)"
proof -
  have st: "store_ok others r" using assms by (simp add: reassembler_ok_def)
  have "fcard (fmdom (ra_index r)) \<le> fcard (fmdom (ra_assemblies r))" using st by (intro index_count) (simp add: store_ok_def)
  then have "ra_serial r \<le> u64_max" "fcard (fmdom (ra_index r)) < u64_size"
    using assembly_count [OF st] st by (simp_all add: store_ok_def ASSEMBLY_METADATA_BYTES_def)
  from next_eviction_key_ok [OF this, of created] have "\<exists>k s. next_eviction_key r created = (Ok k, r\<lparr>ra_serial := s\<rparr>) \<and> fmlookup (ra_index r) k = None"
    by blast
  moreover obtain got r' where "acquire_fragment_credit r key n = (got, r')" "smaller r r'"
    "case got of Ok c \<Rightarrow> reassembler_ok (mset (credit_leases c) + others) r' \<and> credit_ok r' key n c
       | Err e \<Rightarrow> reassembler_ok others r' \<and> ra_assemblies r' = fmempty | Panic \<Rightarrow> False"
    using acquire_credit_ok [OF assms, of key n] by blast
  ultimately show ?thesis unfolding smaller_def by (cases got) auto
qed

lemma eviction_terminates_witness:
  "\<exists>r got r'. reassembler_new idle_ledger 30000 = (Ok r :: (unit, Reassembler) res) \<and>
     acquire_fragment_credit r (datagram_key \<lparr>ip_version = IpV4, ip_source = V4 [10, 0, 0, 1], ip_destination = V4 [10, 0, 0, 2], ip_next_header = 17,
       ip_hop_limit = 64, ip_fragment = None, ip_fragment_payload = None, ip_payload = []\<rparr> 9) 1400 = (got, r') \<and> got \<noteq> Panic"
proof -
  obtain r where r: "reassembler_new idle_ledger 30000 = (Ok r :: (unit, Reassembler) res)" "reassembler_ok {#} r"
    using new_ok [OF idle_ledger_ok, of 30000] by auto
  then show ?thesis using eviction_terminates [OF r(2)] by blast
qed

end
