(* ===== verification/Scheduler.thy ===== *)
theory Scheduler
  imports Prelude "HOL-Library.Finite_Map"
begin

text \<open>
  The bounded weighted deficit-round-robin scheduler of \<^verbatim>\<open>engine/scheduler.rs\<close>.  The hash map of flows is a finite map,
  a deque is a list.  The callback \<open>process\<close> is represented by the sequence of calls a round makes to it, and the clock it
  reads by a function from the number of the reading to the time elapsed.
\<close>

section \<open>Configuration\<close>

record SchedulerConfig =
  quantum_bytes :: nat
  max_packets_per_round :: nat
  max_bytes_per_round :: nat
  max_time_per_round :: nat
  max_contiguous_flow_bytes :: nat
  max_queued_packets :: nat
  max_queued_bytes :: nat
  max_active_flows :: nat
  max_packets_per_flow :: nat
  max_control_packets :: nat
  max_packet_bytes :: nat

datatype SchedulerConfigError = ZeroLimit | PacketExceedsBudget | ControlExceedsRound

definition scheduler_validate :: "SchedulerConfig \<Rightarrow> (SchedulerConfigError, SchedulerConfig) res" where
  "scheduler_validate c =
     (if quantum_bytes c = 0 \<or> max_packets_per_round c = 0 \<or> max_bytes_per_round c = 0 \<or>
         max_time_per_round c = 0 \<or> max_contiguous_flow_bytes c = 0 \<or> max_queued_packets c = 0 \<or>
         max_queued_bytes c = 0 \<or> max_active_flows c = 0 \<or> max_packets_per_flow c = 0 \<or>
         max_control_packets c = 0 \<or> max_packet_bytes c = 0
      then Err ZeroLimit
      else if max_bytes_per_round c < max_packet_bytes c \<or> max_queued_bytes c < max_packet_bytes c \<or>
         max_contiguous_flow_bytes c < max_packet_bytes c
      then Err PacketExceedsBudget
      else if max_packets_per_round c < max_control_packets c then Err ControlExceedsRound
      else Ok c)"

text \<open>Durations are in nanoseconds.\<close>

definition scheduler_default :: SchedulerConfig where
  "scheduler_default =
     \<lparr>quantum_bytes = 16 * 1024, max_packets_per_round = 256, max_bytes_per_round = 1024 * 1024,
      max_time_per_round = 2 * 1000000, max_contiguous_flow_bytes = 64 * 1024, max_queued_packets = 4096,
      max_queued_bytes = 8 * 1024 * 1024, max_active_flows = 2048, max_packets_per_flow = 128,
      max_control_packets = 32, max_packet_bytes = 65535\<rparr>"

section \<open>Queues\<close>

type_synonym FlowId = nat

datatype WorkClass = Control | Data FlowId u16

record 'a Item =
  it_bytes :: nat
  it_value :: 'a

record 'a FlowQueue =
  fq_weight :: u16
  fq_deficit :: nat
  fq_bytes :: nat
  fq_items :: "'a Item list"

datatype 'a EnqueueError =
  PacketTooLarge 'a | QueueFull 'a | FlowQueueFull 'a | TooManyFlows 'a | InvalidWeight 'a

primrec into_inner :: "'a EnqueueError \<Rightarrow> 'a" where
  "into_inner (PacketTooLarge v) = v"
| "into_inner (QueueFull v) = v"
| "into_inner (FlowQueueFull v) = v"
| "into_inner (TooManyFlows v) = v"
| "into_inner (InvalidWeight v) = v"

record SchedulerSnapshot =
  snap_active_flows :: nat
  snap_queued_packets :: nat
  snap_queued_bytes :: nat
  snap_control_packets :: nat

record RoundStats =
  rs_packets :: nat
  rs_bytes :: nat
  rs_control_packets :: nat
  rs_active_flows_visited :: nat
  rs_time_budget_exhausted :: bool

definition no_stats :: RoundStats where
  "no_stats = \<lparr>rs_packets = 0, rs_bytes = 0, rs_control_packets = 0, rs_active_flows_visited = 0, rs_time_budget_exhausted = False\<rparr>"

record 'a Scheduler =
  sc_config :: SchedulerConfig
  sc_control :: "'a Item list"
  sc_flows :: "(FlowId, 'a FlowQueue) fmap"
  sc_active :: "FlowId list"
  sc_queued_packets :: nat
  sc_queued_bytes :: nat

definition scheduler_new :: "SchedulerConfig \<Rightarrow> (SchedulerConfigError, 'a Scheduler) res" where
  "scheduler_new config =
     and_then (scheduler_validate config) (\<lambda>config.
       Ok \<lparr>sc_config = config, sc_control = [], sc_flows = fmempty, sc_active = [], sc_queued_packets = 0, sc_queued_bytes = 0\<rparr>)"

text \<open>Plain \<open>+\<close> and \<open>-\<close> on \<open>usize\<close>: leaving the range is a panic of a checked build.\<close>

definition plus_usize :: "nat \<Rightarrow> nat \<Rightarrow> ('e, nat) res" where
  "plus_usize a b = (if a + b \<le> usize_max then Ok (a + b) else Panic)"

definition minus_usize :: "nat \<Rightarrow> nat \<Rightarrow> ('e, nat) res" where
  "minus_usize a b = (if b \<le> a then Ok (a - b) else Panic)"

section \<open>Admission\<close>

definition enqueue_data :: "'a Scheduler \<Rightarrow> FlowId \<Rightarrow> u16 \<Rightarrow> nat \<Rightarrow> 'a \<Rightarrow> ('a EnqueueError, 'a Scheduler) res" where
  "enqueue_data s flow weight bytes val =
     (if weight = 0 then Err (InvalidWeight val)
      else case fmlookup (sc_flows s) flow of
        Some queue \<Rightarrow>
          if length (fq_items queue) = max_packets_per_flow (sc_config s) then Err (FlowQueueFull val)
          else and_then (plus_usize (fq_bytes queue) bytes) (\<lambda>total.
            Ok (s\<lparr>sc_flows := fmupd flow (queue\<lparr>fq_bytes := total,
                    fq_items := fq_items queue @ [\<lparr>it_bytes = bytes, it_value = val\<rparr>]\<rparr>) (sc_flows s)\<rparr>))
      | None \<Rightarrow>
          if fcard (fmdom (sc_flows s)) = max_active_flows (sc_config s) then Err (TooManyFlows val)
          else Ok (s\<lparr>sc_flows := fmupd flow \<lparr>fq_weight = weight, fq_deficit = 0, fq_bytes = bytes,
                       fq_items = [\<lparr>it_bytes = bytes, it_value = val\<rparr>]\<rparr> (sc_flows s),
                     sc_active := sc_active s @ [flow]\<rparr>))"

definition enqueue :: "'a Scheduler \<Rightarrow> WorkClass \<Rightarrow> nat \<Rightarrow> 'a \<Rightarrow> ('a EnqueueError, 'a Scheduler) res" where
  "enqueue s work bytes val =
     (if max_packet_bytes (sc_config s) < bytes then Err (PacketTooLarge val)
      else if sc_queued_packets s = max_queued_packets (sc_config s) \<or>
              max_queued_bytes (sc_config s) < sat_add (sc_queued_bytes s) bytes
      then Err (QueueFull val)
      else and_then
        (case work of
           Control \<Rightarrow> Ok (s\<lparr>sc_control := sc_control s @ [\<lparr>it_bytes = bytes, it_value = val\<rparr>]\<rparr>)
         | Data flow weight \<Rightarrow> enqueue_data s flow weight bytes val) (\<lambda>s.
        and_then (plus_usize (sc_queued_packets s) 1) (\<lambda>packets.
        and_then (plus_usize (sc_queued_bytes s) bytes) (\<lambda>total.
        Ok (s\<lparr>sc_queued_packets := packets, sc_queued_bytes := total\<rparr>)))))"

section \<open>A scheduling round\<close>

text \<open>
  What a round carries along: the scheduler, its counters, the calls made so
  far to \<open>process\<close>, and how often \<open>started.elapsed()\<close> was read. The
  clock is a parameter: \<open>clock n\<close> is what the \<open>n\<close>-th reading returns.
\<close>

record 'a Round =
  rd_sched :: "'a Scheduler"
  rd_stats :: RoundStats
  rd_calls :: "(WorkClass \<times> 'a) list"
  rd_reads :: nat

definition fits_round :: "RoundStats \<Rightarrow> nat \<Rightarrow> nat \<Rightarrow> nat \<Rightarrow> bool" where
  "fits_round stats bytes max_packets max_bytes \<longleftrightarrow>
     rs_packets stats < max_packets \<and> sat_add (rs_bytes stats) bytes \<le> max_bytes"

definition account_dequeue :: "'a Scheduler \<Rightarrow> nat \<Rightarrow> RoundStats \<Rightarrow> (unit, 'a Scheduler \<times> RoundStats) res" where
  "account_dequeue s bytes stats =
     and_then (minus_usize (sc_queued_packets s) 1) (\<lambda>packets.
     and_then (minus_usize (sc_queued_bytes s) bytes) (\<lambda>total.
     and_then (plus_usize (rs_packets stats) 1) (\<lambda>done_packets.
     and_then (plus_usize (rs_bytes stats) bytes) (\<lambda>done_bytes.
     Ok (s\<lparr>sc_queued_packets := packets, sc_queued_bytes := total\<rparr>,
         stats\<lparr>rs_packets := done_packets, rs_bytes := done_bytes\<rparr>)))))"

text \<open>Taking an item out of its queue, accounting for it and handing it to \<open>process\<close>.\<close>

definition dispatch :: "'a Round \<Rightarrow> WorkClass \<Rightarrow> 'a Item \<Rightarrow> (unit, 'a Round) res" where
  "dispatch rd work item =
     and_then (account_dequeue (rd_sched rd) (it_bytes item) (rd_stats rd)) (\<lambda>(s, stats).
     and_then (if work = Control then plus_usize (rs_control_packets stats) 1 else Ok (rs_control_packets stats)) (\<lambda>n.
     Ok (rd\<lparr>rd_sched := s, rd_stats := stats\<lparr>rs_control_packets := n\<rparr>, rd_calls := rd_calls rd @ [(work, it_value item)]\<rparr>)))"

text \<open>Reading the clock after an item: the flag is raised once the time budget is used up.\<close>

definition check_time :: "(nat \<Rightarrow> nat) \<Rightarrow> 'a Round \<Rightarrow> 'a Round" where
  "check_time clock rd =
     rd\<lparr>rd_reads := Suc (rd_reads rd),
        rd_stats := (if max_time_per_round (sc_config (rd_sched rd)) \<le> clock (rd_reads rd)
                     then rd_stats rd\<lparr>rs_time_budget_exhausted := True\<rparr> else rd_stats rd)\<rparr>"

lemma dispatch_control: "dispatch rd work item = Ok rd' \<Longrightarrow> sc_control (rd_sched rd') = sc_control (rd_sched rd)"
  by (auto simp: dispatch_def account_dequeue_def and_then_Ok_iff)

declare and_then_cong [fundef_cong]

function control_loop :: "(nat \<Rightarrow> nat) \<Rightarrow> nat \<Rightarrow> nat \<Rightarrow> 'a Round \<Rightarrow> (unit, 'a Round) res" where
  "control_loop clock max_packets max_bytes rd =
     (if max_control_packets (sc_config (rd_sched rd)) \<le> rs_control_packets (rd_stats rd) then Ok rd
      else case sc_control (rd_sched rd) of
        [] \<Rightarrow> Ok rd
      | item # rest \<Rightarrow>
          if \<not> fits_round (rd_stats rd) (it_bytes item) max_packets max_bytes then Ok rd
          else and_then (dispatch (rd\<lparr>rd_sched := (rd_sched rd)\<lparr>sc_control := rest\<rparr>\<rparr>) Control item) (\<lambda>rd.
            let rd = check_time clock rd in
            if rs_time_budget_exhausted (rd_stats rd) then Ok rd
            else control_loop clock max_packets max_bytes rd))"
  by pat_completeness auto

termination control_loop
  by (relation "measure (\<lambda>(clock, max_packets, max_bytes, rd). length (sc_control (rd_sched rd)))")
    (auto simp: check_time_def dest!: dispatch_control)

text \<open>The inner loop over one flow's queue, with the bytes it sent in this visit.\<close>

function flow_loop ::
  "(nat \<Rightarrow> nat) \<Rightarrow> nat \<Rightarrow> nat \<Rightarrow> FlowId \<Rightarrow> 'a FlowQueue \<Rightarrow> nat \<Rightarrow> 'a Round \<Rightarrow> (unit, 'a FlowQueue \<times> 'a Round) res" where
  "flow_loop clock max_packets max_bytes flow queue contiguous rd =
     (case fq_items queue of
        [] \<Rightarrow> Ok (queue, rd)
      | item # rest \<Rightarrow>
          if fq_deficit queue < it_bytes item \<or>
             max_contiguous_flow_bytes (sc_config (rd_sched rd)) < sat_add contiguous (it_bytes item) \<or>
             \<not> fits_round (rd_stats rd) (it_bytes item) max_packets max_bytes
          then Ok (queue, rd)
          else
            and_then (minus_usize (fq_deficit queue) (it_bytes item)) (\<lambda>deficit.
            and_then (minus_usize (fq_bytes queue) (it_bytes item)) (\<lambda>total.
            and_then (plus_usize contiguous (it_bytes item)) (\<lambda>contiguous.
            and_then (dispatch rd (Data flow (fq_weight queue)) item) (\<lambda>rd.
            let rd = check_time clock rd;
                queue = queue\<lparr>fq_deficit := deficit, fq_bytes := total, fq_items := rest\<rparr> in
            if rs_time_budget_exhausted (rd_stats rd) then Ok (queue, rd)
            else flow_loop clock max_packets max_bytes flow queue contiguous rd)))))"
  by pat_completeness auto

termination flow_loop
  by (relation "measure (\<lambda>(clock, max_packets, max_bytes, flow, queue, contiguous, rd). length (fq_items queue))") auto

text \<open>Whether a visit is still due: the packet limit first, then the clock, read only after some progress.\<close>

definition round_over :: "(nat \<Rightarrow> nat) \<Rightarrow> nat \<Rightarrow> 'a Round \<Rightarrow> bool \<times> 'a Round" where
  "round_over clock max_packets rd =
     (if rs_packets (rd_stats rd) = max_packets then (True, rd)
      else if 0 < rs_packets (rd_stats rd)
      then (let rd = check_time clock rd in (rs_time_budget_exhausted (rd_stats rd), rd))
      else (False, rd))"

definition visit_flow :: "(nat \<Rightarrow> nat) \<Rightarrow> nat \<Rightarrow> nat \<Rightarrow> 'a Round \<Rightarrow> (unit, 'a Round) res" where
  "visit_flow clock max_packets max_bytes rd =
     (case sc_active (rd_sched rd) of
        [] \<Rightarrow> Panic
      | flow # rest \<Rightarrow>
          (case fmlookup (sc_flows (rd_sched rd)) flow of
             None \<Rightarrow> Panic
           | Some queue \<Rightarrow>
               let s = (rd_sched rd)\<lparr>sc_active := rest, sc_flows := fmdrop flow (sc_flows (rd_sched rd))\<rparr> in
               and_then (plus_usize (rs_active_flows_visited (rd_stats rd)) 1) (\<lambda>visited.
               let queue = queue\<lparr>fq_deficit := sat_add (fq_deficit queue)
                             (sat_mul (quantum_bytes (sc_config s)) (unat (fq_weight queue)))\<rparr>;
                   rd = rd\<lparr>rd_sched := s, rd_stats := (rd_stats rd)\<lparr>rs_active_flows_visited := visited\<rparr>\<rparr> in
               and_then (flow_loop clock max_packets max_bytes flow queue 0 rd) (\<lambda>(queue, rd).
               Ok (if fq_items queue = [] then rd
                   else rd\<lparr>rd_sched := (rd_sched rd)\<lparr>sc_flows := fmupd flow queue (sc_flows (rd_sched rd)),
                                                     sc_active := sc_active (rd_sched rd) @ [flow]\<rparr>\<rparr>)))))"

primrec visit_loop :: "nat \<Rightarrow> (nat \<Rightarrow> nat) \<Rightarrow> nat \<Rightarrow> nat \<Rightarrow> 'a Round \<Rightarrow> (unit, 'a Round) res" where
  "visit_loop 0 clock max_packets max_bytes rd = Ok rd"
| "visit_loop (Suc visits) clock max_packets max_bytes rd =
     (case round_over clock max_packets rd of
        (True, rd) \<Rightarrow> Ok rd
      | (False, rd) \<Rightarrow>
          and_then (visit_flow clock max_packets max_bytes rd) (\<lambda>rd.
            if rs_time_budget_exhausted (rd_stats rd) then Ok rd
            else visit_loop visits clock max_packets max_bytes rd))"

definition run_round_limited :: "(nat \<Rightarrow> nat) \<Rightarrow> 'a Scheduler \<Rightarrow> nat \<Rightarrow> nat \<Rightarrow> (unit, 'a Round) res" where
  "run_round_limited clock s max_packets max_bytes =
     (let max_packets = min max_packets (max_packets_per_round (sc_config s));
          max_bytes = min max_bytes (max_bytes_per_round (sc_config s));
          rd = \<lparr>rd_sched = s, rd_stats = no_stats, rd_calls = [], rd_reads = 0\<rparr> in
      and_then (control_loop clock max_packets max_bytes rd) (\<lambda>rd.
        if rs_time_budget_exhausted (rd_stats rd) then Ok rd
        else visit_loop (length (sc_active (rd_sched rd))) clock max_packets max_bytes rd))"

definition run_round :: "(nat \<Rightarrow> nat) \<Rightarrow> 'a Scheduler \<Rightarrow> (unit, 'a Round) res" where
  "run_round clock s =
     run_round_limited clock s (max_packets_per_round (sc_config s)) (max_bytes_per_round (sc_config s))"

definition scheduler_snapshot :: "'a Scheduler \<Rightarrow> SchedulerSnapshot" where
  "scheduler_snapshot s =
     \<lparr>snap_active_flows = fcard (fmdom (sc_flows s)), snap_queued_packets = sc_queued_packets s,
      snap_queued_bytes = sc_queued_bytes s, snap_control_packets = length (sc_control s)\<rparr>"

definition scheduler_clear :: "'a Scheduler \<Rightarrow> 'a Scheduler" where
  "scheduler_clear s =
     s\<lparr>sc_control := [], sc_flows := fmempty, sc_active := [], sc_queued_packets := 0, sc_queued_bytes := 0\<rparr>"

declare control_loop.simps [simp del] flow_loop.simps [simp del]

end
