(* ===== verification/Scheduler_Facts.thy ===== *)
theory Scheduler_Facts
  imports Scheduler
begin

text \<open>
  The invariant of the scheduler, and what the control loop, the loop over one flow and one visit of a flow do to it.
\<close>

section \<open>What the loops do\<close>

definition item_total :: "'a Item list \<Rightarrow> nat" where
  "item_total xs = sum_list (map it_bytes xs)"

lemma item_total_simps [simp]:
  "item_total [] = 0" "item_total (x # xs) = it_bytes x + item_total xs" "item_total (xs @ ys) = item_total xs + item_total ys"
  by (simp_all add: item_total_def)

text \<open>The counters leave room for the items at hand.\<close>

definition counted :: "'a Round \<Rightarrow> 'a Item list \<Rightarrow> bool" where
  "counted rd xs \<longleftrightarrow>
     length xs \<le> sc_queued_packets (rd_sched rd) \<and> item_total xs \<le> sc_queued_bytes (rd_sched rd) \<and>
     rs_packets (rd_stats rd) + sc_queued_packets (rd_sched rd) \<le> usize_max \<and>
     rs_bytes (rd_stats rd) + sc_queued_bytes (rd_sched rd) \<le> usize_max \<and>
     rs_control_packets (rd_stats rd) \<le> rs_packets (rd_stats rd)"

text \<open>The round that has handed out \<open>taken\<close>, apart from the queue it came from.\<close>

definition sends :: "WorkClass \<Rightarrow> 'a Item list \<Rightarrow> 'a Round \<Rightarrow> 'a Round \<Rightarrow> bool" where
  "sends work taken rd rd' \<longleftrightarrow>
     rd_sched rd' = (rd_sched rd)\<lparr>sc_queued_packets := sc_queued_packets (rd_sched rd) - length taken,
                                  sc_queued_bytes := sc_queued_bytes (rd_sched rd) - item_total taken\<rparr> \<and>
     rd_calls rd' = rd_calls rd @ map (\<lambda>item. (work, it_value item)) taken \<and>
     rs_packets (rd_stats rd') = rs_packets (rd_stats rd) + length taken \<and>
     rs_bytes (rd_stats rd') = rs_bytes (rd_stats rd) + item_total taken \<and>
     rs_control_packets (rd_stats rd') = rs_control_packets (rd_stats rd) + (if work = Control then length taken else 0) \<and>
     rs_active_flows_visited (rd_stats rd') = rs_active_flows_visited (rd_stats rd)"

lemma sends_refl [simp]: "sends work [] rd rd"
  by (simp add: sends_def)

lemma sends_trans: "sends work xs rd1 rd2 \<Longrightarrow> sends work ys rd2 rd3 \<Longrightarrow> sends work (xs @ ys) rd1 rd3"
  by (simp add: sends_def)

lemma check_time_frame [simp]:
  "rd_sched (check_time clock rd) = rd_sched rd" "rd_calls (check_time clock rd) = rd_calls rd"
  "rs_packets (rd_stats (check_time clock rd)) = rs_packets (rd_stats rd)"
  "rs_bytes (rd_stats (check_time clock rd)) = rs_bytes (rd_stats rd)"
  "rs_control_packets (rd_stats (check_time clock rd)) = rs_control_packets (rd_stats rd)"
  "rs_active_flows_visited (rd_stats (check_time clock rd)) = rs_active_flows_visited (rd_stats rd)"
  by (simp_all add: check_time_def)

lemma sends_check_time [simp]: "sends work xs rd (check_time clock rd') = sends work xs rd rd'"
  by (simp add: sends_def)

lemma dispatch_ok:
  assumes "counted rd (item # xs)"
  obtains rd' where "dispatch rd work item = Ok rd'" "sends work [item] rd rd'" "counted rd' xs"
proof -
  define rd' where "rd' = rd\<lparr>rd_sched := (rd_sched rd)\<lparr>sc_queued_packets := sc_queued_packets (rd_sched rd) - 1,
      sc_queued_bytes := sc_queued_bytes (rd_sched rd) - it_bytes item\<rparr>,
    rd_stats := (rd_stats rd)\<lparr>rs_packets := rs_packets (rd_stats rd) + 1, rs_bytes := rs_bytes (rd_stats rd) + it_bytes item,
      rs_control_packets := rs_control_packets (rd_stats rd) + (if work = Control then 1 else 0)\<rparr>,
    rd_calls := rd_calls rd @ [(work, it_value item)]\<rparr>"
  have "dispatch rd work item = Ok rd'"
    using assms by (auto simp: counted_def dispatch_def account_dequeue_def plus_usize_def minus_usize_def rd'_def)
  moreover have "sends work [item] rd rd'" by (simp add: sends_def rd'_def)
  moreover have "counted rd' xs" using assms by (auto simp: counted_def rd'_def)
  ultimately show thesis by (rule that)
qed

lemma counted_check_time [simp]: "counted (check_time clock rd) xs = counted rd xs"
  by (simp add: counted_def)

lemma fits_bytes:
  assumes "counted rd (item # xs)" "fits_round (rd_stats rd) (it_bytes item) p b"
  shows "rs_packets (rd_stats rd) < p" "rs_bytes (rd_stats rd) + it_bytes item \<le> b"
  using assms by (auto simp: fits_round_def counted_def sat_add_def)

lemma control_loop_ok:
  assumes "counted rd (sc_control (rd_sched rd))"
  shows "\<exists>rd' taken rest. control_loop clock p b rd = Ok rd' \<and> sc_control (rd_sched rd) = taken @ rest \<and>
    sends Control taken (rd\<lparr>rd_sched := (rd_sched rd)\<lparr>sc_control := rest\<rparr>\<rparr>) rd' \<and> counted rd' rest \<and>
    (rs_packets (rd_stats rd) \<le> p \<longrightarrow> rs_packets (rd_stats rd') \<le> p) \<and>
    (rs_bytes (rd_stats rd) \<le> b \<longrightarrow> rs_bytes (rd_stats rd') \<le> b) \<and>
    (rs_control_packets (rd_stats rd) \<le> max_control_packets (sc_config (rd_sched rd)) \<longrightarrow>
       rs_control_packets (rd_stats rd') \<le> max_control_packets (sc_config (rd_sched rd))) \<and>
    (taken = [] \<longrightarrow> rd' = rd \<and> (rs_control_packets (rd_stats rd) < max_control_packets (sc_config (rd_sched rd)) \<longrightarrow>
       (\<forall>item rest. sc_control (rd_sched rd) = item # rest \<longrightarrow> \<not> fits_round (rd_stats rd) (it_bytes item) p b)))"
    (is "?P clock p b rd")
  using assms
proof (induction clock p b rd rule: control_loop.induct)
  case (1 clock p b rd)
  let ?s = "rd_sched rd"
  show ?case
  proof (cases "max_control_packets (sc_config ?s) \<le> rs_control_packets (rd_stats rd) \<or> sc_control ?s = [] \<or>
      (\<exists>item rest. sc_control ?s = item # rest \<and> \<not> fits_round (rd_stats rd) (it_bytes item) p b)")
    case True
    then have "control_loop clock p b rd = Ok rd" by (auto simp: control_loop.simps [of clock p b rd])
    then show ?thesis using True "1.prems" by (intro exI [of _ rd] exI [of _ "[]"] exI [of _ "sc_control ?s"]) auto
  next
    case False
    then obtain item rest where c: "sc_control ?s = item # rest" "fits_round (rd_stats rd) (it_bytes item) p b"
      "rs_control_packets (rd_stats rd) < max_control_packets (sc_config ?s)" by (cases "sc_control ?s") auto
    let ?rd = "rd\<lparr>rd_sched := ?s\<lparr>sc_control := rest\<rparr>\<rparr>"
    have cn: "counted ?rd (item # rest)" using "1.prems" c(1) by (simp add: counted_def)
    obtain r1 where r1: "dispatch ?rd Control item = Ok r1" "sends Control [item] ?rd r1" "counted r1 rest" by (rule dispatch_ok [OF cn])
    have s1: "sc_control (rd_sched r1) = rest" "sc_config (rd_sched r1) = sc_config ?s" using r1(2) by (simp_all add: sends_def)
    have b1: "rs_packets (rd_stats r1) \<le> p" "rs_bytes (rd_stats r1) \<le> b" "rs_control_packets (rd_stats r1) \<le> max_control_packets (sc_config ?s)"
      using fits_bytes [OF cn, of p b] c(2,3) r1(2) by (simp_all add: sends_def Suc_le_eq)
    let ?r = "check_time clock r1"
    have eq: "control_loop clock p b rd = (if rs_time_budget_exhausted (rd_stats ?r) then Ok ?r else control_loop clock p b ?r)"
      using c r1(1) by (simp add: control_loop.simps [of clock p b rd] Let_def)
    show ?thesis
    proof (cases "rs_time_budget_exhausted (rd_stats ?r)")
      case True
      then show ?thesis using eq c(1) r1(2,3) b1 by (intro exI [of _ ?r] exI [of _ "[item]"] exI [of _ rest]) simp
    next
      case False
      have "?P clock p b ?r" by (rule "1.IH" [OF _ c(1) _ r1(1) refl False]) (use c(2,3) r1(3) s1(1) in simp_all)
      then obtain rd' taken rest' where ih: "control_loop clock p b ?r = Ok rd'" "rest = taken @ rest'"
        "sends Control taken (?r\<lparr>rd_sched := (rd_sched r1)\<lparr>sc_control := rest'\<rparr>\<rparr>) rd'" "counted rd' rest'"
        "rs_packets (rd_stats rd') \<le> p" "rs_bytes (rd_stats rd') \<le> b" "rs_control_packets (rd_stats rd') \<le> max_control_packets (sc_config ?s)"
        using b1 s1 by auto
      have "sends Control (item # taken) (rd\<lparr>rd_sched := ?s\<lparr>sc_control := rest'\<rparr>\<rparr>) rd'" using ih(3) r1(2) by (simp add: sends_def)
      then show ?thesis using eq False ih c(1) by (intro exI [of _ rd'] exI [of _ "item # taken"] exI [of _ rest']) simp
    qed
  qed
qed

lemma flow_loop_ok:
  assumes "counted rd (fq_items q)" "fq_bytes q = item_total (fq_items q)" "contiguous \<le> rs_bytes (rd_stats rd)"
  shows "\<exists>q' rd' taken. flow_loop clock p b flow q contiguous rd = Ok (q', rd') \<and> fq_items q = taken @ fq_items q' \<and>
    sends (Data flow (fq_weight q)) taken rd rd' \<and> counted rd' (fq_items q') \<and>
    fq_weight q' = fq_weight q \<and> fq_deficit q = fq_deficit q' + item_total taken \<and> fq_bytes q' = item_total (fq_items q') \<and>
    (taken \<noteq> [] \<longrightarrow> contiguous + item_total taken \<le> max_contiguous_flow_bytes (sc_config (rd_sched rd))) \<and>
    (rs_packets (rd_stats rd) \<le> p \<longrightarrow> rs_packets (rd_stats rd') \<le> p) \<and>
    (rs_bytes (rd_stats rd) \<le> b \<longrightarrow> rs_bytes (rd_stats rd') \<le> b) \<and>
    (taken = [] \<longrightarrow> rd' = rd \<and> q' = q \<and> (\<forall>item rest. fq_items q = item # rest \<longrightarrow>
       fq_deficit q < it_bytes item \<or> max_contiguous_flow_bytes (sc_config (rd_sched rd)) < sat_add contiguous (it_bytes item) \<or>
       \<not> fits_round (rd_stats rd) (it_bytes item) p b))"
    (is "?P clock p b flow q contiguous rd")
  using assms
proof (induction clock p b flow q contiguous rd rule: flow_loop.induct)
  case (1 clock p b flow q contiguous rd)
  let ?c = "sc_config (rd_sched rd)"
  let ?halt = "\<lambda>item. fq_deficit q < it_bytes item \<or> max_contiguous_flow_bytes ?c < sat_add contiguous (it_bytes item) \<or>
       \<not> fits_round (rd_stats rd) (it_bytes item) p b"
  show ?case
  proof (cases "fq_items q = [] \<or> (\<exists>item rest. fq_items q = item # rest \<and> ?halt item)")
    case True
    then have "flow_loop clock p b flow q contiguous rd = Ok (q, rd)" by (auto simp: flow_loop.simps [of clock p b flow q contiguous rd])
    then show ?thesis using True "1.prems" by (intro exI [of _ q] exI [of _ rd] exI [of _ "[]"]) auto
  next
    case False
    then obtain item rest where c: "fq_items q = item # rest" "\<not> ?halt item" by (cases "fq_items q") auto
    have cn: "counted rd (item # rest)" using "1.prems"(1) c(1) by simp
    have d: "minus_usize (fq_deficit q) (it_bytes item) = (Ok (fq_deficit q - it_bytes item) :: (unit, nat) res)"
      "minus_usize (fq_bytes q) (it_bytes item) = (Ok (item_total rest) :: (unit, nat) res)"
      "plus_usize contiguous (it_bytes item) = (Ok (contiguous + it_bytes item) :: (unit, nat) res)"
      using c "1.prems"(2,3) cn by (auto simp: minus_usize_def plus_usize_def counted_def)
    have con: "contiguous + it_bytes item \<le> max_contiguous_flow_bytes ?c"
      using c(2) cn "1.prems"(3) by (auto simp: sat_add_def counted_def)
    obtain r1 where r1: "dispatch rd (Data flow (fq_weight q)) item = Ok r1" "sends (Data flow (fq_weight q)) [item] rd r1" "counted r1 rest"
      by (rule dispatch_ok [OF cn])
    have b1: "rs_packets (rd_stats r1) \<le> p" "rs_bytes (rd_stats r1) \<le> b" using fits_bytes [OF cn, of p b] c(2) r1(2) by (simp_all add: sends_def Suc_le_eq)
    have s1: "sc_config (rd_sched r1) = ?c" "rs_bytes (rd_stats r1) = rs_bytes (rd_stats rd) + it_bytes item" using r1(2) by (simp_all add: sends_def)
    let ?r = "check_time clock r1" and ?q = "q\<lparr>fq_deficit := fq_deficit q - it_bytes item, fq_bytes := item_total rest, fq_items := rest\<rparr>"
    have eq: "flow_loop clock p b flow q contiguous rd =
        (if rs_time_budget_exhausted (rd_stats ?r) then Ok (?q, ?r) else flow_loop clock p b flow ?q (contiguous + it_bytes item) ?r)"
      using c r1(1) d by (simp add: flow_loop.simps [of clock p b flow q contiguous rd] Let_def)
    show ?thesis
    proof (cases "rs_time_budget_exhausted (rd_stats ?r)")
      case True
      then show ?thesis using eq c r1(2,3) b1 con by (intro exI [of _ ?q] exI [of _ ?r] exI [of _ "[item]"]) simp
    next
      case False
      have "?P clock p b flow ?q (contiguous + it_bytes item) ?r"
        by (rule "1.IH" [OF c(1,2) d r1(1) refl refl False]) (use r1(3) s1(2) "1.prems"(3) in simp_all)
      then obtain q' rd' taken where ih: "flow_loop clock p b flow ?q (contiguous + it_bytes item) ?r = Ok (q', rd')" "rest = taken @ fq_items q'"
        "sends (Data flow (fq_weight q)) taken ?r rd'" "counted rd' (fq_items q')" "fq_weight q' = fq_weight q"
        "fq_deficit q - it_bytes item = fq_deficit q' + item_total taken" "fq_bytes q' = item_total (fq_items q')"
        "taken \<noteq> [] \<longrightarrow> contiguous + it_bytes item + item_total taken \<le> max_contiguous_flow_bytes ?c"
        "rs_packets (rd_stats rd') \<le> p" "rs_bytes (rd_stats rd') \<le> b"
        apply (elim exE conjE)
        subgoal for q' rd' taken by (rule that [of q' rd' taken]) (use b1 s1 in simp_all)
        done
      have "sends (Data flow (fq_weight q)) ([item] @ taken) rd rd'" by (rule sends_trans [OF _ ih(3)]) (simp add: r1(2))
      moreover have "contiguous + (it_bytes item + item_total taken) \<le> max_contiguous_flow_bytes ?c" using con ih(8) by (cases "taken = []") auto
      ultimately show ?thesis using eq False ih c by (intro exI [of _ q'] exI [of _ rd'] exI [of _ "item # taken"]) auto
    qed
  qed
qed

section \<open>Invariant\<close>

definition backlog :: "'a Scheduler \<Rightarrow> FlowId \<Rightarrow> 'a Item list" where
  "backlog s f = (case fmlookup (sc_flows s) f of None \<Rightarrow> [] | Some q \<Rightarrow> fq_items q)"

text \<open>A validated configuration of machine integers; the byte limit stays below the top of the range, where the saturating
test of \<open>enqueue\<close> would no longer refuse.\<close>

definition config_ok :: "SchedulerConfig \<Rightarrow> bool" where
  "config_ok c \<longleftrightarrow> scheduler_validate c = Ok c \<and> max_queued_packets c \<le> usize_max \<and> max_queued_bytes c < usize_max \<and>
     max_active_flows c \<le> usize_max"

definition queue_ok :: "SchedulerConfig \<Rightarrow> 'a FlowQueue \<Rightarrow> bool" where
  "queue_ok c q \<longleftrightarrow> fq_items q \<noteq> [] \<and> length (fq_items q) \<le> max_packets_per_flow c \<and> fq_bytes q = item_total (fq_items q) \<and>
     fq_weight q \<noteq> 0 \<and> (\<forall>item\<in>set (fq_items q). it_bytes item \<le> max_packet_bytes c)"

text \<open>The queues and their accounts, while the items \<open>xs\<close> are out of the map of flows.\<close>

definition flows_ok :: "'a Scheduler \<Rightarrow> 'a Item list \<Rightarrow> bool" where
  "flows_ok s xs \<longleftrightarrow> distinct (sc_active s) \<and> set (sc_active s) = fset (fmdom (sc_flows s)) \<and>
     (\<forall>f q. fmlookup (sc_flows s) f = Some q \<longrightarrow> queue_ok (sc_config s) q) \<and>
     (\<forall>item\<in>set (sc_control s). it_bytes item \<le> max_packet_bytes (sc_config s)) \<and>
     sc_queued_packets s = length (sc_control s) + (\<Sum>f\<leftarrow>sc_active s. length (backlog s f)) + length xs \<and>
     sc_queued_bytes s = item_total (sc_control s) + (\<Sum>f\<leftarrow>sc_active s. item_total (backlog s f)) + item_total xs"

definition sched_ok :: "'a Scheduler \<Rightarrow> bool" where
  "sched_ok s \<longleftrightarrow> config_ok (sc_config s) \<and> flows_ok s [] \<and> length (sc_active s) \<le> max_active_flows (sc_config s) \<and>
     sc_queued_packets s \<le> max_queued_packets (sc_config s) \<and> sc_queued_bytes s \<le> max_queued_bytes (sc_config s)"

lemma backlog_sums:
  assumes "\<And>f. f \<in> set fs \<Longrightarrow> backlog s' f = backlog s f"
  shows "(\<Sum>f\<leftarrow>fs. length (backlog s' f)) = (\<Sum>f\<leftarrow>fs. length (backlog s f))"
    "(\<Sum>f\<leftarrow>fs. item_total (backlog s' f)) = (\<Sum>f\<leftarrow>fs. item_total (backlog s f))"
  using assms by (simp_all cong: map_cong)

lemma flows_take:
  assumes "flows_ok s []" "sc_active s = f # rest"
  obtains q where "fmlookup (sc_flows s) f = Some q" "queue_ok (sc_config s) q" "f \<notin> set rest"
    "flows_ok (s\<lparr>sc_active := rest, sc_flows := fmdrop f (sc_flows s)\<rparr>) (fq_items q)"
proof -
  have n: "f \<notin> set rest" "f |\<in>| fmdom (sc_flows s)" using assms by (auto simp: flows_ok_def)
  then obtain q where q: "fmlookup (sc_flows s) f = Some q" by (auto simp: fmlookup_dom_iff)
  let ?s = "s\<lparr>sc_active := rest, sc_flows := fmdrop f (sc_flows s)\<rparr>"
  have "backlog ?s g = backlog s g" if "g \<in> set rest" for g using n that by (auto simp: backlog_def)
  note b = backlog_sums [of rest ?s s, OF this]
  have "flows_ok ?s (fq_items q)" unfolding flows_ok_def
  proof (intro conjI)
    show "\<forall>g p. fmlookup (sc_flows ?s) g = Some p \<longrightarrow> queue_ok (sc_config ?s) p" using assms(1) by (auto simp: flows_ok_def)
    show "sc_queued_packets ?s = length (sc_control ?s) + (\<Sum>f\<leftarrow>sc_active ?s. length (backlog ?s f)) + length (fq_items q)"
      "sc_queued_bytes ?s = item_total (sc_control ?s) + (\<Sum>f\<leftarrow>sc_active ?s. item_total (backlog ?s f)) + item_total (fq_items q)"
      using assms q b by (simp_all add: flows_ok_def backlog_def [of s f])
  qed (use assms n in \<open>auto simp: flows_ok_def\<close>)
  moreover have "queue_ok (sc_config s) q" using assms(1) q by (auto simp: flows_ok_def)
  ultimately show thesis using that q n by blast
qed

lemma flows_put:
  assumes "flows_ok s (fq_items q)" "f \<notin> set (sc_active s)" "queue_ok (sc_config s) q"
  shows "flows_ok (s\<lparr>sc_active := sc_active s @ [f], sc_flows := fmupd f q (sc_flows s)\<rparr>) []"
proof -
  let ?s = "s\<lparr>sc_active := sc_active s @ [f], sc_flows := fmupd f q (sc_flows s)\<rparr>"
  have "backlog ?s g = backlog s g" if "g \<in> set (sc_active s)" for g using assms(2) that by (auto simp: backlog_def)
  note b = backlog_sums [of "sc_active s" ?s s, OF this]
  have f: "backlog ?s f = fq_items q" by (simp add: backlog_def)
  show ?thesis unfolding flows_ok_def
  proof (intro conjI)
    show "\<forall>g p. fmlookup (sc_flows ?s) g = Some p \<longrightarrow> queue_ok (sc_config ?s) p" using assms(1,3) by (auto simp: flows_ok_def)
    show "sc_queued_packets ?s = length (sc_control ?s) + (\<Sum>f\<leftarrow>sc_active ?s. length (backlog ?s f)) + length ([] :: 'a Item list)"
      "sc_queued_bytes ?s = item_total (sc_control ?s) + (\<Sum>f\<leftarrow>sc_active ?s. item_total (backlog ?s f)) + item_total ([] :: 'a Item list)"
      using assms(1) b f by (simp_all add: flows_ok_def)
  qed (use assms in \<open>auto simp: flows_ok_def\<close>)
qed

lemma flows_sent:
  assumes "flows_ok s (taken @ xs)"
  shows "flows_ok (s\<lparr>sc_queued_packets := sc_queued_packets s - length taken, sc_queued_bytes := sc_queued_bytes s - item_total taken\<rparr>) xs"
proof -
  let ?s = "s\<lparr>sc_queued_packets := sc_queued_packets s - length taken, sc_queued_bytes := sc_queued_bytes s - item_total taken\<rparr>"
  have "backlog ?s = backlog s" by (simp add: backlog_def fun_eq_iff)
  then show ?thesis using assms by (simp add: flows_ok_def)
qed

lemma flows_control:
  assumes "flows_ok s []" "sc_control s = taken @ rest"
  shows "flows_ok (s\<lparr>sc_control := rest\<rparr>) taken"
proof -
  have "backlog (s\<lparr>sc_control := rest\<rparr>) = backlog s" by (simp add: backlog_def fun_eq_iff)
  then show ?thesis using assms by (simp add: flows_ok_def)
qed

section \<open>Classes of work\<close>

text \<open>The control class and one class per flow; what waits in a class and what a round handed out of it, in order.\<close>

primrec class_key :: "WorkClass \<Rightarrow> FlowId option" where
  "class_key Control = None"
| "class_key (Data flow weight) = Some flow"

definition waiting :: "'a Scheduler \<Rightarrow> FlowId option \<Rightarrow> 'a list" where
  "waiting s k = map it_value (case k of None \<Rightarrow> sc_control s | Some f \<Rightarrow> backlog s f)"

definition served :: "FlowId option \<Rightarrow> (WorkClass \<times> 'a) list \<Rightarrow> 'a list" where
  "served k calls = map snd (filter (\<lambda>call. class_key (fst call) = k) calls)"

lemma served_append [simp]: "served k (xs @ ys) = served k xs @ served k ys"
  by (simp add: served_def)

lemma served_class: "served k (map (\<lambda>item. (work, it_value item)) taken) = (if class_key work = k then map it_value taken else [])"
  by (simp add: served_def filter_map comp_def)

text \<open>The part of a round from \<open>rd\<close> to \<open>rd'\<close>: every class gives away a prefix of what waits in it, and the accounts
move from the queues to the counters of the round.\<close>

definition advances :: "'a Round \<Rightarrow> 'a Round \<Rightarrow> bool" where
  "advances rd rd' \<longleftrightarrow> sc_config (rd_sched rd') = sc_config (rd_sched rd) \<and>
     (\<exists>new. rd_calls rd' = rd_calls rd @ new \<and> (\<forall>k. waiting (rd_sched rd) k = served k new @ waiting (rd_sched rd') k) \<and>
        rs_packets (rd_stats rd') = rs_packets (rd_stats rd) + length new) \<and>
     rs_packets (rd_stats rd') + sc_queued_packets (rd_sched rd') = rs_packets (rd_stats rd) + sc_queued_packets (rd_sched rd) \<and>
     rs_bytes (rd_stats rd') + sc_queued_bytes (rd_sched rd') = rs_bytes (rd_stats rd) + sc_queued_bytes (rd_sched rd) \<and>
     rs_control_packets (rd_stats rd) \<le> rs_control_packets (rd_stats rd') \<and>
     rs_control_packets (rd_stats rd') + rs_packets (rd_stats rd) \<le> rs_control_packets (rd_stats rd) + rs_packets (rd_stats rd')"

lemma advances_refl [simp]: "advances rd rd"
  by (simp add: advances_def served_def)

lemma advances_trans:
  assumes "advances r1 r2" "advances r2 r3" shows "advances r1 r3"
proof -
  obtain n1 where 1: "rd_calls r2 = rd_calls r1 @ n1" "\<forall>k. waiting (rd_sched r1) k = served k n1 @ waiting (rd_sched r2) k"
    "rs_packets (rd_stats r2) = rs_packets (rd_stats r1) + length n1" using assms(1) by (auto simp: advances_def)
  obtain n2 where 2: "rd_calls r3 = rd_calls r2 @ n2" "\<forall>k. waiting (rd_sched r2) k = served k n2 @ waiting (rd_sched r3) k"
    "rs_packets (rd_stats r3) = rs_packets (rd_stats r2) + length n2" using assms(2) by (auto simp: advances_def)
  have "rd_calls r3 = rd_calls r1 @ (n1 @ n2) \<and> (\<forall>k. waiting (rd_sched r1) k = served k (n1 @ n2) @ waiting (rd_sched r3) k) \<and>
    rs_packets (rd_stats r3) = rs_packets (rd_stats r1) + length (n1 @ n2)" using 1 2 by simp
  then have "\<exists>new. rd_calls r3 = rd_calls r1 @ new \<and> (\<forall>k. waiting (rd_sched r1) k = served k new @ waiting (rd_sched r3) k) \<and>
    rs_packets (rd_stats r3) = rs_packets (rd_stats r1) + length new" by (rule exI)
  then show ?thesis using assms unfolding advances_def by (intro conjI) simp_all
qed

lemma advances_check_time [simp]: "advances (check_time clock rd) rd' = advances rd rd'" "advances rd (check_time clock rd') = advances rd rd'"
  by (simp_all add: advances_def)

text \<open>The state of a round between its steps.\<close>

definition round_ok :: "nat \<Rightarrow> nat \<Rightarrow> 'a Round \<Rightarrow> bool" where
  "round_ok p b rd \<longleftrightarrow> sched_ok (rd_sched rd) \<and> rs_packets (rd_stats rd) \<le> p \<and> rs_bytes (rd_stats rd) \<le> b \<and>
     rs_control_packets (rd_stats rd) \<le> max_control_packets (sc_config (rd_sched rd)) \<and>
     rs_control_packets (rd_stats rd) \<le> rs_packets (rd_stats rd) \<and>
     rs_packets (rd_stats rd) + sc_queued_packets (rd_sched rd) \<le> usize_max \<and>
     rs_bytes (rd_stats rd) + sc_queued_bytes (rd_sched rd) \<le> usize_max"

lemma round_ok_check_time [simp]: "round_ok p b (check_time clock rd) = round_ok p b rd"
  by (simp add: round_ok_def)

lemma round_counted: "round_ok p b rd \<Longrightarrow> length xs \<le> sc_queued_packets (rd_sched rd) \<Longrightarrow> item_total xs \<le> sc_queued_bytes (rd_sched rd) \<Longrightarrow> counted rd xs"
  by (simp add: round_ok_def counted_def)

section \<open>Steps of a round\<close>

lemma control_step:
  assumes "round_ok p b rd"
  obtains rd' where "control_loop clock p b rd = Ok rd'" "round_ok p b rd'" "advances rd rd'" "sc_active (rd_sched rd') = sc_active (rd_sched rd)"
    "sc_flows (rd_sched rd') = sc_flows (rd_sched rd)" "rs_active_flows_visited (rd_stats rd') = rs_active_flows_visited (rd_stats rd)"
    "rd_calls rd' = rd_calls rd \<Longrightarrow> rd' = rd \<and> (rs_control_packets (rd_stats rd) < max_control_packets (sc_config (rd_sched rd)) \<longrightarrow>
       (\<forall>item rest. sc_control (rd_sched rd) = item # rest \<longrightarrow> \<not> fits_round (rd_stats rd) (it_bytes item) p b))"
proof -
  let ?s = "rd_sched rd"
  have s: "sched_ok ?s" "flows_ok ?s []" using assms by (simp_all add: round_ok_def sched_ok_def)
  have "counted rd (sc_control ?s)" using s(2) by (intro round_counted [OF assms]) (simp_all add: flows_ok_def)
  from control_loop_ok [OF this, of clock p b] obtain rd' taken rest where
    c: "control_loop clock p b rd = Ok rd'" "sc_control ?s = taken @ rest" "sends Control taken (rd\<lparr>rd_sched := ?s\<lparr>sc_control := rest\<rparr>\<rparr>) rd'"
      "rs_packets (rd_stats rd') \<le> p" "rs_bytes (rd_stats rd') \<le> b" "rs_control_packets (rd_stats rd') \<le> max_control_packets (sc_config ?s)"
      and idle: "taken = [] \<Longrightarrow> rd' = rd \<and> (rs_control_packets (rd_stats rd) < max_control_packets (sc_config ?s) \<longrightarrow>
       (\<forall>item rest. sc_control ?s = item # rest \<longrightarrow> \<not> fits_round (rd_stats rd) (it_bytes item) p b))"
    apply (elim exE conjE)
    subgoal for rd' taken rest by (rule that [of rd' taken rest]) (use assms in \<open>simp_all add: round_ok_def\<close>)
    done
  let ?s' = "?s\<lparr>sc_control := rest, sc_queued_packets := sc_queued_packets ?s - length taken, sc_queued_bytes := sc_queued_bytes ?s - item_total taken\<rparr>"
  have d: "rd_sched rd' = ?s'" "rd_calls rd' = rd_calls rd @ map (\<lambda>item. (Control, it_value item)) taken"
    "rs_packets (rd_stats rd') = rs_packets (rd_stats rd) + length taken" "rs_bytes (rd_stats rd') = rs_bytes (rd_stats rd) + item_total taken"
    "rs_control_packets (rd_stats rd') = rs_control_packets (rd_stats rd) + length taken"
    "rs_active_flows_visited (rd_stats rd') = rs_active_flows_visited (rd_stats rd)"
    using c(3) by (simp_all add: sends_def)
  have q: "length taken \<le> sc_queued_packets ?s" "item_total taken \<le> sc_queued_bytes ?s" using s(2) c(2) by (simp_all add: flows_ok_def)
  have "flows_ok ?s' []" using flows_sent [of "?s\<lparr>sc_control := rest\<rparr>" taken "[]"] flows_control [OF s(2) c(2)] by simp
  then have ok: "sched_ok ?s'" using s(1) q by (simp add: sched_ok_def le_diff_conv trans_le_add1)
  have w: "waiting ?s k = served k (map (\<lambda>item. (Control, it_value item)) taken) @ waiting ?s' k" for k
    by (simp add: served_class waiting_def c(2) backlog_def split: option.split)
  have "advances rd rd'" unfolding advances_def using d q w
    by (intro conjI exI [of _ "map (\<lambda>item. (Control, it_value item)) taken"]) simp_all
  moreover have "round_ok p b rd'" using assms d q ok c(4-6) by (simp add: round_ok_def)
  ultimately show thesis using that [OF c(1)] d(1,2,6) idle by simp
qed

lemma visit_step:
  assumes ok: "round_ok p b rd" and act: "sc_active (rd_sched rd) = f # rest" and vis: "rs_active_flows_visited (rd_stats rd) < usize_max"
  obtains rd' where "visit_flow clock p b rd = Ok rd'" "round_ok p b rd'" "advances rd rd'" "length rest \<le> length (sc_active (rd_sched rd'))"
    "rs_active_flows_visited (rd_stats rd') = rs_active_flows_visited (rd_stats rd) + 1"
    "rd_calls rd' = rd_calls rd \<Longrightarrow> rs_packets (rd_stats rd) = 0 \<Longrightarrow> rs_bytes (rd_stats rd) = 0 \<Longrightarrow> 0 < p \<Longrightarrow> max_packet_bytes (sc_config (rd_sched rd)) \<le> b \<Longrightarrow>
       \<exists>q d. fmlookup (sc_flows (rd_sched rd)) f = Some q \<and> sc_active (rd_sched rd') = rest @ [f] \<and>
         sc_flows (rd_sched rd') = fmupd f (q\<lparr>fq_deficit := d\<rparr>) (fmdrop f (sc_flows (rd_sched rd))) \<and> sc_control (rd_sched rd') = sc_control (rd_sched rd) \<and>
         d = sat_add (fq_deficit q) (sat_mul (quantum_bytes (sc_config (rd_sched rd))) (unat (fq_weight q))) \<and> d < max_packet_bytes (sc_config (rd_sched rd)) \<and>
         rs_time_budget_exhausted (rd_stats rd') = rs_time_budget_exhausted (rd_stats rd) \<and>
         rs_packets (rd_stats rd') = 0 \<and> rs_bytes (rd_stats rd') = 0"
proof -
  let ?s = "rd_sched rd"
  let ?c = "sc_config ?s"
  have s: "sched_ok ?s" "flows_ok ?s []" "config_ok ?c" using ok by (simp_all add: round_ok_def sched_ok_def)
  obtain q where q: "fmlookup (sc_flows ?s) f = Some q" "queue_ok ?c q" "f \<notin> set rest"
    "flows_ok (?s\<lparr>sc_active := rest, sc_flows := fmdrop f (sc_flows ?s)\<rparr>) (fq_items q)" by (rule flows_take [OF s(2) act])
  let ?s1 = "?s\<lparr>sc_active := rest, sc_flows := fmdrop f (sc_flows ?s)\<rparr>"
  let ?d = "sat_add (fq_deficit q) (sat_mul (quantum_bytes ?c) (unat (fq_weight q)))"
  let ?q1 = "q\<lparr>fq_deficit := ?d\<rparr>" and ?r1 = "rd\<lparr>rd_sched := ?s1, rd_stats := (rd_stats rd)\<lparr>rs_active_flows_visited := rs_active_flows_visited (rd_stats rd) + 1\<rparr>\<rparr>"
  have n: "length (fq_items q) \<le> sc_queued_packets ?s" "item_total (fq_items q) \<le> sc_queued_bytes ?s" using q(4) by (simp_all add: flows_ok_def)
  have c1: "counted ?r1 (fq_items ?q1)" using round_counted [OF ok n] by (simp add: counted_def)
  have c2: "fq_bytes ?q1 = item_total (fq_items ?q1)" using q(2) by (simp add: queue_ok_def)
  from flow_loop_ok [OF c1 c2 le0, of clock p b f] obtain q' r2 taken where
    raw: "flow_loop clock p b f ?q1 0 ?r1 = Ok (q', r2)" "fq_items ?q1 = taken @ fq_items q'" "sends (Data f (fq_weight ?q1)) taken ?r1 r2"
      "fq_weight q' = fq_weight ?q1" "fq_bytes q' = item_total (fq_items q')"
      "rs_packets (rd_stats ?r1) \<le> p \<longrightarrow> rs_packets (rd_stats r2) \<le> p" "rs_bytes (rd_stats ?r1) \<le> b \<longrightarrow> rs_bytes (rd_stats r2) \<le> b"
      "taken = [] \<longrightarrow> r2 = ?r1 \<and> q' = ?q1 \<and> (\<forall>item rest. fq_items ?q1 = item # rest \<longrightarrow>
         fq_deficit ?q1 < it_bytes item \<or> max_contiguous_flow_bytes (sc_config (rd_sched ?r1)) < sat_add 0 (it_bytes item) \<or>
         \<not> fits_round (rd_stats ?r1) (it_bytes item) p b)"
    by (elim exE conjE) (rule that)
  have l: "flow_loop clock p b f ?q1 0 ?r1 = Ok (q', r2)" "fq_items q = taken @ fq_items q'"
      "sends (Data f (fq_weight q)) taken ?r1 r2" "fq_weight q' = fq_weight q" "fq_bytes q' = item_total (fq_items q')"
      "rs_packets (rd_stats r2) \<le> p" "rs_bytes (rd_stats r2) \<le> b"
    using raw(1-7) ok by (simp_all add: round_ok_def)
  have idle: "r2 = ?r1" "q' = ?q1" "fq_items q = item # items \<Longrightarrow>
       ?d < it_bytes item \<or> max_contiguous_flow_bytes ?c < sat_add 0 (it_bytes item) \<or> \<not> fits_round (rd_stats rd) (it_bytes item) p b"
    if "taken = []" for item items using raw(8) that by (simp_all add: fits_round_def)
  let ?s2 = "?s1\<lparr>sc_queued_packets := sc_queued_packets ?s - length taken, sc_queued_bytes := sc_queued_bytes ?s - item_total taken\<rparr>"
  have d: "rd_sched r2 = ?s2" "rd_calls r2 = rd_calls rd @ map (\<lambda>item. (Data f (fq_weight q), it_value item)) taken"
    "rs_packets (rd_stats r2) = rs_packets (rd_stats rd) + length taken" "rs_bytes (rd_stats r2) = rs_bytes (rd_stats rd) + item_total taken"
    "rs_control_packets (rd_stats r2) = rs_control_packets (rd_stats rd)" "rs_active_flows_visited (rd_stats r2) = rs_active_flows_visited (rd_stats rd) + 1"
    using l(3) by (simp_all add: sends_def)
  let ?s3 = "if fq_items q' = [] then ?s2 else ?s2\<lparr>sc_active := rest @ [f], sc_flows := fmupd f q' (fmdrop f (sc_flows ?s))\<rparr>"
  define r3 where "r3 = r2\<lparr>rd_sched := ?s3\<rparr>"
  have v: "visit_flow clock p b rd = Ok r3"
    using act q(1) vis l(1) d(1) by (simp add: visit_flow_def plus_usize_def r3_def Let_def)
  have t: "length taken \<le> sc_queued_packets ?s" "item_total taken \<le> sc_queued_bytes ?s" using n l(2) by simp_all
  have f2: "flows_ok ?s2 (fq_items q')" using flows_sent [of ?s1 taken "fq_items q'"] q(4) l(2) by simp
  have f3: "flows_ok ?s3 []"
  proof (cases "fq_items q' = []")
    case False
    then have "queue_ok ?c q'" using q(2) l(2,4,5) by (auto simp: queue_ok_def)
    then show ?thesis using flows_put [OF f2, of f] q(3) False by simp
  qed (use f2 in simp)
  have ok3: "sched_ok ?s3" using s(1) f3 act by (auto simp: sched_ok_def le_diff_conv trans_le_add1)
  have w: "waiting ?s k = served k (map (\<lambda>item. (Data f (fq_weight q), it_value item)) taken) @ waiting ?s3 k" for k
    using l(2) q(1) by (auto simp: served_class waiting_def backlog_def split: option.split)
  have "advances rd r3" unfolding advances_def using d t w
    by (intro conjI exI [of _ "map (\<lambda>item. (Data f (fq_weight q), it_value item)) taken"]) (simp_all add: r3_def)
  moreover have "round_ok p b r3" using ok ok3 d t l(6,7) by (auto simp: round_ok_def r3_def)
  moreover have "length rest \<le> length (sc_active (rd_sched r3))" by (simp add: r3_def)
  moreover have "\<exists>q d. fmlookup (sc_flows ?s) f = Some q \<and> sc_active (rd_sched r3) = rest @ [f] \<and>
         sc_flows (rd_sched r3) = fmupd f (q\<lparr>fq_deficit := d\<rparr>) (fmdrop f (sc_flows ?s)) \<and> sc_control (rd_sched r3) = sc_control ?s \<and>
         d = sat_add (fq_deficit q) (sat_mul (quantum_bytes ?c) (unat (fq_weight q))) \<and> d < max_packet_bytes ?c \<and>
         rs_time_budget_exhausted (rd_stats r3) = rs_time_budget_exhausted (rd_stats rd) \<and> rs_packets (rd_stats r3) = 0 \<and> rs_bytes (rd_stats r3) = 0"
    if i: "rd_calls r3 = rd_calls rd" "rs_packets (rd_stats rd) = 0" "rs_bytes (rd_stats rd) = 0" "0 < p" "max_packet_bytes ?c \<le> b"
  proof -
    have tk: "taken = []" using i(1) d(2) by (simp add: r3_def)
    obtain item items where it: "fq_items q = item # items" using q(2) by (cases "fq_items q") (auto simp: queue_ok_def)
    have m: "it_bytes item \<le> max_packet_bytes ?c" "max_packet_bytes ?c \<le> max_contiguous_flow_bytes ?c" "max_packet_bytes ?c < usize_max"
      using q(2) it s(3) by (auto simp: queue_ok_def config_ok_def scheduler_validate_def split: if_splits)
    have "fits_round (rd_stats rd) (it_bytes item) p b" using i m by (simp add: fits_round_def sat_add_def)
    then have "?d < max_packet_bytes ?c" using idle(3) [OF tk it] m by (auto simp: sat_add_def)
    moreover have "rs_time_budget_exhausted (rd_stats r2) = rs_time_budget_exhausted (rd_stats rd)" unfolding idle(1) [OF tk] by simp
    ultimately show ?thesis using idle(2) [OF tk] it q(1) i d tk by (intro exI [of _ q] exI [of _ ?d]) (simp add: r3_def)
  qed
  ultimately show thesis using that [OF v] d(6) by (simp add: r3_def)
qed

end
