(* ===== verification/Scheduler_Rounds.thy ===== *)
theory Scheduler_Rounds
  imports Scheduler_Facts
begin

text \<open>
  Whole rounds, admission and rounds without progress, the interface of a service with one queue per class, and the
  properties of the scheduler.
\<close>

section \<open>Whole rounds\<close>

lemma round_over_ok:
  "round_over clock p rd = (over, rd') \<Longrightarrow> round_ok p b rd \<Longrightarrow> round_ok p b rd' \<and> advances rd rd' \<and> rd_sched rd' = rd_sched rd \<and>
     rs_active_flows_visited (rd_stats rd') = rs_active_flows_visited (rd_stats rd)"
  by (auto simp: round_over_def Let_def split: if_splits)

lemma visit_loop_ok:
  assumes "round_ok p b rd" "n \<le> length (sc_active (rd_sched rd))" "rs_active_flows_visited (rd_stats rd) + n \<le> usize_max"
  shows "\<exists>rd'. visit_loop n clock p b rd = Ok rd' \<and> round_ok p b rd' \<and> advances rd rd'"
  using assms
proof (induction n arbitrary: rd)
  case (Suc n)
  obtain over r1 where o: "round_over clock p rd = (over, r1)" by fastforce
  note r1 = round_over_ok [OF o Suc.prems(1)]
  show ?case
  proof (cases over)
    case True
    then show ?thesis using o r1 by simp
  next
    case False
    obtain f rest where act: "sc_active (rd_sched r1) = f # rest" using r1 Suc.prems(2) by (cases "sc_active (rd_sched r1)") auto
    have "round_ok p b r1" "rs_active_flows_visited (rd_stats r1) < usize_max" using r1 Suc.prems(3) by simp_all
    then obtain r2 where r2: "visit_flow clock p b r1 = Ok r2" "round_ok p b r2" "advances r1 r2" "length rest \<le> length (sc_active (rd_sched r2))"
      "rs_active_flows_visited (rd_stats r2) = rs_active_flows_visited (rd_stats r1) + 1" by (rule visit_step [OF _ act])
    have adv: "advances rd r2" using r1 r2(3) advances_trans by blast
    have "length (sc_active (rd_sched rd)) = Suc (length rest)" using r1 act by (metis length_Cons)
    then have "\<exists>rd'. visit_loop n clock p b r2 = Ok rd' \<and> round_ok p b rd' \<and> advances r2 rd'"
      using Suc.prems(2,3) r1 r2 by (intro Suc.IH) simp_all
    then show ?thesis using o False r2(1,2) adv advances_trans by fastforce
  qed
qed simp

abbreviation fresh_round :: "'a Scheduler \<Rightarrow> 'a Round" where
  "fresh_round s \<equiv> \<lparr>rd_sched = s, rd_stats = no_stats, rd_calls = [], rd_reads = 0\<rparr>"

lemma fresh_round_ok: "sched_ok s \<Longrightarrow> round_ok p b (fresh_round s)"
  by (simp add: round_ok_def no_stats_def sched_ok_def config_ok_def)

lemma run_round_limited_ok:
  assumes "sched_ok s"
  obtains rd where "run_round_limited clock s mp mb = Ok rd" "advances (fresh_round s) rd"
    "round_ok (min mp (max_packets_per_round (sc_config s))) (min mb (max_bytes_per_round (sc_config s))) rd"
proof -
  let ?p = "min mp (max_packets_per_round (sc_config s))" and ?b = "min mb (max_bytes_per_round (sc_config s))"
  obtain r1 where r1: "control_loop clock ?p ?b (fresh_round s) = Ok r1" "round_ok ?p ?b r1" "advances (fresh_round s) r1"
    "sc_active (rd_sched r1) = sc_active s" "rs_active_flows_visited (rd_stats r1) = 0"
    by (rule control_step [where p = ?p and b = ?b and clock = clock, OF fresh_round_ok [OF assms]]) (simp add: no_stats_def)
  show thesis
  proof (cases "rs_time_budget_exhausted (rd_stats r1)")
    case True
    then show ?thesis using that r1 by (simp add: run_round_limited_def)
  next
    case False
    have "length (sc_active (rd_sched r1)) \<le> usize_max" using assms r1(4) by (simp add: sched_ok_def config_ok_def)
    then obtain r2 where "visit_loop (length (sc_active (rd_sched r1))) clock ?p ?b r1 = Ok r2" "round_ok ?p ?b r2" "advances r1 r2"
      using visit_loop_ok [OF r1(2) order_refl, of clock] r1(5) by auto
    then show ?thesis using that [of r2] False r1(1) advances_trans [OF r1(3)] by (simp add: run_round_limited_def)
  qed
qed

section \<open>Admission\<close>

lemma flow_count: "flows_ok s xs \<Longrightarrow> fcard (fmdom (sc_flows s)) = length (sc_active s)"
  by (auto simp: flows_ok_def fcard.rep_eq dest: distinct_card)

definition admits :: "'a Scheduler \<Rightarrow> WorkClass \<Rightarrow> nat \<Rightarrow> bool" where
  "admits s work bytes \<longleftrightarrow> bytes \<le> max_packet_bytes (sc_config s) \<and> sc_queued_packets s < max_queued_packets (sc_config s) \<and>
     sc_queued_bytes s + bytes \<le> max_queued_bytes (sc_config s) \<and>
     (case work of
        Control \<Rightarrow> True
      | Data f w \<Rightarrow> w \<noteq> 0 \<and> (if f \<in> set (sc_active s) then length (backlog s f) < max_packets_per_flow (sc_config s)
                            else length (sc_active s) < max_active_flows (sc_config s)))"

text \<open>The queues with one more item, before the totals are raised.\<close>

definition entered_ok :: "'a Scheduler \<Rightarrow> 'a Scheduler \<Rightarrow> FlowId option \<Rightarrow> nat \<Rightarrow> 'a \<Rightarrow> bool" where
  "entered_ok s s' k bytes val \<longleftrightarrow>
     flows_ok (s'\<lparr>sc_queued_packets := sc_queued_packets s + 1, sc_queued_bytes := sc_queued_bytes s + bytes\<rparr>) [] \<and>
     sc_config s' = sc_config s \<and> sc_queued_packets s' = sc_queued_packets s \<and> sc_queued_bytes s' = sc_queued_bytes s \<and>
     length (sc_active s') \<le> max_active_flows (sc_config s) \<and>
     (\<forall>k'. waiting s' k' = waiting s k' @ (if k' = k then [val] else []))"

lemma enter_control:
  assumes "sched_ok s" "bytes \<le> max_packet_bytes (sc_config s)"
  shows "entered_ok s (s\<lparr>sc_control := sc_control s @ [\<lparr>it_bytes = bytes, it_value = val\<rparr>]\<rparr>) None bytes val"
proof -
  have f: "flows_ok s []" "length (sc_active s) \<le> max_active_flows (sc_config s)" using assms(1) by (simp_all add: sched_ok_def)
  then show ?thesis using assms(2) by (auto simp: entered_ok_def flows_ok_def waiting_def backlog_def split: option.split)
qed

lemma enter_new_flow:
  assumes "sched_ok s" "bytes \<le> max_packet_bytes (sc_config s)" "f \<notin> set (sc_active s)" "length (sc_active s) < max_active_flows (sc_config s)" "w \<noteq> 0"
  shows "entered_ok s (s\<lparr>sc_flows := fmupd f \<lparr>fq_weight = w, fq_deficit = 0, fq_bytes = bytes, fq_items = [\<lparr>it_bytes = bytes, it_value = val\<rparr>]\<rparr> (sc_flows s),
      sc_active := sc_active s @ [f]\<rparr>) (Some f) bytes val"
proof -
  let ?q = "\<lparr>fq_weight = w, fq_deficit = 0, fq_bytes = bytes, fq_items = [\<lparr>it_bytes = bytes, it_value = val\<rparr>]\<rparr>"
  let ?s = "s\<lparr>sc_queued_packets := sc_queued_packets s + 1, sc_queued_bytes := sc_queued_bytes s + bytes\<rparr>"
  have s: "flows_ok s []" "config_ok (sc_config s)" using assms(1) by (simp_all add: sched_ok_def)
  have "backlog ?s = backlog s" by (simp add: backlog_def fun_eq_iff)
  then have "flows_ok ?s (fq_items ?q)" using s(1) by (simp add: flows_ok_def)
  moreover have "queue_ok (sc_config ?s) ?q"
    using assms(2,5) s(2) by (auto simp: queue_ok_def config_ok_def scheduler_validate_def split: if_splits)
  ultimately have "flows_ok (?s\<lparr>sc_active := sc_active ?s @ [f], sc_flows := fmupd f ?q (sc_flows ?s)\<rparr>) []"
    using assms(3) by (intro flows_put) simp_all
  also have "?s\<lparr>sc_active := sc_active ?s @ [f], sc_flows := fmupd f ?q (sc_flows ?s)\<rparr> =
      s\<lparr>sc_flows := fmupd f ?q (sc_flows s), sc_active := sc_active s @ [f], sc_queued_packets := sc_queued_packets s + 1, sc_queued_bytes := sc_queued_bytes s + bytes\<rparr>"
    by (rule Scheduler.Scheduler.equality) simp_all
  finally have "flows_ok (s\<lparr>sc_flows := fmupd f ?q (sc_flows s), sc_active := sc_active s @ [f], sc_queued_packets := sc_queued_packets s + 1,
      sc_queued_bytes := sc_queued_bytes s + bytes\<rparr>) []" .
  moreover have "fmlookup (sc_flows s) f = None" using assms(3) s(1) by (auto simp: flows_ok_def fmdom_notD)
  ultimately show ?thesis using assms(4) by (auto simp: entered_ok_def waiting_def backlog_def split: option.split)
qed

lemma enter_flow:
  assumes "sched_ok s" "bytes \<le> max_packet_bytes (sc_config s)" "fmlookup (sc_flows s) f = Some q"
    "length (fq_items q) < max_packets_per_flow (sc_config s)"
  shows "entered_ok s (s\<lparr>sc_flows := fmupd f (q\<lparr>fq_bytes := fq_bytes q + bytes, fq_items := fq_items q @ [\<lparr>it_bytes = bytes, it_value = val\<rparr>]\<rparr>) (sc_flows s)\<rparr>)
    (Some f) bytes val"
proof -
  let ?q = "q\<lparr>fq_bytes := fq_bytes q + bytes, fq_items := fq_items q @ [\<lparr>it_bytes = bytes, it_value = val\<rparr>]\<rparr>"
  let ?s = "s\<lparr>sc_flows := fmupd f ?q (sc_flows s), sc_queued_packets := sc_queued_packets s + 1, sc_queued_bytes := sc_queued_bytes s + bytes\<rparr>"
  have s: "flows_ok s []" "queue_ok (sc_config s) q" "length (sc_active s) \<le> max_active_flows (sc_config s)"
    using assms(1,3) by (auto simp: sched_ok_def flows_ok_def)
  have dom: "f \<in> set (sc_active s)" using s(1) assms(3) by (auto simp: flows_ok_def fmdomI)
  then obtain as bs where a: "sc_active s = as @ f # bs" by (meson split_list)
  have n: "f \<notin> set as" "f \<notin> set bs" using s(1) a by (auto simp: flows_ok_def)
  have b: "backlog ?s g = backlog s g" if "g \<noteq> f" for g using that by (simp add: backlog_def)
  have ba: "backlog ?s g = backlog s g" if "g \<in> set as" for g using b n(1) that by metis
  have bb: "backlog ?s g = backlog s g" if "g \<in> set bs" for g using b n(2) that by metis
  have bf: "backlog ?s f = backlog s f @ [\<lparr>it_bytes = bytes, it_value = val\<rparr>]" using assms(3) by (simp add: backlog_def)
  have sums: "(\<Sum>f\<leftarrow>sc_active s. length (backlog ?s f)) = (\<Sum>f\<leftarrow>sc_active s. length (backlog s f)) + 1"
    "(\<Sum>f\<leftarrow>sc_active s. item_total (backlog ?s f)) = (\<Sum>f\<leftarrow>sc_active s. item_total (backlog s f)) + bytes"
    using backlog_sums [of as ?s s, OF ba] backlog_sums [of bs ?s s, OF bb] bf by (simp_all add: a)
  have "queue_ok (sc_config s) ?q" using s(2) assms(2,4) by (auto simp: queue_ok_def)
  moreover have "finsert f (fmdom (sc_flows s)) = fmdom (sc_flows s)" using fmdomI [OF assms(3)] by auto
  ultimately have "flows_ok ?s []" using s(1) sums by (auto simp: flows_ok_def)
  then show ?thesis using s(3) assms(3) by (auto simp: entered_ok_def waiting_def backlog_def split: option.split)
qed

lemma waiting_totals [simp]: "waiting (s\<lparr>sc_queued_packets := p, sc_queued_bytes := b\<rparr>) k = waiting s k"
  by (simp add: waiting_def backlog_def split: option.split)

lemma raise_totals:
  assumes ok: "sched_ok s" and room: "sc_queued_packets s < max_queued_packets (sc_config s)" "sc_queued_bytes s + bytes \<le> max_queued_bytes (sc_config s)"
    and e: "entered_ok s s1 k bytes val"
  shows "\<exists>s'. and_then (plus_usize (sc_queued_packets s1) 1) (\<lambda>packets. and_then (plus_usize (sc_queued_bytes s1) bytes) (\<lambda>total.
      (Ok (s1\<lparr>sc_queued_packets := packets, sc_queued_bytes := total\<rparr>) :: ('a EnqueueError, 'a Scheduler) res))) = Ok s' \<and>
    sched_ok s' \<and> (\<forall>k'. waiting s' k' = waiting s k' @ (if k' = k then [val] else []))"
proof -
  have c: "config_ok (sc_config s)" using ok by (simp add: sched_ok_def)
  then have "max_queued_packets (sc_config s) \<le> usize_max" "max_queued_bytes (sc_config s) < usize_max" by (simp_all add: config_ok_def)
  then have "sc_queued_packets s1 + 1 \<le> usize_max" "sc_queued_bytes s1 + bytes \<le> usize_max" using room e by (simp_all add: entered_ok_def)
  moreover have "sched_ok (s1\<lparr>sc_queued_packets := sc_queued_packets s1 + 1, sc_queued_bytes := sc_queued_bytes s1 + bytes\<rparr>)"
    using e c room by (simp add: entered_ok_def sched_ok_def)
  ultimately show ?thesis using e
    by (intro exI [of _ "s1\<lparr>sc_queued_packets := sc_queued_packets s1 + 1, sc_queued_bytes := sc_queued_bytes s1 + bytes\<rparr>"])
      (simp add: plus_usize_def entered_ok_def)
qed

lemma enqueue_spec:
  assumes ok: "sched_ok s"
  shows "case enqueue s work bytes val of
      Ok s' \<Rightarrow> admits s work bytes \<and> sched_ok s' \<and> (\<forall>k. waiting s' k = waiting s k @ (if k = class_key work then [val] else []))
    | Err e \<Rightarrow> \<not> admits s work bytes \<and> into_inner e = val
    | Panic \<Rightarrow> False"
proof -
  let ?c = "sc_config s"
  have c: "config_ok ?c" "flows_ok s []" "sc_queued_packets s \<le> max_queued_packets ?c" "sc_queued_bytes s \<le> max_queued_bytes ?c"
    "length (sc_active s) \<le> max_active_flows ?c"
    using ok by (simp_all add: sched_ok_def)
  have lim: "max_queued_packets ?c \<le> usize_max" "max_queued_bytes ?c < usize_max" using c(1) by (simp_all add: config_ok_def)
  show ?thesis
  proof (cases "bytes \<le> max_packet_bytes ?c \<and> sc_queued_packets s < max_queued_packets ?c \<and> sc_queued_bytes s + bytes \<le> max_queued_bytes ?c")
    case False
    then have "\<exists>e. enqueue s work bytes val = Err e \<and> into_inner e = val"
      using c(3) lim by (auto simp: enqueue_def sat_add_def)
    then show ?thesis using False by (auto simp: admits_def)
  next
    case True
    then have room: "\<not> max_packet_bytes ?c < bytes" "\<not> (sc_queued_packets s = max_queued_packets ?c \<or> max_queued_bytes ?c < sat_add (sc_queued_bytes s) bytes)"
      using lim by (auto simp: sat_add_def)
    note enter = raise_totals [OF ok conjunct1 [OF conjunct2 [OF True]] conjunct2 [OF conjunct2 [OF True]]]
    show ?thesis
    proof (cases work)
      case Control
      have e: "entered_ok s (s\<lparr>sc_control := sc_control s @ [\<lparr>it_bytes = bytes, it_value = val\<rparr>]\<rparr>) (class_key work) bytes val"
        using enter_control [OF ok, of bytes val] True Control by simp
      show ?thesis using enter [OF e] room True Control by (auto simp: enqueue_def admits_def)
    next
      case (Data f w)
      have mem: "f \<in> set (sc_active s) \<longleftrightarrow> fmlookup (sc_flows s) f \<noteq> None" using c(2) by (auto simp: flows_ok_def fmlookup_dom_iff)
      show ?thesis
      proof (cases "fmlookup (sc_flows s) f")
        case None
        show ?thesis
        proof (cases "w \<noteq> 0 \<and> length (sc_active s) < max_active_flows ?c")
          case t: True
          let ?s1 = "s\<lparr>sc_flows := fmupd f \<lparr>fq_weight = w, fq_deficit = 0, fq_bytes = bytes, fq_items = [\<lparr>it_bytes = bytes, it_value = val\<rparr>]\<rparr> (sc_flows s),
              sc_active := sc_active s @ [f]\<rparr>"
          have "entered_ok s ?s1 (class_key work) bytes val" using enter_new_flow [OF ok, of bytes f w val] True t None mem Data by simp
          from enter [OF this] show ?thesis using room True Data t None mem flow_count [OF c(2)]
            by (auto simp: enqueue_def enqueue_data_def admits_def simp del: One_nat_def)
        next
          case False
          then show ?thesis using room Data None mem c(5) flow_count [OF c(2)] by (auto simp: enqueue_def enqueue_data_def admits_def)
        qed
      next
        case (Some q)
        have q: "backlog s f = fq_items q" "fq_bytes q = item_total (fq_items q)" "length (fq_items q) \<le> max_packets_per_flow ?c"
          using c(2) Some by (auto simp: backlog_def flows_ok_def queue_ok_def)
        have "item_total (backlog s f) \<le> (\<Sum>f\<leftarrow>sc_active s. item_total (backlog s f))" using mem Some by (intro member_le_sum_list) auto
        then have "fq_bytes q + bytes \<le> usize_max" using c(2) True lim q by (auto simp: flows_ok_def)
        then have plus: "plus_usize (fq_bytes q) bytes = (Ok (fq_bytes q + bytes) :: ('a EnqueueError, nat) res)" by (simp add: plus_usize_def)
        show ?thesis
        proof (cases "w \<noteq> 0 \<and> length (fq_items q) < max_packets_per_flow ?c")
          case t: True
          let ?s1 = "s\<lparr>sc_flows := fmupd f (q\<lparr>fq_bytes := fq_bytes q + bytes, fq_items := fq_items q @ [\<lparr>it_bytes = bytes, it_value = val\<rparr>]\<rparr>) (sc_flows s)\<rparr>"
          have "entered_ok s ?s1 (class_key work) bytes val" using enter_flow [OF ok, of bytes f q val] True t Some Data by simp
          from enter [OF this] show ?thesis using room True Data t Some mem q(1) plus
            by (auto simp: enqueue_def enqueue_data_def admits_def simp del: One_nat_def)
        next
          case False
          then show ?thesis using room Data Some mem q by (auto simp: enqueue_def enqueue_data_def admits_def)
        qed
      qed
    qed
  qed
qed

section \<open>Rounds without progress\<close>

text \<open>The deficit of a flow, and what a round that hands out nothing does to it.\<close>

definition deficit_of :: "'a Scheduler \<Rightarrow> FlowId \<Rightarrow> nat" where
  "deficit_of s f = (case fmlookup (sc_flows s) f of None \<Rightarrow> 0 | Some q \<Rightarrow> fq_deficit q)"

lemma weight_quantum:
  assumes "sat_add d (sat_mul q (unat w)) < m" "m \<le> usize_max" "w \<noteq> (0 :: u16)"
  shows "d + q \<le> sat_add d (sat_mul q (unat w))"
proof -
  have "0 < unat w" using assms(3) by (simp add: unat_gt_0)
  then have "q * 1 \<le> q * unat w" by (intro mult_le_mono2) simp
  then show ?thesis using assms(1,2) by (auto simp: sat_add_def sat_mul_def)
qed

lemma advances_calls: "advances r1 r2 \<Longrightarrow> \<exists>new. rd_calls r2 = rd_calls r1 @ new"
  unfolding advances_def by blast

lemma idle_calls:
  assumes "advances r1 r2" "advances r2 r3" "rd_calls r3 = rd_calls r1" shows "rd_calls r2 = rd_calls r1" "rd_calls r3 = rd_calls r2"
  using advances_calls [OF assms(1)] advances_calls [OF assms(2)] assms(3) by (elim exE; simp)+

text \<open>A loop of visits that hands out nothing raises the deficit of every flow it visits by at least the quantum.\<close>

lemma visit_loop_idle:
  assumes "round_ok p b rd" "sc_active (rd_sched rd) = xs @ ys" "rs_active_flows_visited (rd_stats rd) + length xs \<le> usize_max"
    and "visit_loop (length xs) clock p b rd = Ok rd'" "rd_calls rd' = rd_calls rd"
    and "rs_packets (rd_stats rd) = 0" "rs_bytes (rd_stats rd) = 0" "0 < p" "max_packet_bytes (sc_config (rd_sched rd)) \<le> b"
      "\<not> rs_time_budget_exhausted (rd_stats rd)"
  shows "sc_active (rd_sched rd') = ys @ xs \<and> sc_control (rd_sched rd') = sc_control (rd_sched rd) \<and>
    sc_config (rd_sched rd') = sc_config (rd_sched rd) \<and>
    (\<forall>f\<in>set xs. deficit_of (rd_sched rd) f + quantum_bytes (sc_config (rd_sched rd)) \<le> deficit_of (rd_sched rd') f \<and>
       deficit_of (rd_sched rd') f < max_packet_bytes (sc_config (rd_sched rd))) \<and>
    (\<forall>f. f \<notin> set xs \<longrightarrow> deficit_of (rd_sched rd') f = deficit_of (rd_sched rd) f)"
  using assms
proof (induction xs arbitrary: rd ys)
  case (Cons f xs)
  let ?s = "rd_sched rd"
  let ?c = "sc_config ?s"
  have over: "round_over clock p rd = (False, rd)" using Cons.prems(6,8) by (simp add: round_over_def)
  have act: "sc_active ?s = f # (xs @ ys)" using Cons.prems(2) by simp
  have vis: "rs_active_flows_visited (rd_stats rd) < usize_max" using Cons.prems(3) by simp
  obtain r2 where r2: "visit_flow clock p b rd = Ok r2" "round_ok p b r2" "advances rd r2"
    "rs_active_flows_visited (rd_stats r2) = rs_active_flows_visited (rd_stats rd) + 1"
    "length (xs @ ys) \<le> length (sc_active (rd_sched r2))"
    and idle: "rd_calls r2 = rd_calls rd \<Longrightarrow> rs_packets (rd_stats rd) = 0 \<Longrightarrow> rs_bytes (rd_stats rd) = 0 \<Longrightarrow> 0 < p \<Longrightarrow> max_packet_bytes ?c \<le> b \<Longrightarrow>
       \<exists>q d. fmlookup (sc_flows ?s) f = Some q \<and> sc_active (rd_sched r2) = (xs @ ys) @ [f] \<and>
         sc_flows (rd_sched r2) = fmupd f (q\<lparr>fq_deficit := d\<rparr>) (fmdrop f (sc_flows ?s)) \<and> sc_control (rd_sched r2) = sc_control ?s \<and>
         d = sat_add (fq_deficit q) (sat_mul (quantum_bytes ?c) (unat (fq_weight q))) \<and> d < max_packet_bytes ?c \<and>
         rs_time_budget_exhausted (rd_stats r2) = rs_time_budget_exhausted (rd_stats rd) \<and> rs_packets (rd_stats r2) = 0 \<and> rs_bytes (rd_stats r2) = 0"
    by (rule visit_step [where clock = clock, OF Cons.prems(1) act vis]) (rule that)
  have quiet: "rd_calls r2 = rd_calls rd"
  proof (cases "rs_time_budget_exhausted (rd_stats r2)")
    case True
    then show ?thesis using Cons.prems(4,5) over r2(1) by simp
  next
    case False
    then have "visit_loop (length xs) clock p b r2 = Ok rd'" using Cons.prems(4) over r2(1) by simp
    moreover have "\<exists>rd'. visit_loop (length xs) clock p b r2 = Ok rd' \<and> round_ok p b rd' \<and> advances r2 rd'"
      using r2(2,4,5) Cons.prems(3) by (intro visit_loop_ok) simp_all
    ultimately have "advances r2 rd'" by auto
    then show ?thesis using idle_calls(1) [OF r2(3)] Cons.prems(5) by blast
  qed
  from idle [OF this Cons.prems(6-9)] obtain q d where q: "fmlookup (sc_flows ?s) f = Some q" "sc_active (rd_sched r2) = xs @ (ys @ [f])"
    "sc_flows (rd_sched r2) = fmupd f (q\<lparr>fq_deficit := d\<rparr>) (fmdrop f (sc_flows ?s))" "sc_control (rd_sched r2) = sc_control ?s"
    "d = sat_add (fq_deficit q) (sat_mul (quantum_bytes ?c) (unat (fq_weight q)))" "d < max_packet_bytes ?c"
    "\<not> rs_time_budget_exhausted (rd_stats r2)" "rs_packets (rd_stats r2) = 0" "rs_bytes (rd_stats r2) = 0"
    using Cons.prems(10) by auto
  have c: "sc_config (rd_sched r2) = ?c" using r2(3) by (simp add: advances_def)
  have ih: "visit_loop (length xs) clock p b r2 = Ok rd'" "rd_calls rd' = rd_calls r2"
    using Cons.prems(4,5) over r2(1) q(7) quiet by simp_all
  have v: "rs_active_flows_visited (rd_stats r2) + length xs \<le> usize_max" using Cons.prems(3) r2(4) by simp
  note IH = Cons.IH [OF r2(2) q(2) v ih q(8,9) Cons.prems(8) Cons.prems(9) [folded c] q(7), unfolded c]
  have ok: "sched_ok ?s" using Cons.prems(1) by (simp add: round_ok_def)
  have w: "fq_weight q \<noteq> 0" using ok q(1) by (auto simp: sched_ok_def flows_ok_def queue_ok_def)
  have m: "max_packet_bytes ?c \<le> usize_max" using ok
    by (auto simp: sched_ok_def config_ok_def scheduler_validate_def split: if_splits)
  have f: "f \<notin> set xs" using ok act by (auto simp: sched_ok_def flows_ok_def)
  have df: "deficit_of ?s f = fq_deficit q" "deficit_of (rd_sched r2) f = d" using q(1,3) by (simp_all add: deficit_of_def)
  have dg: "deficit_of (rd_sched r2) g = deficit_of ?s g" if "g \<noteq> f" for g using q(3) that by (simp add: deficit_of_def)
  have up: "fq_deficit q + quantum_bytes ?c \<le> d" using weight_quantum [OF _ m w] q(5,6) by simp
  have grow: "deficit_of (rd_sched r2) g + quantum_bytes ?c \<le> deficit_of (rd_sched rd') g" "deficit_of (rd_sched rd') g < max_packet_bytes ?c"
    if "g \<in> set xs" for g using IH that by blast+
  have same: "deficit_of (rd_sched rd') g = deficit_of (rd_sched r2) g" if "g \<notin> set xs" for g using IH that by blast
  have ends: "sc_active (rd_sched rd') = (ys @ [f]) @ xs" "sc_control (rd_sched rd') = sc_control (rd_sched r2)" "sc_config (rd_sched rd') = ?c"
    using IH by blast+
  have "deficit_of ?s g + quantum_bytes ?c \<le> deficit_of (rd_sched rd') g \<and> deficit_of (rd_sched rd') g < max_packet_bytes ?c"
    if g: "g \<in> set (f # xs)" for g
  proof (cases "g = f")
    case True
    then show ?thesis using up q(6) df same [OF f] by simp
  next
    case False
    then have "g \<in> set xs" using g by simp
    then show ?thesis using grow [of g] dg [OF False] by simp
  qed
  moreover have "deficit_of (rd_sched rd') g = deficit_of ?s g" if "g \<notin> set (f # xs)" for g using that same dg by simp
  ultimately show ?case using ends q(4) by simp
qed auto

lemma run_round_idle:
  assumes ok: "sched_ok s" and r: "run_round clock s = Ok rd" "rd_calls rd = []"
  shows "sc_control s = []" "sc_active (rd_sched rd) = sc_active s" "sc_config (rd_sched rd) = sc_config s"
    "f \<in> set (sc_active s) \<Longrightarrow> deficit_of s f + quantum_bytes (sc_config s) \<le> deficit_of (rd_sched rd) f"
    "f \<in> set (sc_active s) \<Longrightarrow> deficit_of (rd_sched rd) f < max_packet_bytes (sc_config s)"
proof -
  let ?c = "sc_config s"
  let ?p = "max_packets_per_round ?c" and ?b = "max_bytes_per_round ?c"
  have c: "0 < ?p" "max_packet_bytes ?c \<le> ?b" "0 < max_control_packets ?c" "max_packet_bytes ?c \<le> usize_max"
    using ok by (auto simp: sched_ok_def config_ok_def scheduler_validate_def split: if_splits)
  obtain r1 where r1: "control_loop clock ?p ?b (fresh_round s) = Ok r1" "round_ok ?p ?b r1" "advances (fresh_round s) r1"
    "sc_active (rd_sched r1) = sc_active s" "rs_active_flows_visited (rd_stats r1) = 0"
    and idle: "rd_calls r1 = [] \<Longrightarrow> r1 = fresh_round s \<and> (0 < max_control_packets ?c \<longrightarrow>
       (\<forall>item rest. sc_control s = item # rest \<longrightarrow> \<not> fits_round no_stats (it_bytes item) ?p ?b))"
    by (rule control_step [where p = ?p and b = ?b and clock = clock, OF fresh_round_ok [OF ok]]) (simp add: no_stats_def)
  have len: "length (sc_active s) \<le> usize_max" using ok by (simp add: sched_ok_def config_ok_def)
  have step: "if rs_time_budget_exhausted (rd_stats r1) then rd = r1 else visit_loop (length (sc_active s)) clock ?p ?b r1 = Ok rd"
    using r(1) r1(1,4) by (simp add: run_round_def run_round_limited_def split: if_splits)
  have "advances r1 rd" using step visit_loop_ok [OF r1(2), of "length (sc_active s)" clock] r1(4,5) len by (auto split: if_splits)
  then have fresh: "r1 = fresh_round s" "rd_calls r1 = []" using idle idle_calls(1) [OF r1(3)] r(2) by simp_all
  have "it_bytes item \<le> max_packet_bytes ?c" if "sc_control s = item # rest" for item rest
    using ok that by (auto simp: sched_ok_def flows_ok_def)
  then have "fits_round no_stats (it_bytes item) ?p ?b" if "sc_control s = item # rest" for item rest
    using that c by (force simp: fits_round_def no_stats_def sat_add_def)
  then show "sc_control s = []" using idle [OF fresh(2)] c(3) by (cases "sc_control s") auto
  have vl: "visit_loop (length (sc_active s)) clock ?p ?b (fresh_round s) = Ok rd" using step fresh(1) by (simp add: no_stats_def)
  have "sc_active (rd_sched rd) = [] @ sc_active s \<and> sc_control (rd_sched rd) = sc_control (rd_sched (fresh_round s)) \<and>
    sc_config (rd_sched rd) = sc_config (rd_sched (fresh_round s)) \<and>
    (\<forall>f\<in>set (sc_active s). deficit_of (rd_sched (fresh_round s)) f + quantum_bytes (sc_config (rd_sched (fresh_round s))) \<le> deficit_of (rd_sched rd) f \<and>
       deficit_of (rd_sched rd) f < max_packet_bytes (sc_config (rd_sched (fresh_round s)))) \<and>
    (\<forall>f. f \<notin> set (sc_active s) \<longrightarrow> deficit_of (rd_sched rd) f = deficit_of (rd_sched (fresh_round s)) f)"
    by (rule visit_loop_idle [where p = ?p and b = ?b and clock = clock, OF fresh_round_ok [OF ok] _ _ vl]) (use r(2) c len in \<open>simp_all add: no_stats_def\<close>)
  then show "sc_active (rd_sched rd) = sc_active s" "sc_config (rd_sched rd) = sc_config s"
    "f \<in> set (sc_active s) \<Longrightarrow> deficit_of s f + quantum_bytes ?c \<le> deficit_of (rd_sched rd) f"
    "f \<in> set (sc_active s) \<Longrightarrow> deficit_of (rd_sched rd) f < max_packet_bytes ?c" by simp_all
qed

text \<open>Rounds one after the other, each with the clock it reads.\<close>

fun run_rounds :: "(nat \<Rightarrow> nat) list \<Rightarrow> 'a Scheduler \<Rightarrow> (unit, (WorkClass \<times> 'a) list \<times> 'a Scheduler) res" where
  "run_rounds [] s = Ok ([], s)"
| "run_rounds (clock # clocks) s =
     and_then (run_round clock s) (\<lambda>rd. and_then (run_rounds clocks (rd_sched rd)) (\<lambda>(calls, s). Ok (rd_calls rd @ calls, s)))"

lemma run_rounds_idle:
  assumes "sched_ok s"
  shows "\<exists>calls s'. run_rounds clocks s = Ok (calls, s') \<and> sched_ok s' \<and>
    (calls = [] \<longrightarrow> clocks \<noteq> [] \<longrightarrow> sc_control s = [] \<and> (\<forall>f\<in>set (sc_active s).
       deficit_of s f + length clocks * quantum_bytes (sc_config s) < max_packet_bytes (sc_config s)))"
  using assms
proof (induction clocks arbitrary: s)
  case (Cons clock clocks)
  obtain rd where rd: "run_round clock s = Ok rd" "sched_ok (rd_sched rd)"
    using run_round_limited_ok [OF Cons.prems] unfolding run_round_def round_ok_def by metis
  obtain calls s' where ih: "run_rounds clocks (rd_sched rd) = Ok (calls, s')" "sched_ok s'"
    "calls = [] \<longrightarrow> clocks \<noteq> [] \<longrightarrow> sc_control (rd_sched rd) = [] \<and> (\<forall>f\<in>set (sc_active (rd_sched rd)).
       deficit_of (rd_sched rd) f + length clocks * quantum_bytes (sc_config (rd_sched rd)) < max_packet_bytes (sc_config (rd_sched rd)))"
    using Cons.IH [OF rd(2)] by blast
  have "sc_control s = [] \<and> (\<forall>f\<in>set (sc_active s). deficit_of s f + length (clock # clocks) * quantum_bytes (sc_config s) < max_packet_bytes (sc_config s))"
    if e: "rd_calls rd @ calls = []"
  proof -
    note i = run_round_idle [OF Cons.prems rd(1)]
    have "deficit_of s f + length (clock # clocks) * quantum_bytes (sc_config s) < max_packet_bytes (sc_config s)" if "f \<in> set (sc_active s)" for f
      using i(2,3) i(4,5) [OF _ that] e ih(3) that by (cases "clocks = []") auto
    then show ?thesis using i(1) e by simp
  qed
  then show ?case using rd ih(1,2) by simp
qed simp

section \<open>First in, first out\<close>

text \<open>What a service puts through over a sequence of operations.\<close>

fun through :: "('s \<Rightarrow> 'op \<Rightarrow> 's) \<Rightarrow> ('s \<Rightarrow> 'op \<Rightarrow> 'v list) \<Rightarrow> 's \<Rightarrow> 'op list \<Rightarrow> 'v list" where
  "through step out s [] = []"
| "through step out s (op # ops) = out s op @ through step out (step s op) ops"

text \<open>A service with one queue per class: each operation appends what enters a class and takes what leaves it from the front.\<close>

locale fifo_classes =
  fixes inv :: "'s \<Rightarrow> bool" and step :: "'s \<Rightarrow> 'op \<Rightarrow> 's" and queue :: "'s \<Rightarrow> 'k \<Rightarrow> 'v list"
    and enters :: "'s \<Rightarrow> 'op \<Rightarrow> 'k \<Rightarrow> 'v list" and leaves :: "'s \<Rightarrow> 'op \<Rightarrow> 'k \<Rightarrow> 'v list"
  assumes step_inv: "inv s \<Longrightarrow> inv (step s op)"
    and step_queue: "inv s \<Longrightarrow> queue s k @ enters s op k = leaves s op k @ queue (step s op) k"
begin

lemma steps_inv: "inv s \<Longrightarrow> inv (foldl step s ops)"
  by (induction ops arbitrary: s) (simp_all add: step_inv)

lemma steps_queue:
  "inv s \<Longrightarrow> queue s k @ through step (\<lambda>s op. enters s op k) s ops = through step (\<lambda>s op. leaves s op k) s ops @ queue (foldl step s ops) k"
proof (induction ops arbitrary: s)
  case (Cons op ops)
  have "queue s k @ enters s op k @ through step (\<lambda>s op. enters s op k) (step s op) ops =
      leaves s op k @ queue (step s op) k @ through step (\<lambda>s op. enters s op k) (step s op) ops"
    using step_queue [OF Cons.prems, of k op] by (metis append.assoc)
  then show ?case using Cons.IH [OF step_inv [OF Cons.prems]] by simp
qed simp

end

datatype 'a sched_op = Enqueue WorkClass nat 'a | Round "nat \<Rightarrow> nat" nat nat

fun sched_step :: "'a Scheduler \<Rightarrow> 'a sched_op \<Rightarrow> 'a Scheduler" where
  "sched_step s (Enqueue work bytes val) = (case enqueue s work bytes val of Ok s' \<Rightarrow> s' | _ \<Rightarrow> s)"
| "sched_step s (Round clock mp mb) = (case run_round_limited clock s mp mb of Ok rd \<Rightarrow> rd_sched rd | _ \<Rightarrow> s)"

fun sched_in :: "'a Scheduler \<Rightarrow> 'a sched_op \<Rightarrow> FlowId option \<Rightarrow> 'a list" where
  "sched_in s (Enqueue work bytes val) k =
     (case enqueue s work bytes val of Ok s' \<Rightarrow> if k = class_key work then [val] else [] | _ \<Rightarrow> [])"
| "sched_in s (Round clock mp mb) k = []"

fun sched_out :: "'a Scheduler \<Rightarrow> 'a sched_op \<Rightarrow> FlowId option \<Rightarrow> 'a list" where
  "sched_out s (Enqueue work bytes val) k = []"
| "sched_out s (Round clock mp mb) k = (case run_round_limited clock s mp mb of Ok rd \<Rightarrow> served k (rd_calls rd) | _ \<Rightarrow> [])"

lemma advances_waiting: "advances (fresh_round s) rd \<Longrightarrow> waiting s k = served k (rd_calls rd) @ waiting (rd_sched rd) k"
  by (auto simp: advances_def)

interpretation sched: fifo_classes sched_ok sched_step waiting sched_in sched_out
proof
  fix s :: "'a Scheduler" and op :: "'a sched_op" and k
  assume ok: "sched_ok s"
  have "sched_ok (sched_step s op) \<and> waiting s k @ sched_in s op k = sched_out s op k @ waiting (sched_step s op) k"
  proof (cases op)
    case (Enqueue work bytes val)
    then show ?thesis using enqueue_spec [OF ok, of work bytes val] ok by (simp split: res.splits)
  next
    case (Round clock mp mb)
    obtain rd where "run_round_limited clock s mp mb = Ok rd" "advances (fresh_round s) rd" "sched_ok (rd_sched rd)"
      by (rule run_round_limited_ok [OF ok, of clock mp mb]) (simp add: round_ok_def)
    then show ?thesis using Round advances_waiting by simp
  qed
  then show "sched_ok (sched_step s op)" "waiting s k @ sched_in s op k = sched_out s op k @ waiting (sched_step s op) k" by simp_all
qed

section \<open>Properties\<close>

lemma new_scheduler:
  assumes "scheduler_new config = Ok s" "config_ok config"
  shows "sched_ok s" "sc_config s = config" "waiting s k = []"
  using assms by (auto simp: scheduler_new_def config_ok_def sched_ok_def flows_ok_def waiting_def backlog_def split: option.split)

inductive scheduler_reachable :: "SchedulerConfig \<Rightarrow> 'a Scheduler \<Rightarrow> bool" for config where
  created: "scheduler_new config = Ok s \<Longrightarrow> scheduler_reachable config s"
| stepped: "scheduler_reachable config s \<Longrightarrow> scheduler_reachable config (sched_step s op)"
| cleared: "scheduler_reachable config s \<Longrightarrow> scheduler_reachable config (scheduler_clear s)"

lemma scheduler_clear_ok: "sched_ok s \<Longrightarrow> sched_ok (scheduler_clear s)"
  by (simp add: scheduler_clear_def sched_ok_def flows_ok_def)

lemma reachable_sched_ok: "scheduler_reachable config s \<Longrightarrow> config_ok config \<Longrightarrow> sched_ok s"
  by (induction rule: scheduler_reachable.induct) (auto intro: new_scheduler sched.step_inv scheduler_clear_ok)

lemma default_config_ok: "config_ok scheduler_default"
  by (simp add: config_ok_def scheduler_validate_def scheduler_default_def)

text \<open>C30: the scheduler keeps its accounts. In every state reached by admissions, rounds and clears, with any clock, the
active list names each queued flow once, no queue is empty or over its limit, and the packet and byte totals are those of the
queues and within their limits. No admission and no round panics there: none of the \<open>expect\<close> calls fails and no counter
leaves its range.\<close>

theorem scheduler_safe:
  assumes "scheduler_reachable config s" "config_ok config"
  shows "sched_ok s \<and> enqueue s work bytes val \<noteq> Panic \<and> run_round_limited clock s mp mb \<noteq> Panic"
proof -
  have ok: "sched_ok s" using assms by (rule reachable_sched_ok)
  obtain rd where "run_round_limited clock s mp mb = Ok rd" by (rule run_round_limited_ok [OF ok])
  then show ?thesis using ok enqueue_spec [OF ok, of work bytes val] by (auto split: res.splits)
qed

lemma scheduler_safe_witness:
  "\<exists>s. scheduler_new scheduler_default = Ok s \<and> sched_ok s \<and> enqueue s (Data 3 1) 1500 ''a'' \<noteq> Panic"
proof -
  obtain s :: "string Scheduler" where s: "scheduler_new scheduler_default = Ok s"
    using default_config_ok by (auto simp: scheduler_new_def config_ok_def)
  show ?thesis using scheduler_safe [OF created [OF s] default_config_ok, of "Data 3 1" 1500 "''a''"] s by blast
qed

text \<open>C29: a value is handed out once, and in the order of its class. For every class (control, or one flow) and every
sequence of admissions and rounds on a new scheduler, what the rounds handed to \<open>process\<close> followed by what still waits is
exactly what was admitted, in order: nothing is lost, repeated or overtaken within its class.\<close>

theorem scheduler_fifo:
  assumes "scheduler_new config = Ok s" "config_ok config"
  shows "through sched_step (\<lambda>s op. sched_out s op k) s ops @ waiting (foldl sched_step s ops) k =
    through sched_step (\<lambda>s op. sched_in s op k) s ops"
  using sched.steps_queue [OF new_scheduler(1) [OF assms], of k ops] new_scheduler(3) [OF assms, of k] by simp

lemma scheduler_fifo_witness:
  "\<exists>s. scheduler_new scheduler_default = Ok s \<and>
     through sched_step (\<lambda>s op. sched_out s op (Some 3)) s [Enqueue (Data 3 1) 10 ''a'', Round (\<lambda>_. 0) 8 900] @
       waiting (foldl sched_step s [Enqueue (Data 3 1) 10 ''a'', Round (\<lambda>_. 0) 8 900]) (Some 3) = [''a'']"
proof -
  obtain s :: "string Scheduler" where s: "scheduler_new scheduler_default = Ok s"
    using default_config_ok by (auto simp: scheduler_new_def config_ok_def)
  have ok: "sched_ok s" "sc_config s = scheduler_default" using new_scheduler [OF s default_config_ok] by simp_all
  have "sc_active s = []" "sc_queued_packets s = 0" "sc_queued_bytes s = 0" using s default_config_ok by (auto simp: scheduler_new_def config_ok_def)
  then have "admits s (Data 3 1) 10" by (simp add: admits_def ok(2) scheduler_default_def)
  then obtain s' where "enqueue s (Data 3 1) 10 ''a'' = Ok s'" using enqueue_spec [OF ok(1), of "Data 3 1" 10 "''a''"] by (auto split: res.splits)
  then have "through sched_step (\<lambda>s op. sched_in s op (Some 3)) s [Enqueue (Data 3 1) 10 ''a'', Round (\<lambda>_. 0) 8 900] = [''a'']" by simp
  then show ?thesis using scheduler_fifo [OF s default_config_ok, of "Some 3" "[Enqueue (Data 3 1) 10 ''a'', Round (\<lambda>_. 0) 8 900]"] s by metis
qed



text \<open>C28: queued work does not stall. Whatever clocks the rounds read, if anything is queued then within as many rounds
as quanta make up the largest packet, at least one value is handed out: every round without progress adds a quantum to the
deficit of every flow, and the time budget ends a round only after progress.\<close>

theorem scheduler_never_stalls:
  assumes "sched_ok s" "sc_queued_packets s \<noteq> 0" "max_packet_bytes (sc_config s) \<le> length clocks * quantum_bytes (sc_config s)"
  shows "\<exists>calls s'. run_rounds clocks s = Ok (calls, s') \<and> sched_ok s' \<and> calls \<noteq> []"
proof -
  obtain calls s' where r: "run_rounds clocks s = Ok (calls, s')" "sched_ok s'"
    "calls = [] \<longrightarrow> clocks \<noteq> [] \<longrightarrow> sc_control s = [] \<and> (\<forall>f\<in>set (sc_active s).
       deficit_of s f + length clocks * quantum_bytes (sc_config s) < max_packet_bytes (sc_config s))"
    using run_rounds_idle [OF assms(1)] by blast
  have "0 < max_packet_bytes (sc_config s)" using assms(1)
    by (auto simp: sched_ok_def config_ok_def scheduler_validate_def split: if_splits)
  then have "clocks \<noteq> []" using assms(3) by auto
  moreover have "sc_control s \<noteq> [] \<or> sc_active s \<noteq> []" using assms(1,2) by (auto simp: sched_ok_def flows_ok_def)
  ultimately have "calls \<noteq> []" using r(3) assms(3) by (cases "sc_active s") auto
  then show ?thesis using r by blast
qed

lemma scheduler_never_stalls_witness:
  "\<exists>s s1 calls s'. scheduler_new scheduler_default = Ok s \<and> enqueue s Control 10 ''a'' = Ok s1 \<and>
     run_rounds (replicate 4 (\<lambda>_. 5000000)) s1 = Ok (calls, s') \<and> calls \<noteq> []"
proof -
  obtain s :: "string Scheduler" where s: "scheduler_new scheduler_default = Ok s"
    using default_config_ok by (auto simp: scheduler_new_def config_ok_def)
  have f: "sc_config s = scheduler_default" "sc_queued_packets s = 0" "sc_queued_bytes s = 0" using s default_config_ok
    by (auto simp: scheduler_new_def config_ok_def)
  have e: "enqueue s Control 10 ''a'' = Ok (s\<lparr>sc_control := sc_control s @ [\<lparr>it_bytes = 10, it_value = ''a''\<rparr>], sc_queued_packets := 1, sc_queued_bytes := 10\<rparr>)"
    using f by (simp add: enqueue_def plus_usize_def sat_add_def scheduler_default_def)
  let ?s = "s\<lparr>sc_control := sc_control s @ [\<lparr>it_bytes = 10, it_value = ''a''\<rparr>], sc_queued_packets := 1, sc_queued_bytes := 10\<rparr>"
  have "sched_ok ?s" using enqueue_spec [OF new_scheduler(1) [OF s default_config_ok], of Control 10 "''a''"] e by simp
  then show ?thesis using scheduler_never_stalls [of ?s "replicate 4 (\<lambda>_. 5000000)"] s e f(1)
    by (auto simp: scheduler_default_def)
qed

text \<open>C32: admission answers exactly the limits. A value is taken if and only if its size, the totals and its flow leave room and
its weight is not zero; then it goes to the back of its class and no other class changes. Otherwise the very value comes back in the
error.\<close>

theorem enqueue_outcome:
  assumes "sched_ok s"
  shows "case enqueue s work bytes val of
      Ok s' \<Rightarrow> admits s work bytes \<and> sched_ok s' \<and> (\<forall>k. waiting s' k = waiting s k @ (if k = class_key work then [val] else []))
    | Err e \<Rightarrow> \<not> admits s work bytes \<and> into_inner e = val
    | Panic \<Rightarrow> False"
  using assms by (rule enqueue_spec)

lemma enqueue_outcome_witness:
  "\<exists>s. scheduler_new scheduler_default = Ok s \<and> enqueue s (Data 3 0) 10 ''a'' = Err (InvalidWeight ''a'') \<and> \<not> admits s (Data 3 0) 10"
proof -
  obtain s :: "string Scheduler" where s: "scheduler_new scheduler_default = Ok s"
    using default_config_ok by (auto simp: scheduler_new_def config_ok_def)
  have "enqueue s (Data 3 0) 10 ''a'' = Err (InvalidWeight ''a'')" using s default_config_ok
    by (auto simp: scheduler_new_def config_ok_def enqueue_def enqueue_data_def sat_add_def scheduler_default_def)
  then show ?thesis using enqueue_outcome [OF new_scheduler(1) [OF s default_config_ok], of "Data 3 0" 10 "''a''"] s by simp
qed

text \<open>The bound on \<open>max_queued_bytes\<close> in \<open>config_ok\<close> is needed: at the top of the range the saturating test admits
a value whose size no longer fits the byte total.\<close>

lemma enqueue_overflow:
  "\<exists>config s s1. scheduler_validate config = Ok config \<and> max_queued_bytes config = usize_max \<and> scheduler_new config = Ok s \<and>
     enqueue s Control usize_max ''a'' = Ok s1 \<and> enqueue s1 Control 1 ''b'' = Panic"
proof -
  define c where "c = scheduler_default\<lparr>max_bytes_per_round := usize_max, max_queued_bytes := usize_max,
    max_contiguous_flow_bytes := usize_max, max_packet_bytes := usize_max\<rparr>"
  have v: "scheduler_validate c = Ok c" by (simp add: c_def scheduler_validate_def scheduler_default_def)
  define s :: "string Scheduler" where
    "s = \<lparr>sc_config = c, sc_control = [], sc_flows = fmempty, sc_active = [], sc_queued_packets = 0, sc_queued_bytes = 0\<rparr>"
  define s1 where "s1 = s\<lparr>sc_control := [\<lparr>it_bytes = usize_max, it_value = ''a''\<rparr>], sc_queued_packets := 1, sc_queued_bytes := usize_max\<rparr>"
  have "scheduler_new c = Ok s" by (simp add: scheduler_new_def v s_def)
  moreover have "enqueue s Control usize_max ''a'' = Ok s1"
    by (simp add: enqueue_def s_def s1_def c_def scheduler_default_def sat_add_def plus_usize_def)
  moreover have "enqueue s1 Control 1 ''b'' = Panic"
    by (simp add: enqueue_def s_def s1_def c_def scheduler_default_def sat_add_def plus_usize_def)
  moreover have "max_queued_bytes c = usize_max" by (simp add: c_def)
  ultimately show ?thesis using v by blast
qed

end
