(* ===== verification/Icmp.thy ===== *)
theory Icmp
  imports Emit
begin

unbundle bit_operations_syntax

text \<open>
  ICMP and ICMPv6 of \<^verbatim>\<open>ip/icmp.rs\<close>: parsing, the echo reply and the error messages.
\<close>

section \<open>Messages\<close>

definition ICMPV4_PROTOCOL :: u8 where "ICMPV4_PROTOCOL = 1"
definition ICMPV6_PROTOCOL :: u8 where "ICMPV6_PROTOCOL = 58"

datatype IcmpMessage =
    EchoRequest u16 u16
  | EchoReply u16 u16
  | DestinationUnreachable u8
  | PacketTooBig u32
  | TimeExceeded u8
  | ParameterProblem u8 u32
  | OtherMessage u8 u8

definition is_error :: "IcmpMessage \<Rightarrow> bool" where
  "is_error m = (case m of DestinationUnreachable _ \<Rightarrow> True | PacketTooBig _ \<Rightarrow> True | TimeExceeded _ \<Rightarrow> True
     | ParameterProblem _ _ \<Rightarrow> True | _ \<Rightarrow> False)"

record ParsedIcmpPacket =
  icmp_message :: IcmpMessage
  icmp_payload :: bytes

datatype IcmpErrorKind =
    DestinationUnreachableKind u8
  | PacketTooBigKind u32
  | TimeExceededKind u8
  | ParameterProblemKind u8 u32
  | UnsupportedProtocol

section \<open>Parsing\<close>

definition icmp_protocol :: "IpVersion \<Rightarrow> u8" where
  "icmp_protocol version = (case version of IpV4 \<Rightarrow> ICMPV4_PROTOCOL | IpV6 \<Rightarrow> ICMPV6_PROTOCOL)"

definition echo_fields :: "bytes \<Rightarrow> (u16 \<Rightarrow> u16 \<Rightarrow> IcmpMessage) \<Rightarrow> IcmpMessage wire" where
  "echo_fields payload f =
     and_then (read16 payload 4 5) (\<lambda>identifier. and_then (read16 payload 6 7) (\<lambda>sequence. Ok (f identifier sequence)))"

text \<open>The match on version, type and code, with its arms in the order of the source.\<close>

definition message_of :: "IpVersion \<Rightarrow> u8 \<Rightarrow> u8 \<Rightarrow> bytes \<Rightarrow> IcmpMessage wire" where
  "message_of version kind code payload =
     (if (version = IpV4 \<and> kind = 8 \<and> code = 0) \<or> (version = IpV6 \<and> kind = 128 \<and> code = 0) then echo_fields payload EchoRequest
      else if (version = IpV4 \<and> kind = 0 \<and> code = 0) \<or> (version = IpV6 \<and> kind = 129 \<and> code = 0) then echo_fields payload EchoReply
      else if version = IpV4 \<and> kind = 3 \<and> code = 4 then
        and_then (read16 payload 6 7) (\<lambda>mtu. Ok (PacketTooBig (ucast mtu)))
      else if (version = IpV4 \<and> kind = 3) \<or> (version = IpV6 \<and> kind = 1) then Ok (DestinationUnreachable code)
      else if version = IpV6 \<and> kind = 2 \<and> code = 0 then and_then (read32 payload 4) (\<lambda>mtu. Ok (PacketTooBig mtu))
      else if (version = IpV4 \<and> kind = 11) \<or> (version = IpV6 \<and> kind = 3) then Ok (TimeExceeded code)
      else if version = IpV4 \<and> kind = 12 then and_then (idx payload 4) (\<lambda>pointer. Ok (ParameterProblem code (ucast pointer)))
      else if version = IpV6 \<and> kind = 4 then and_then (read32 payload 4) (\<lambda>pointer. Ok (ParameterProblem code pointer))
      else Ok (OtherMessage kind code))"

definition parse_icmp_packet :: "bool \<Rightarrow> ParsedIpPacket \<Rightarrow> bool \<Rightarrow> ParsedIcmpPacket wire" where
  "parse_icmp_packet le ip verify_checksum =
     (if ip_next_header ip \<noteq> icmp_protocol (ip_version ip) then Err (Unsupported ''not ICMP'')
      else if (case ip_fragment ip of None \<Rightarrow> False | Some fragment \<Rightarrow> \<not> is_atomic fragment)
      then Err (Unsupported ''ICMP requires IP reassembly'')
      else if length (ip_payload ip) < 8 then Err Truncated
      else if verify_checksum \<and>
        (case ip_version ip of
           IpV4 \<Rightarrow> checksum_sum le (ip_payload ip) 0
         | IpV6 \<Rightarrow> transport_checksum_sum le (ip_source ip) (ip_destination ip) ICMPV6_PROTOCOL (ip_payload ip)) \<noteq> 0xffff
      then Err ChecksumError
      else
        and_then (idx (ip_payload ip) 0) (\<lambda>kind.
        and_then (idx (ip_payload ip) 1) (\<lambda>code.
        and_then (message_of (ip_version ip) kind code (ip_payload ip)) (\<lambda>message.
        and_then (slice (ip_payload ip) 8 (length (ip_payload ip))) (\<lambda>payload.
        Ok \<lparr>icmp_message = message, icmp_payload = payload\<rparr>)))))"

section \<open>Emission\<close>

definition emit_icmp :: "bool \<Rightarrow> IpAddr \<Rightarrow> IpAddr \<Rightarrow> bytes \<Rightarrow> u8 \<Rightarrow> u16 \<Rightarrow> bytes wire" where
  "emit_icmp le source destination icmp hop_limit ipv4_identification =
     and_then (case (source, destination) of
         (V4 _, V4 _) \<Rightarrow> Ok (20, ICMPV4_PROTOCOL)
       | (V6 _, V6 _) \<Rightarrow> Ok (40, ICMPV6_PROTOCOL)
       | _ \<Rightarrow> Err (Malformed ''mixed address families'')) (\<lambda>(header_len, protocol).
     and_then (ok_or (checked_add header_len (length icmp)) (Malformed ''ICMP length overflow'')) (\<lambda>total_len.
     if (case source of V6 _ \<Rightarrow> True | V4 _ \<Rightarrow> False) \<and> u16_max < length icmp then Err (Malformed ''ICMPv6 packet too large'')
     else
       and_then (copy_at icmp 2 4 [0, 0]) (\<lambda>icmp.
       let checksum = (case source of
             V4 _ \<Rightarrow> finalize_checksum (checksum_sum le icmp 0)
           | V6 _ \<Rightarrow> finalize_checksum (transport_checksum_sum le source destination protocol icmp)) in
       and_then (copy_at icmp 2 4 (to_be16 checksum)) (\<lambda>icmp.
       let packet = replicate total_len 0 in
       and_then (case (source, destination) of
           (V4 source_ip, V4 destination_ip) \<Rightarrow>
             and_then (ok_or (try_u16 total_len) (Malformed ''IPv4 packet too large'')) (\<lambda>total_len_u16.
             and_then (puts packet
               [(0, [0x45]), (2, to_be16 total_len_u16), (4, to_be16 ipv4_identification), (6, [0x40]),
                (8, [hop_limit]), (9, [protocol]), (12, source_ip), (16, destination_ip)]) (\<lambda>packet.
             and_then (slice packet 0 20) (\<lambda>header.
             puts packet [(10, to_be16 (finalize_checksum (checksum_sum le header 0)))])))
         | (V6 source_ip, V6 destination_ip) \<Rightarrow>
             and_then (ok_or (try_u16 (length icmp)) (Malformed ''ICMPv6 packet too large'')) (\<lambda>payload_len.
             puts packet
               [(0, [0x60]), (4, to_be16 payload_len), (6, [protocol]), (7, [hop_limit]), (8, source_ip), (24, destination_ip)])
         | _ \<Rightarrow> Panic) (\<lambda>packet.
       copy_at packet header_len (length packet) icmp)))))"

definition invalid_error_address :: "IpAddr \<Rightarrow> bool" where
  "invalid_error_address address \<longleftrightarrow> is_unspecified address \<or> is_multicast address \<or> is_broadcast address"

definition invalid_icmp_error_source :: "IpAddr \<Rightarrow> bool" where
  "invalid_icmp_error_source address =
     (case address of
        V4 bs \<Rightarrow> (let first_octet = bs ! 0 in first_octet = 0 \<or> first_octet = 127 \<or> 224 \<le> first_octet)
      | V6 _ \<Rightarrow> is_unspecified address \<or> is_multicast address)"

definition emit_icmp_echo_reply :: "bool \<Rightarrow> ParsedIpPacket \<Rightarrow> u8 \<Rightarrow> bytes wire" where
  "emit_icmp_echo_reply le ip hop_limit =
     and_then (parse_icmp_packet le ip True) (\<lambda>parsed.
     if \<not> (case icmp_message parsed of EchoRequest _ _ \<Rightarrow> True | _ \<Rightarrow> False) then Err (Unsupported ''not ICMP echo request'')
     else if invalid_error_address (ip_source ip) \<or> invalid_error_address (ip_destination ip)
     then Err (Unsupported ''ICMP echo reply requires unicast addresses'')
     else
       and_then (store (ip_payload ip) 0 (case ip_version ip of IpV4 \<Rightarrow> 0 | IpV6 \<Rightarrow> 129)) (\<lambda>icmp.
       and_then (copy_at icmp 2 4 [0, 0]) (\<lambda>icmp.
       emit_icmp le (ip_destination ip) (ip_source ip) icmp hop_limit 0)))"

definition is_icmp_error :: "ParsedIpPacket \<Rightarrow> bool wire" where
  "is_icmp_error ip =
     (if ip_next_header ip \<noteq> icmp_protocol (ip_version ip) \<or> length (ip_payload ip) < 8 then Ok False
      else and_then (idx (ip_payload ip) 0) (\<lambda>kind.
        Ok (case ip_version ip of IpV4 \<Rightarrow> kind \<in> {3, 4, 5, 11, 12} | IpV6 \<Rightarrow> 1 \<le> kind \<and> kind \<le> 4)))"

primrec next_header_loop :: "nat \<Rightarrow> bytes \<Rightarrow> nat \<Rightarrow> u8 \<Rightarrow> nat \<Rightarrow> nat \<Rightarrow> u32 wire" where
  "next_header_loop 0 packet total_len next_header pointer offset = Err (Unsupported ''IPv6 extension chain exceeds limit'')"
| "next_header_loop (Suc n) packet total_len next_header pointer offset =
     (if next_header \<notin> {0, 43, 60, 44, 51} then ok_or (try_u32 pointer) (Malformed ''IPv6 header'')
      else
        and_then
          (if next_header = 44 then Ok 8
           else if total_len < offset + 2 \<or> length packet < offset + 2 then Err Truncated
           else and_then (idx packet (offset + 1)) (\<lambda>l.
             Ok (if next_header = 51 then (unat l + 2) * 4 else (unat l + 1) * 8))) (\<lambda>len.
        if total_len < offset + len \<or> length packet < offset + len then Err Truncated
        else and_then (idx packet offset) (\<lambda>following.
          next_header_loop n packet total_len following offset (offset + len))))"

definition ipv6_next_header_pointer :: "bytes \<Rightarrow> u32 wire" where
  "ipv6_next_header_pointer packet =
     (if length packet < 40 then Err (Malformed ''not IPv6'')
      else and_then (idx packet 0) (\<lambda>b0.
        if drop_bit 4 b0 \<noteq> 6 then Err (Malformed ''not IPv6'')
        else and_then (read16 packet 4 5) (\<lambda>pl.
          and_then (idx packet 6) (\<lambda>next_header.
          next_header_loop 8 packet (40 + unat pl) next_header 6 40))))"

definition error_kind :: "IpVersion \<Rightarrow> IcmpErrorKind \<Rightarrow> u8 \<times> u8" where
  "error_kind version error =
     (case version of
        IpV4 \<Rightarrow>
          (case error of
             DestinationUnreachableKind code \<Rightarrow> (3, code)
           | PacketTooBigKind _ \<Rightarrow> (3, 4)
           | TimeExceededKind code \<Rightarrow> (11, code)
           | ParameterProblemKind code _ \<Rightarrow> (12, code)
           | UnsupportedProtocol \<Rightarrow> (3, 2))
      | IpV6 \<Rightarrow>
          (case error of
             DestinationUnreachableKind code \<Rightarrow> (1, code)
           | PacketTooBigKind _ \<Rightarrow> (2, 0)
           | TimeExceededKind code \<Rightarrow> (3, code)
           | ParameterProblemKind code _ \<Rightarrow> (4, code)
           | UnsupportedProtocol \<Rightarrow> (4, 1)))"

text \<open>The four bytes after the checksum.\<close>

definition error_field :: "IpVersion \<Rightarrow> IcmpErrorKind \<Rightarrow> bytes \<Rightarrow> bytes \<Rightarrow> bytes wire" where
  "error_field version error invoking_packet icmp =
     (case (version, error) of
        (IpV4, PacketTooBigKind mtu) \<Rightarrow>
          copy_at icmp 6 8 (to_be16 (if unat mtu \<le> u16_max then ucast mtu else 0xffff))
      | (IpV6, PacketTooBigKind mtu) \<Rightarrow> copy_at icmp 4 8 (to_be32 mtu)
      | (IpV4, ParameterProblemKind _ pointer) \<Rightarrow>
          store icmp 4 (if unat pointer \<le> u8_max then ucast pointer else 255)
      | (IpV6, ParameterProblemKind _ pointer) \<Rightarrow> copy_at icmp 4 8 (to_be32 pointer)
      | (IpV6, UnsupportedProtocol) \<Rightarrow>
          and_then (ipv6_next_header_pointer invoking_packet) (\<lambda>pointer. copy_at icmp 4 8 (to_be32 pointer))
      | _ \<Rightarrow> Ok icmp)"

definition max_quote :: "IpVersion \<Rightarrow> nat" where
  "max_quote version = (case version of IpV4 \<Rightarrow> 576 - 20 - 8 | IpV6 \<Rightarrow> 1280 - 40 - 8)"

definition invoking_len :: "IpVersion \<Rightarrow> bytes \<Rightarrow> nat wire" where
  "invoking_len version packet =
     (case version of
        IpV4 \<Rightarrow> and_then (read16 packet 2 3) (\<lambda>n. Ok (unat n))
      | IpV6 \<Rightarrow> and_then (read16 packet 4 5) (\<lambda>n. Ok (40 + unat n)))"

definition parse_invoking :: "bool \<Rightarrow> bytes \<Rightarrow> IcmpErrorKind \<Rightarrow> ParsedIpPacket wire" where
  "parse_invoking le packet error =
     (case error of
        ParameterProblemKind _ _ \<Rightarrow> parse_ip_packet_for_icmp_error le packet True
      | _ \<Rightarrow> parse_ip_packet le packet True)"

definition emit_icmp_error :: "bool \<Rightarrow> bytes \<Rightarrow> IcmpErrorKind \<Rightarrow> u8 \<Rightarrow> bytes wire" where
  "emit_icmp_error le invoking_packet error hop_limit =
     and_then (parse_invoking le invoking_packet error) (\<lambda>ip.
     and_then (is_icmp_error ip) (\<lambda>about_error.
     if (case ip_fragment ip of None \<Rightarrow> False | Some fragment \<Rightarrow> offset_bytes fragment \<noteq> 0) \<or>
        invalid_error_address (ip_destination ip) \<or> invalid_icmp_error_source (ip_source ip) \<or> about_error
     then Err (Unsupported ''ICMP error response suppressed'')
     else
       let (kind, code) = error_kind (ip_version ip) error in
       and_then (invoking_len (ip_version ip) invoking_packet) (\<lambda>len.
       let icmp = replicate (8 + min len (max_quote (ip_version ip))) 0 in
       and_then (puts icmp [(0, [kind]), (1, [code])]) (\<lambda>icmp.
       and_then (error_field (ip_version ip) error invoking_packet icmp) (\<lambda>icmp.
       let quote_len = length icmp - 8 in
       and_then (slice invoking_packet 0 quote_len) (\<lambda>quote.
       and_then (copy_at icmp 8 (length icmp) quote) (\<lambda>icmp.
       emit_icmp le (ip_destination ip) (ip_source ip) icmp hop_limit 0)))))))"

end
