(* ===== verification/Icmp_Facts.thy ===== *)
theory Icmp_Facts
  imports Icmp
begin

unbundle bit_operations_syntax

text \<open>
  What the ICMP emitter produces and how it parses back; what a parsed packet guarantees an answer; the fields of an error.
\<close>

section \<open>What is emitted\<close>

definition version_of :: "IpAddr \<Rightarrow> IpVersion" where
  "version_of a = (case a of V4 _ \<Rightarrow> IpV4 | V6 _ \<Rightarrow> IpV6)"

definition icmp_room :: "IpVersion \<Rightarrow> nat" where
  "icmp_room v = (case v of IpV4 \<Rightarrow> 65515 | IpV6 \<Rightarrow> 65535)"

definition icmp_acc :: "bool \<Rightarrow> IpAddr \<Rightarrow> IpAddr \<Rightarrow> nat \<Rightarrow> u32" where
  "icmp_acc le s d n = (case s of V4 _ \<Rightarrow> 0 | V6 _ \<Rightarrow> pseudo_acc le s d ICMPV6_PROTOCOL n)"

text \<open>The message with its checksum filled in.\<close>

definition sealed :: "bool \<Rightarrow> IpAddr \<Rightarrow> IpAddr \<Rightarrow> bytes \<Rightarrow> bytes" where
  "sealed le s d icmp = take 2 icmp @
     to_be16 (finalize_checksum (checksum_sum le (take 2 icmp @ [0, 0] @ drop 4 icmp) (icmp_acc le s d (length icmp)))) @ drop 4 icmp"

definition icmp_ip :: "IpAddr \<Rightarrow> IpAddr \<Rightarrow> u8 \<Rightarrow> bytes \<Rightarrow> ParsedIpPacket" where
  "icmp_ip s d hop body = \<lparr>ip_version = version_of s, ip_source = s, ip_destination = d, ip_next_header = icmp_protocol (version_of s),
     ip_hop_limit = hop, ip_fragment = None, ip_fragment_payload = None, ip_payload = body\<rparr>"

lemma length_sealed: "8 \<le> length icmp \<Longrightarrow> length (sealed le s d icmp) = length icmp"
  by (simp add: sealed_def)

lemma sealed_nth:
  assumes "8 \<le> length icmp" "i < length icmp" "i < 2 \<or> 4 \<le> i"
  shows "sealed le s d icmp ! i = icmp ! i"
  using assms by (auto simp: sealed_def nth_append to_be16_def)

lemma sealed_verifies:
  assumes "8 \<le> length icmp" "length icmp \<le> 65535"
  shows "checksum_sum le (sealed le s d icmp) (icmp_acc le s d (length icmp)) = 0xffff"
  unfolding sealed_def by (rule checksum_field) (use assms in simp_all)

lemma parse_ipv6_lenient:
  assumes "parse_ipv6 p True = Ok ip" "p ! 6 \<notin> {0, 43, 60, 51, 44}"
  shows "parse_ipv6 p enforce = Ok ip"
proof -
  have len: "40 \<le> length p" using assms(1) by (auto simp: parse_ipv6_def split: if_splits)
  have e: "ipv6_extension p enforce tlen s d hop (p ! 6) 6 40 None None = ipv6_extension p True tlen s d hop (p ! 6) 6 40 None None"
    "ipv6_extension p True tlen s d hop (p ! 6) 6 40 None None \<noteq> Ok (Inr x)" for tlen s d hop x
    using assms(2) by (auto simp: ipv6_extension_def and_then_Ok_iff)
  have x: "ipv6_extensions (Suc n) p enforce tlen s d hop (p ! 6) 6 40 None None = ipv6_extensions (Suc n) p True tlen s d hop (p ! 6) 6 40 None None"
    for n tlen s d hop
  proof (cases "ipv6_extension p True tlen s d hop (p ! 6) 6 40 None None")
    case (Ok a)
    then show ?thesis using e by (cases a) auto
  qed (use e(1) in simp_all)
  have x8: "ipv6_extensions 8 p enforce tlen s d hop (p ! 6) 6 40 None None = ipv6_extensions 8 p True tlen s d hop (p ! 6) 6 40 None None"
    for tlen s d hop
  proof -
    have "(8 :: nat) = Suc 7" by simp
    then show ?thesis using x [of 7] by (simp only:)
  qed
  show ?thesis using assms(1) len by (simp add: parse_ipv6_def slice_simps x8 cong: if_cong del: ipv6_extensions.simps)
qed

lemma emit_icmp_v4:
  assumes "length s = 4" "length d = 4" "8 \<le> length icmp" "length icmp \<le> 65515"
  shows "emit_icmp le (V4 s) (V4 d) icmp hop ident =
    Ok (ipv4_header le (word_of_nat (20 + length icmp)) ident hop 1 s d @ sealed le (V4 s) (V4 d) icmp)"
proof -
  have c: "checked_add 20 (length icmp) = Some (20 + length icmp)" "try_u16 (20 + length icmp) = Some (word_of_nat (20 + length icmp))"
    using assms(4) by (simp_all add: checked_add_def try_u16_def)
  have z: "copy_at icmp 2 4 [0, 0] = (Ok (take 2 icmp @ [0, 0] @ drop 4 icmp) :: bytes wire)" using assms(3) by (simp add: copy_at_def)
  have ck: "copy_at (take 2 icmp @ [0, 0] @ drop 4 icmp) 2 4 (to_be16 (finalize_checksum (checksum_sum le (take 2 icmp @ [0, 0] @ drop 4 icmp) 0))) =
      (Ok (sealed le (V4 s) (V4 d) icmp) :: bytes wire)"
    using assms(3) by (simp add: copy_at_def sealed_def icmp_acc_def)
  have l: "length (ipv4_header le (word_of_nat (20 + length icmp)) ident hop 1 s d) = 20" using assms(1,2) by (rule length_ipv4_header)
  have cp: "copy_at (ipv4_header le (word_of_nat (20 + length icmp)) ident hop 1 s d @ replicate (length icmp) 0) 20
      (length (ipv4_header le (word_of_nat (20 + length icmp)) ident hop 1 s d @ replicate (length icmp) (0 :: u8))) (sealed le (V4 s) (V4 d) icmp) =
      (Ok (ipv4_header le (word_of_nat (20 + length icmp)) ident hop 1 s d @ sealed le (V4 s) (V4 d) icmp) :: bytes wire)"
    using l length_sealed [OF assms(3)] by (simp add: copy_at_def)
  show ?thesis
    unfolding emit_icmp_def prod.case IpAddr.case and_then.simps c ok_or_def option.case z Let_def ck simp_thms if_False
      ICMPV4_PROTOCOL_def ipv4_header_emitted [OF assms(1,2)] cp ..
qed

lemma emit_icmp_v6:
  assumes "length s = 16" "length d = 16" "8 \<le> length icmp" "length icmp \<le> 65535"
  shows "emit_icmp le (V6 s) (V6 d) icmp hop ident =
    Ok (ipv6_header (word_of_nat (length icmp)) 58 hop s d @ sealed le (V6 s) (V6 d) icmp)"
proof -
  have c: "checked_add 40 (length icmp) = Some (40 + length icmp)" "(u16_max < length icmp) = False"
    "try_u16 (length (sealed le (V6 s) (V6 d) icmp)) = Some (word_of_nat (length icmp))"
    using assms(4) length_sealed [OF assms(3)] by (simp_all add: checked_add_def try_u16_def)
  have z: "copy_at icmp 2 4 [0, 0] = (Ok (take 2 icmp @ [0, 0] @ drop 4 icmp) :: bytes wire)" using assms(3) by (simp add: copy_at_def)
  have n: "length (take 2 icmp @ [0, 0] @ drop 4 icmp) = length icmp" using assms(3) by simp
  have ck: "copy_at (take 2 icmp @ [0, 0] @ drop 4 icmp) 2 4
      (to_be16 (finalize_checksum (transport_checksum_sum le (V6 s) (V6 d) 58 (take 2 icmp @ [0, 0] @ drop 4 icmp)))) =
      (Ok (sealed le (V6 s) (V6 d) icmp) :: bytes wire)"
    unfolding transport_checksum_pseudo [OF same_family.simps(2) [THEN iffD2, OF TrueI]] n
    using assms(3) by (simp add: copy_at_def sealed_def icmp_acc_def ICMPV6_PROTOCOL_def)
  have l: "length (ipv6_header (word_of_nat (length icmp)) 58 hop s d) = 40" using assms(1,2) by (simp add: ipv6_header_def)
  have cp: "copy_at (ipv6_header (word_of_nat (length icmp)) 58 hop s d @ replicate (length icmp) 0) 40
      (length (ipv6_header (word_of_nat (length icmp)) 58 hop s d @ replicate (length icmp) (0 :: u8))) (sealed le (V6 s) (V6 d) icmp) =
      (Ok (ipv6_header (word_of_nat (length icmp)) 58 hop s d @ sealed le (V6 s) (V6 d) icmp) :: bytes wire)"
    using l length_sealed [OF assms(3)] by (simp add: copy_at_def)
  show ?thesis
    unfolding emit_icmp_def prod.case IpAddr.case and_then.simps c(1,2) ok_or_def option.case z Let_def ICMPV6_PROTOCOL_def ck simp_thms if_False
      c(3) option.case and_then.simps puts_ipv6 [OF assms(1,2)] cp ..
qed

lemma emit_icmp_ok:
  assumes "wf_ip s" "wf_ip d" "same_family s d" "8 \<le> length icmp" "length icmp \<le> icmp_room (version_of s)"
  obtains out where "emit_icmp le s d icmp hop ident = Ok out" "parse_ip_packet le out True = Ok (icmp_ip s d hop (sealed le s d icmp))"
    "parse_ip_packet_for_icmp_error le out True = Ok (icmp_ip s d hop (sealed le s d icmp))"
    "length out = (case version_of s of IpV4 \<Rightarrow> 20 | IpV6 \<Rightarrow> 40) + length icmp"
proof (cases s)
  case (V4 a)
  then obtain b where d: "d = V4 b" using assms(3) by (cases d) auto
  have l: "length a = 4" "length b = 4" "length icmp \<le> 65515" using assms V4 d by (simp_all add: icmp_room_def version_of_def)
  let ?out = "ipv4_header le (word_of_nat (20 + length icmp)) ident hop 1 a b @ sealed le s d icmp"
  have p: "parse_ip_packet le ?out True = Ok (icmp_ip s d hop (sealed le s d icmp))"
    using parse_ipv4_emitted [OF l(1,2), of "sealed le s d icmp" le ident hop 1 True] length_sealed [OF assms(4)] l(3)
    by (simp add: icmp_ip_def V4 d version_of_def icmp_protocol_def ICMPV4_PROTOCOL_def)
  have n: "length (ipv4_header le (word_of_nat (20 + length icmp)) ident hop 1 a b) = 20" using l(1,2) by (rule length_ipv4_header)
  have h: "0 < length ?out" "?out ! 0 = 0x45" using n by (simp_all add: nth_append del: of_nat_add)
  then have "parse_ip_packet_for_icmp_error le ?out True = parse_ip_packet le ?out True"
    by (simp add: parse_ip_packet_def parse_ip_packet_for_icmp_error_def get_opt_def Let_def del: of_nat_add)
  then show thesis using that [OF _ p] p emit_icmp_v4 [OF l(1,2) assms(4) l(3)] l length_sealed [OF assms(4)]
    by (simp add: V4 d version_of_def length_ipv4_header)
next
  case (V6 a)
  then obtain b where d: "d = V6 b" using assms(3) by (cases d) auto
  have l: "length a = 16" "length b = 16" "length icmp \<le> 65535" using assms V6 d by (simp_all add: icmp_room_def version_of_def)
  let ?out = "ipv6_header (word_of_nat (length icmp)) 58 hop a b @ sealed le s d icmp"
  have p: "parse_ip_packet le ?out True = Ok (icmp_ip s d hop (sealed le s d icmp))"
    using parse_ipv6_emitted [OF l(1,2), of "sealed le s d icmp" 58 le hop True] length_sealed [OF assms(4)] l(3)
    by (simp add: icmp_ip_def V6 d version_of_def icmp_protocol_def ICMPV6_PROTOCOL_def)
  have h: "?out \<noteq> []" "?out ! 0 = 0x60" "?out ! 6 = 58" by (simp_all add: ipv6_header_def to_be16_def)
  then have "parse_ipv6 ?out True = Ok (icmp_ip s d hop (sealed le s d icmp))" using p by (simp add: parse_ip_packet_def get_opt_def Let_def)
  then have "parse_ipv6 ?out False = Ok (icmp_ip s d hop (sealed le s d icmp))" by (rule parse_ipv6_lenient) (simp add: h)
  then have "parse_ip_packet_for_icmp_error le ?out True = Ok (icmp_ip s d hop (sealed le s d icmp))"
    using h by (simp add: parse_ip_packet_for_icmp_error_def get_opt_def Let_def)
  then show thesis using that [OF _ p] emit_icmp_v6 [OF l(1,2) assms(4) l(3)] l length_sealed [OF assms(4)]
    by (simp add: V6 d version_of_def ipv6_header_def)
qed

lemma message_of_same:
  assumes "8 \<le> length p" "8 \<le> length q" "\<And>i. i \<in> {4, 5, 6, 7} \<Longrightarrow> p ! i = q ! i"
  shows "message_of v k c p = message_of v k c q"
  using assms by (simp add: message_of_def echo_fields_def read16_Ok read32_Ok idx_Ok)

lemma parse_sealed:
  assumes "same_family s d" "8 \<le> length icmp" "length icmp \<le> 65535"
  shows "parse_icmp_packet le (icmp_ip s d hop (sealed le s d icmp)) True =
    and_then (message_of (version_of s) (icmp ! 0) (icmp ! 1) icmp) (\<lambda>m. Ok \<lparr>icmp_message = m, icmp_payload = drop 8 icmp\<rparr>)"
proof -
  let ?b = "sealed le s d icmp"
  have l: "length ?b = length icmp" by (rule length_sealed [OF assms(2)])
  have v: "(case version_of s of IpV4 \<Rightarrow> checksum_sum le ?b 0 | IpV6 \<Rightarrow> transport_checksum_sum le s d ICMPV6_PROTOCOL ?b) = 0xffff"
    using sealed_verifies [OF assms(2,3), of le s d] transport_checksum_pseudo [OF assms(1), of le ICMPV6_PROTOCOL ?b] l
    by (cases s) (simp_all add: version_of_def icmp_acc_def)
  have n: "?b ! 0 = icmp ! 0" "?b ! 1 = icmp ! 1"
    by (rule sealed_nth [OF assms(2)], use assms(2) in linarith, simp)+
  have m: "message_of (version_of s) (icmp ! 0) (icmp ! 1) ?b = message_of (version_of s) (icmp ! 0) (icmp ! 1) icmp"
    by (rule message_of_same) (use assms(2) l sealed_nth [OF assms(2)] in auto)
  have d8: "drop 8 ?b = drop 8 icmp" using assms(2) by (simp add: sealed_def)
  have "0 < length ?b" "1 < length ?b" "8 \<le> length ?b" using assms(2) l by linarith+
  then have i: "idx ?b 0 = (Ok (icmp ! 0) :: u8 wire)" "idx ?b 1 = (Ok (icmp ! 1) :: u8 wire)"
    "slice ?b 8 (length ?b) = (Ok (drop 8 icmp) :: bytes wire)" "(length ?b < 8) = False"
    using n d8 l by (simp_all add: idx_def slice_def)
  show ?thesis
    by (simp only: parse_icmp_packet_def icmp_ip_def ParsedIpPacket.select_convs option.case v i m simp_thms if_False if_True and_then.simps)
qed

section \<open>Parsed packets\<close>

lemma parsed_version: "parsed_ok packet ip \<Longrightarrow> version_of (ip_source ip) = ip_version ip \<and> version_of (ip_destination ip) = ip_version ip"
  by (cases "ip_source ip"; cases "ip_destination ip"; cases "ip_version ip") (auto simp: parsed_ok_def version_of_def)

text \<open>What both parsers promise of the packet: it is as long as its header says, and its payload fits an answer.\<close>

definition well_parsed :: "bytes \<Rightarrow> ParsedIpPacket \<Rightarrow> bool" where
  "well_parsed packet ip \<longleftrightarrow> parsed_ok packet ip \<and> length (ip_payload ip) \<le> icmp_room (ip_version ip) \<and>
     (\<exists>n. invoking_len (ip_version ip) packet = Ok n \<and> n \<le> length packet) \<and> 20 \<le> length packet"

lemma parse_ipv4_well_parsed: "parse_ipv4 le packet verify = Ok ip \<Longrightarrow> well_parsed packet ip"
proof -
  assume p: "parse_ipv4 le packet verify = Ok ip"
  let ?hl = "unat (packet ! 0 AND 15) * 4" and ?tl = "unat (be16 (packet ! 2) (packet ! 3))"
  have b: "20 \<le> ?hl" "?hl \<le> ?tl" "?tl \<le> length packet" "ip_payload ip = take (?tl - ?hl) (drop ?hl packet)"
    using parse_ipv4_OkD [OF p] by auto
  have "?tl \<le> 65535" by simp
  then have "?tl - ?hl \<le> 65515" using b(1) by linarith
  then have "length (ip_payload ip) \<le> 65515" using b(4) by simp
  moreover have "20 \<le> length packet" using b by linarith
  moreover from this have "read16 packet 2 3 = (Ok (be16 (packet ! 2) (packet ! 3)) :: u16 wire)" by (simp add: read16_Ok)
  ultimately show ?thesis using b(3) parse_ipv4_parsed_ok [OF p] by (simp add: well_parsed_def icmp_room_def invoking_len_def)
qed

lemma parse_ipv6_well_parsed: "parse_ipv6 packet enforce = Ok ip \<Longrightarrow> well_parsed packet ip"
proof -
  assume p: "parse_ipv6 packet enforce = Ok ip"
  have len: "40 \<le> length packet" using p by (auto simp: parse_ipv6_def split: if_splits)
  then have r: "read16 packet 4 5 = (Ok (be16 (packet ! 4) (packet ! 5)) :: u16 wire)" by (simp add: read16_Ok)
  have "40 + unat (be16 (packet ! 4) (packet ! 5)) \<le> length packet"
    using p len by (simp add: parse_ipv6_def r checked_add_def split: if_splits)
  then show ?thesis using parse_ipv6_parsed_ok [OF p] len r by (simp add: well_parsed_def icmp_room_def invoking_len_def parsed_ok_def)
qed

lemma parse_well_parsed:
  "parse_ip_packet le packet verify = Ok ip \<Longrightarrow> well_parsed packet ip"
  "parse_invoking le packet error = Ok ip \<Longrightarrow> well_parsed packet ip"
  by (auto simp: parse_ip_packet_def parse_ip_packet_for_icmp_error_def parse_invoking_def and_then_Ok_iff Let_def
      parse_ipv4_well_parsed parse_ipv6_well_parsed split: if_splits IcmpErrorKind.splits)

lemma family_swap: "same_family a b \<Longrightarrow> same_family b a"
  by (cases a; cases b) simp_all

lemma room_bound: "icmp_room v \<le> 65535"
  by (cases v) (simp_all add: icmp_room_def)

section \<open>Echo\<close>

lemma message_of_request:
  assumes "message_of v k c p = Ok (EchoRequest i s)" "8 \<le> length p"
  shows "c = 0" "k = (case v of IpV4 \<Rightarrow> 8 | IpV6 \<Rightarrow> 128)" "i = be16 (p ! 4) (p ! 5)" "s = be16 (p ! 6) (p ! 7)"
  using assms by (cases v; auto simp: message_of_def echo_fields_def read16_Ok read32_Ok idx_Ok split: if_splits)+

lemma message_of_reply:
  assumes "8 \<le> length p"
  shows "message_of v (case v of IpV4 \<Rightarrow> 0 | IpV6 \<Rightarrow> 129) 0 p = Ok (EchoReply (be16 (p ! 4) (p ! 5)) (be16 (p ! 6) (p ! 7)))"
  using assms by (cases v) (simp_all add: message_of_def echo_fields_def read16_Ok)

lemma parse_icmp_OkD:
  assumes "parse_icmp_packet le ip verify = Ok m"
  shows "8 \<le> length (ip_payload ip)" "message_of (ip_version ip) (ip_payload ip ! 0) (ip_payload ip ! 1) (ip_payload ip) = Ok (icmp_message m)"
    "icmp_payload m = drop 8 (ip_payload ip)" "ip_next_header ip = icmp_protocol (ip_version ip)"
  using assms by (auto simp: parse_icmp_packet_def and_then_Ok_iff idx_Ok_iff slice_Ok_iff split: if_splits)

lemma message_of_no_panic: "8 \<le> length p \<Longrightarrow> message_of v k c p \<noteq> Panic"
  by (simp add: message_of_def echo_fields_def read16_Ok read32_Ok idx_Ok)

lemma parse_icmp_no_panic: "parse_icmp_packet le ip verify \<noteq> Panic"
  by (auto simp: parse_icmp_packet_def and_then_Panic_iff idx_Panic_iff slice_Panic_iff message_of_no_panic)

text \<open>The reply is the request with its type changed.\<close>

definition reply_of :: "ParsedIpPacket \<Rightarrow> bytes" where
  "reply_of ip = take 2 ((ip_payload ip)[0 := (case ip_version ip of IpV4 \<Rightarrow> 0 | IpV6 \<Rightarrow> 129)]) @ [0, 0] @ drop 4 (ip_payload ip)"

lemma echo_reply_emits:
  assumes "parse_icmp_packet le ip True = Ok \<lparr>icmp_message = EchoRequest i s, icmp_payload = data\<rparr>"
    "\<not> invalid_error_address (ip_source ip)" "\<not> invalid_error_address (ip_destination ip)"
  shows "emit_icmp_echo_reply le ip hop = emit_icmp le (ip_destination ip) (ip_source ip) (reply_of ip) hop 0"
proof -
  let ?p = "ip_payload ip" and ?k = "(case ip_version ip of IpV4 \<Rightarrow> 0 | IpV6 \<Rightarrow> 129) :: u8"
  have l: "8 \<le> length ?p" using parse_icmp_OkD(1) [OF assms(1)] .
  have st: "store ?p 0 ?k = (Ok (?p[0 := ?k]) :: bytes wire)" using l by (auto simp: store_def)
  have "copy_at (?p[0 := ?k]) 2 4 [0, 0] = (Ok (reply_of ip) :: bytes wire)" using l by (simp add: copy_at_def reply_of_def)
  then show ?thesis using assms st by (simp add: emit_icmp_echo_reply_def)
qed

section \<open>Errors\<close>

text \<open>The four bytes an error puts after its checksum, and the message a receiver reads.\<close>

definition error_word :: "IpVersion \<Rightarrow> IcmpErrorKind \<Rightarrow> bytes \<Rightarrow> bytes wire" where
  "error_word v error packet =
     (case (v, error) of
        (IpV4, PacketTooBigKind mtu) \<Rightarrow> Ok ([0, 0] @ to_be16 (if unat mtu \<le> u16_max then ucast mtu else 0xffff))
      | (IpV6, PacketTooBigKind mtu) \<Rightarrow> Ok (to_be32 mtu)
      | (IpV4, ParameterProblemKind _ pointer) \<Rightarrow> Ok [if unat pointer \<le> u8_max then ucast pointer else 255, 0, 0, 0]
      | (IpV6, ParameterProblemKind _ pointer) \<Rightarrow> Ok (to_be32 pointer)
      | (IpV6, UnsupportedProtocol) \<Rightarrow> and_then (ipv6_next_header_pointer packet) (\<lambda>pointer. Ok (to_be32 pointer))
      | _ \<Rightarrow> Ok [0, 0, 0, 0])"

definition reported :: "IpVersion \<Rightarrow> IcmpErrorKind \<Rightarrow> bytes \<Rightarrow> IcmpMessage wire" where
  "reported v error packet =
     (case error of
        DestinationUnreachableKind code \<Rightarrow> Ok (if v = IpV4 \<and> code = 4 then PacketTooBig 0 else DestinationUnreachable code)
      | PacketTooBigKind mtu \<Rightarrow> Ok (PacketTooBig (if v = IpV4 \<and> u16_max < unat mtu then 0xffff else mtu))
      | TimeExceededKind code \<Rightarrow> Ok (TimeExceeded code)
      | ParameterProblemKind code pointer \<Rightarrow> Ok (ParameterProblem code (if v = IpV4 \<and> u8_max < unat pointer then 255 else pointer))
      | UnsupportedProtocol \<Rightarrow>
          (case v of
             IpV4 \<Rightarrow> Ok (DestinationUnreachable 2)
           | IpV6 \<Rightarrow> and_then (ipv6_next_header_pointer packet) (\<lambda>pointer. Ok (ParameterProblem 1 pointer))))"

lemma error_word_length: "error_word v error packet = Ok w \<Longrightarrow> length w = 4"
  by (auto simp: error_word_def and_then_Ok_iff to_be16_def to_be32_def split: IpVersion.splits IcmpErrorKind.splits)

lemma error_field_word:
  "error_field v error packet ([kind, code, 0, 0, 0, 0, 0, 0] @ z) = and_then (error_word v error packet) (\<lambda>w. Ok ([kind, code, 0, 0] @ w @ z))"
  by (cases v; cases error)
    (simp_all add: error_field_def error_word_def copy_at_def store_def to_be16_def to_be32_def and_then_assoc)

lemma ucast_small:
  fixes x :: u32
  shows "unat x \<le> u16_max \<Longrightarrow> (ucast (ucast x :: u16) :: u32) = x" "unat x \<le> u8_max \<Longrightarrow> (ucast (ucast x :: u8) :: u32) = x"
  by (simp_all add: word_unat_eq_iff unsigned_ucast_eq unsigned_take_bit_eq take_bit_nat_eq_self)

lemma error_message:
  assumes "error_word v error packet = Ok w" "(kind, code) = error_kind v error"
  shows "message_of v kind code ([kind, code, 0, 0] @ w @ quote) = reported v error packet"
  using assms by (cases v; cases error)
    (auto simp: error_word_def error_kind_def reported_def message_of_def echo_fields_def read16_Ok read32_Ok idx_Ok to_be16_def to_be32_def
      and_then_Ok_iff ucast_small not_le split: if_splits, simp_all add: be16_def)

lemma next_header_loop_no_panic: "next_header_loop n packet tlen nh pointer offset \<noteq> Panic"
  by (induction n arbitrary: nh pointer offset) (auto simp: and_then_Panic_iff idx_Panic_iff ok_or_def split: option.splits)

lemma error_word_no_panic: "error_word v error packet \<noteq> Panic"
  by (auto simp: error_word_def ipv6_next_header_pointer_def and_then_Panic_iff idx_Panic_iff read_Panic_iff next_header_loop_no_panic
      split: IpVersion.splits IcmpErrorKind.splits)

end
