(* ===== verification/Icmp_Answers.thy ===== *)
theory Icmp_Answers
  imports Icmp_Facts
begin

unbundle bit_operations_syntax

text \<open>
  Which errors are sent and what they say, and the properties of ICMP.
\<close>

definition error_about :: "ParsedIpPacket \<Rightarrow> bool" where
  "error_about ip \<longleftrightarrow> is_icmp_error ip = Ok True"

lemma is_icmp_error_bool: "is_icmp_error ip = Ok (error_about ip)"
proof -
  have "\<exists>b. is_icmp_error ip = Ok b" by (auto simp: is_icmp_error_def idx_def)
  then show ?thesis by (auto simp: error_about_def)
qed

definition suppressed :: "ParsedIpPacket \<Rightarrow> bool" where
  "suppressed ip \<longleftrightarrow> (case ip_fragment ip of None \<Rightarrow> False | Some fragment \<Rightarrow> offset_bytes fragment \<noteq> 0) \<or>
     invalid_error_address (ip_destination ip) \<or> invalid_icmp_error_source (ip_source ip) \<or> error_about ip"

definition quote_of :: "IpVersion \<Rightarrow> nat \<Rightarrow> bytes \<Rightarrow> bytes" where
  "quote_of v n packet = take (min n (max_quote v)) packet"

lemma emit_error_eq:
  assumes p: "parse_invoking le packet error = Ok ip" and n: "invoking_len (ip_version ip) packet = Ok n"
    and k: "error_kind (ip_version ip) error = (kind, code)"
  shows "emit_icmp_error le packet error hop =
    (if suppressed ip then Err (Unsupported ''ICMP error response suppressed'')
     else and_then (error_word (ip_version ip) error packet) (\<lambda>w.
       emit_icmp le (ip_destination ip) (ip_source ip) ([kind, code, 0, 0] @ w @ quote_of (ip_version ip) n packet) hop 0))"
proof -
  have n': "n \<le> length packet" using parse_well_parsed(2) [OF p] n by (simp add: well_parsed_def)
  let ?m = "min n (max_quote (ip_version ip))"
  have z: "replicate (8 + ?m) (0 :: u8) = [0, 0, 0, 0, 0, 0, 0, 0] @ replicate ?m 0" by (simp add: numeral_eq_Suc)
  have pt: "puts (replicate (8 + ?m) 0) [(0, [kind]), (1, [code])] = (Ok ([kind, code, 0, 0, 0, 0, 0, 0] @ replicate ?m 0) :: bytes wire)"
    unfolding z by (simp add: copy_at_def)
  have fin: "and_then (slice packet 0 (length ([kind, code, 0, 0] @ w @ replicate ?m 0) - 8)) (\<lambda>quote.
       and_then (copy_at ([kind, code, 0, 0] @ w @ replicate ?m 0) 8 (length ([kind, code, 0, 0] @ w @ replicate ?m 0)) quote) f) =
     f ([kind, code, 0, 0] @ w @ quote_of (ip_version ip) n packet)" if "length w = 4" for w and f :: "bytes \<Rightarrow> bytes wire"
    using that min.coboundedI1 [OF n', of "max_quote (ip_version ip)"] by (simp add: slice_def copy_at_def quote_of_def)
  have "and_then (error_word (ip_version ip) error packet) (\<lambda>w. and_then (Ok ([kind, code, 0, 0] @ w @ replicate ?m 0)) (\<lambda>icmp.
       let quote_len = length icmp - 8 in and_then (slice packet 0 quote_len) (\<lambda>quote. and_then (copy_at icmp 8 (length icmp) quote) (\<lambda>icmp.
       emit_icmp le (ip_destination ip) (ip_source ip) icmp hop 0)))) =
     and_then (error_word (ip_version ip) error packet) (\<lambda>w.
       emit_icmp le (ip_destination ip) (ip_source ip) ([kind, code, 0, 0] @ w @ quote_of (ip_version ip) n packet) hop 0)"
    by (rule and_then_cong [OF refl]) (simp only: and_then.simps Let_def fin [OF error_word_length])
  then show ?thesis
    unfolding emit_icmp_error_def p and_then.simps is_icmp_error_bool k Let_def prod.case n pt error_field_word and_then_assoc
      suppressed_def [symmetric] by (simp only:)
qed

lemma is_icmp_error_kind:
  assumes "8 \<le> length icmp"
  shows "error_about (icmp_ip s d hop (sealed le s d icmp)) \<longleftrightarrow>
    (case version_of s of IpV4 \<Rightarrow> icmp ! 0 \<in> {3, 4, 5, 11, 12} | IpV6 \<Rightarrow> 1 \<le> icmp ! 0 \<and> icmp ! 0 \<le> 4)"
proof -
  have "0 < length icmp" using assms by linarith
  then have "idx (sealed le s d icmp) 0 = (Ok (icmp ! 0) :: u8 wire)"
    using sealed_nth [OF assms, of 0 le s d] length_sealed [OF assms, of le s d] by (simp add: idx_def)
  then show ?thesis using assms length_sealed [OF assms, of le s d] by (simp add: error_about_def is_icmp_error_def icmp_ip_def)
qed

text \<open>An error that is not suppressed is sent, and what it says.\<close>

lemma emit_error_sent:
  assumes p: "parse_invoking le packet error = Ok ip" and n: "invoking_len (ip_version ip) packet = Ok n"
    and k: "error_kind (ip_version ip) error = (kind, code)" and w: "error_word (ip_version ip) error packet = Ok w" "\<not> suppressed ip"
  obtains out m where "emit_icmp_error le packet error hop = Ok out" "parsed_ok packet ip"
    "parse_ip_packet le out True = Ok (icmp_ip (ip_destination ip) (ip_source ip) hop (sealed le (ip_destination ip) (ip_source ip) ([kind, code, 0, 0] @ w @ quote_of (ip_version ip) n packet)))"
    "parse_ip_packet_for_icmp_error le out True = Ok (icmp_ip (ip_destination ip) (ip_source ip) hop (sealed le (ip_destination ip) (ip_source ip) ([kind, code, 0, 0] @ w @ quote_of (ip_version ip) n packet)))"
    "reported (ip_version ip) error packet = Ok m" "length w = 4" "length out \<le> (case ip_version ip of IpV4 \<Rightarrow> 576 | IpV6 \<Rightarrow> 1280)"
    "message_of (ip_version ip) kind code ([kind, code, 0, 0] @ w @ quote_of (ip_version ip) n packet) = Ok m"
proof -
  have lw: "length w = 4" using w(1) by (rule error_word_length)
  let ?icmp = "[kind, code, 0, 0] @ w @ quote_of (ip_version ip) n packet"
  let ?s = "ip_destination ip" and ?d = "ip_source ip"
  have po: "parsed_ok packet ip" using parse_well_parsed(2) [OF p] by (simp add: well_parsed_def)
  have f: "wf_ip ?s" "wf_ip ?d" "same_family ?s ?d" "version_of ?s = ip_version ip"
    using po parsed_version [OF po] family_swap by (auto simp: parsed_ok_def)
  have l: "8 \<le> length ?icmp" "length ?icmp \<le> 8 + max_quote (ip_version ip)" using lw by (simp_all add: quote_of_def)
  then have r: "length ?icmp \<le> icmp_room (version_of ?s)" unfolding f(4) by (cases "ip_version ip") (simp_all add: max_quote_def icmp_room_def)
  obtain out where out: "emit_icmp le ?s ?d ?icmp hop 0 = Ok out"
    "parse_ip_packet le out True = Ok (icmp_ip ?s ?d hop (sealed le ?s ?d ?icmp))"
    "parse_ip_packet_for_icmp_error le out True = Ok (icmp_ip ?s ?d hop (sealed le ?s ?d ?icmp))"
    "length out = (case version_of ?s of IpV4 \<Rightarrow> 20 | IpV6 \<Rightarrow> 40) + length ?icmp"
    by (rule emit_icmp_ok [OF f(1-3) l(1) r])
  have m: "message_of (ip_version ip) kind code ?icmp = reported (ip_version ip) error packet" by (rule error_message [OF w(1) k [symmetric]])
  have "\<exists>m. reported (ip_version ip) error packet = Ok m" using w(1)
    by (cases "ip_version ip"; cases error) (auto simp: reported_def error_word_def and_then_Ok_iff)
  then obtain msg where msg: "reported (ip_version ip) error packet = Ok msg" by blast
  have lo: "length out \<le> (case ip_version ip of IpV4 \<Rightarrow> 576 | IpV6 \<Rightarrow> 1280)"
    using out(4) l(2) unfolding f(4) by (cases "ip_version ip") (simp_all add: max_quote_def)
  have "emit_icmp_error le packet error hop = Ok out" using emit_error_eq [OF p n k, of hop] w out(1) by simp
  from that [OF this po out(2,3) msg lw lo] m msg show thesis by simp
qed

lemma emit_error_cases:
  obtains (refused) e where "emit_icmp_error le packet error hop = Err e"
  | (sent) ip n kind code w where "parse_invoking le packet error = Ok ip" "invoking_len (ip_version ip) packet = Ok n"
      "error_kind (ip_version ip) error = (kind, code)" "error_word (ip_version ip) error packet = Ok w" "\<not> suppressed ip"
proof (cases "parse_invoking le packet error")
  case (Ok ip)
  obtain n where n: "invoking_len (ip_version ip) packet = Ok n" using parse_well_parsed(2) [OF Ok] by (auto simp: well_parsed_def)
  obtain kind code where k: "error_kind (ip_version ip) error = (kind, code)" by fastforce
  show ?thesis
  proof (cases "suppressed ip \<or> (\<forall>w. error_word (ip_version ip) error packet \<noteq> Ok w)")
    case True
    then have "\<exists>e. emit_icmp_error le packet error hop = Err e"
      using emit_error_eq [OF Ok n k, of hop] error_word_no_panic [of "ip_version ip" error packet]
      by (cases "error_word (ip_version ip) error packet") auto
    then show ?thesis using refused by blast
  qed (use sent Ok n k in blast)
qed (use refused parse_ip_packet_no_panic in \<open>auto simp: emit_icmp_error_def parse_invoking_def split: IcmpErrorKind.splits\<close>)

lemma echo_reply_sent:
  assumes "parse_ip_packet le packet True = Ok ip"
    and "parse_icmp_packet le ip True = Ok \<lparr>icmp_message = EchoRequest i s, icmp_payload = data\<rparr>"
    and "\<not> invalid_error_address (ip_source ip)" "\<not> invalid_error_address (ip_destination ip)"
  shows "\<exists>reply ip'. emit_icmp_echo_reply le ip hop = Ok reply \<and> parse_ip_packet le reply True = Ok ip' \<and>
    ip_source ip' = ip_destination ip \<and> ip_destination ip' = ip_source ip \<and> ip_hop_limit ip' = hop \<and>
    parse_icmp_packet le ip' True = Ok \<lparr>icmp_message = EchoReply i s, icmp_payload = data\<rparr>"
proof -
  let ?p = "ip_payload ip" and ?s = "ip_destination ip" and ?d = "ip_source ip" and ?r = "reply_of ip"
  note D = parse_icmp_OkD [OF assms(2), simplified]
  have wp: "parsed_ok packet ip" "length ?p \<le> icmp_room (ip_version ip)" using parse_well_parsed(1) [OF assms(1)] by (simp_all add: well_parsed_def)
  have f: "wf_ip ?s" "wf_ip ?d" "same_family ?s ?d" "version_of ?s = ip_version ip"
    using wp(1) parsed_version [OF wp(1)] family_swap by (auto simp: parsed_ok_def)
  have lr: "length ?r = length ?p" "8 \<le> length ?r" using D(1) by (simp_all add: reply_of_def)
  have room: "length ?r \<le> icmp_room (version_of ?s)" "length ?r \<le> 65535" using wp(2) lr(1) room_bound [of "ip_version ip"] by (simp_all add: f(4))
  obtain out where out: "emit_icmp le ?s ?d ?r hop 0 = Ok out" "parse_ip_packet le out True = Ok (icmp_ip ?s ?d hop (sealed le ?s ?d ?r))"
    by (rule emit_icmp_ok [OF f(1-3) lr(2) room(1)])
  have rq: "?p ! 1 = 0" "i = be16 (?p ! 4) (?p ! 5)" "s = be16 (?p ! 6) (?p ! 7)" using message_of_request [OF D(2,1)] by simp_all
  have "?p \<noteq> []" using D(1) by auto
  then have n: "?r ! 0 = (case ip_version ip of IpV4 \<Rightarrow> 0 | IpV6 \<Rightarrow> 129)" "?r ! 1 = 0" "4 \<le> j \<Longrightarrow> ?r ! j = ?p ! j" for j
    using D(1) rq(1) by (auto simp: reply_of_def nth_append nth_list_update)
  have "drop 8 ?r = data" using D(1,3) by (simp add: reply_of_def)
  then have "parse_icmp_packet le (icmp_ip ?s ?d hop (sealed le ?s ?d ?r)) True = Ok \<lparr>icmp_message = EchoReply i s, icmp_payload = data\<rparr>"
    using parse_sealed [OF f(3) lr(2) room(2), of le hop] message_of_reply [OF lr(2), of "ip_version ip"] n rq(2,3) by (simp add: f(4))
  then show ?thesis using out echo_reply_emits [OF assms(2-4), of hop]
    by (intro exI [of _ out] exI [of _ "icmp_ip ?s ?d hop (sealed le ?s ?d ?r)"]) (simp add: icmp_ip_def)
qed

text \<open>A UDP packet that an error can be about.\<close>

lemma sample_error_sent:
  "\<exists>out. emit_icmp_error True (ipv4_header True 36 5 64 17 [10, 0, 0, 1] [10, 0, 0, 2] @ replicate 16 7) (TimeExceededKind 0) 64 = Ok out"
proof -
  let ?p = "ipv4_header True 36 5 64 17 [10, 0, 0, 1] [10, 0, 0, 2] @ replicate 16 7"
  let ?ip = "\<lparr>ip_version = IpV4, ip_source = V4 [10, 0, 0, 1], ip_destination = V4 [10, 0, 0, 2], ip_next_header = 17,
      ip_hop_limit = 64, ip_fragment = None, ip_fragment_payload = None, ip_payload = replicate 16 7\<rparr>"
  have "parse_ip_packet True ?p True = Ok ?ip"
    using parse_ipv4_emitted [of "[10, 0, 0, 1]" "[10, 0, 0, 2]" "replicate 16 7" True 5 64 17 True] by simp
  then have pa: "parse_invoking True ?p (TimeExceededKind 0) = Ok ?ip" by (simp add: parse_invoking_def)
  obtain n where n: "invoking_len (ip_version ?ip) ?p = Ok n" using parse_well_parsed(2) [OF pa] by (auto simp: well_parsed_def)
  have "\<not> suppressed ?ip" by (simp add: suppressed_def invalid_error_address_def invalid_icmp_error_source_def error_about_def is_icmp_error_def
      icmp_protocol_def ICMPV4_PROTOCOL_def)
  then show ?thesis using emit_error_sent [OF pa n _ _, of 11 0 "[0, 0, 0, 0]" 64] by (auto simp: error_kind_def error_word_def)
qed

section \<open>Properties\<close>

text \<open>C33: an echo request is answered. For every packet that parses to a valid echo request between unicast addresses,
\<open>emit_icmp_echo_reply\<close> returns a packet that itself parses: it goes back to the sender with the addresses exchanged, and it is
an echo reply with a correct checksum and the identifier, the sequence number and the data of the request.\<close>

theorem icmp_echo_answered:
  assumes "parse_ip_packet le packet True = Ok ip"
    and "parse_icmp_packet le ip True = Ok \<lparr>icmp_message = EchoRequest i s, icmp_payload = data\<rparr>"
    and "\<not> invalid_error_address (ip_source ip)" "\<not> invalid_error_address (ip_destination ip)"
  shows "\<exists>reply ip'. emit_icmp_echo_reply le ip hop = Ok reply \<and> parse_ip_packet le reply True = Ok ip' \<and>
    ip_source ip' = ip_destination ip \<and> ip_destination ip' = ip_source ip \<and> ip_hop_limit ip' = hop \<and>
    parse_icmp_packet le ip' True = Ok \<lparr>icmp_message = EchoReply i s, icmp_payload = data\<rparr>"
  using assms by (rule echo_reply_sent)

lemma icmp_echo_answered_witness:
  "\<exists>packet ip reply. emit_icmp True (V4 [10, 0, 0, 1]) (V4 [10, 0, 0, 2]) [8, 0, 0, 0, 0, 1, 0, 2, 7] 64 0 = Ok packet \<and>
     parse_ip_packet True packet True = Ok ip \<and> emit_icmp_echo_reply True ip 64 = Ok reply"
proof -
  let ?s = "V4 [10, 0, 0, 1]" and ?d = "V4 [10, 0, 0, 2]" and ?m = "[8, 0, 0, 0, 0, 1, 0, 2, 7] :: bytes"
  obtain packet where p: "emit_icmp True ?s ?d ?m 64 0 = Ok packet" "parse_ip_packet True packet True = Ok (icmp_ip ?s ?d 64 (sealed True ?s ?d ?m))"
    by (rule emit_icmp_ok [of ?s ?d ?m True 64 0]) (simp_all add: version_of_def icmp_room_def)
  have "parse_icmp_packet True (icmp_ip ?s ?d 64 (sealed True ?s ?d ?m)) True =
      Ok \<lparr>icmp_message = EchoRequest (be16 0 1) (be16 0 2), icmp_payload = [7]\<rparr>"
    using parse_sealed [of ?s ?d ?m True 64] by (simp add: version_of_def message_of_def echo_fields_def read16_def idx_def)
  then show ?thesis using icmp_echo_answered [OF p(2), of "be16 0 1" "be16 0 2" "[7]" 64] p
    by (auto simp: icmp_ip_def invalid_error_address_def)
qed

text \<open>C34: an ICMP error tells its receiver what happened and to which packet. Whatever packet and error \<open>emit_icmp_error\<close>
is given, an answer it returns parses, goes from the destination of the invoking packet to its source, carries a correct checksum,
reads back as the message of that error (with the path MTU cut to 16 bits and the pointer to 8 bits in ICMPv4), quotes the invoking
packet from its start up to its length, and is no longer than 576 bytes for IPv4 and 1280 bytes for IPv6.\<close>

theorem icmp_error_quotes:
  assumes "emit_icmp_error le packet error hop = Ok out"
  shows "\<exists>ip ip' m n. parse_invoking le packet error = Ok ip \<and> parse_ip_packet le out True = Ok ip' \<and>
    ip_source ip' = ip_destination ip \<and> ip_destination ip' = ip_source ip \<and> reported (ip_version ip) error packet = Ok m \<and> is_error m \<and>
    invoking_len (ip_version ip) packet = Ok n \<and>
    parse_icmp_packet le ip' True = Ok \<lparr>icmp_message = m, icmp_payload = take (min n (max_quote (ip_version ip))) packet\<rparr> \<and>
    length out \<le> (case ip_version ip of IpV4 \<Rightarrow> 576 | IpV6 \<Rightarrow> 1280)"
proof (cases rule: emit_error_cases [of le packet error hop])
  case (sent ip n kind code w)
  let ?icmp = "[kind, code, 0, 0] @ w @ quote_of (ip_version ip) n packet" and ?s = "ip_destination ip" and ?d = "ip_source ip"
  obtain m where s: "parsed_ok packet ip" "parse_ip_packet le out True = Ok (icmp_ip ?s ?d hop (sealed le ?s ?d ?icmp))"
    "reported (ip_version ip) error packet = Ok m" "length w = 4" "length out \<le> (case ip_version ip of IpV4 \<Rightarrow> 576 | IpV6 \<Rightarrow> 1280)"
    "message_of (ip_version ip) kind code ?icmp = Ok m"
    by (rule emit_error_sent [OF sent, of hop]) (use assms in simp)
  have f: "same_family ?s ?d" "version_of ?s = ip_version ip" using s(1) parsed_version [OF s(1)] family_swap by (auto simp: parsed_ok_def)
  have l: "8 \<le> length ?icmp" "length ?icmp \<le> 65535" using s(4) by (cases "ip_version ip"; simp add: quote_of_def max_quote_def)+
  have "parse_icmp_packet le (icmp_ip ?s ?d hop (sealed le ?s ?d ?icmp)) True = Ok \<lparr>icmp_message = m, icmp_payload = quote_of (ip_version ip) n packet\<rparr>"
    using parse_sealed [OF f(1) l, of le hop] s(4,6) by (simp add: f(2))
  moreover have "is_error m" using s(3)
    by (auto simp: reported_def is_error_def and_then_Ok_iff split: IcmpErrorKind.splits IpVersion.splits if_splits)
  ultimately show ?thesis using sent(1,2) s(2,3,5) unfolding quote_of_def
    by (intro exI [of _ ip] exI [of _ "icmp_ip ?s ?d hop (sealed le ?s ?d ?icmp)"] exI [of _ m] exI [of _ n]) (simp add: icmp_ip_def quote_of_def)
qed (use assms in simp)

lemma icmp_error_quotes_witness:
  "\<exists>out ip' m. emit_icmp_error True (ipv4_header True 36 5 64 17 [10, 0, 0, 1] [10, 0, 0, 2] @ replicate 16 7) (TimeExceededKind 0) 64 = Ok out \<and>
     parse_ip_packet True out True = Ok ip' \<and> parse_icmp_packet True ip' True = Ok m \<and> is_error (icmp_message m)"
proof -
  let ?p = "ipv4_header True 36 5 64 17 [10, 0, 0, 1] [10, 0, 0, 2] @ replicate 16 7"
  obtain out where out: "emit_icmp_error True ?p (TimeExceededKind 0) 64 = Ok out" using sample_error_sent by blast
  from icmp_error_quotes [OF out] obtain ip' m where m: "parse_ip_packet True out True = Ok ip'" "is_error m"
    "\<exists>q. parse_icmp_packet True ip' True = Ok \<lparr>icmp_message = m, icmp_payload = q\<rparr>" by blast
  then show ?thesis using out by (metis ParsedIcmpPacket.select_convs(1))
qed

text \<open>C35: errors do not answer errors. A packet that \<open>emit_icmp_error\<close> returned never gets an error in return, whatever the
error and whichever of the two parsers reads it.\<close>

theorem icmp_errors_not_answered:
  assumes "emit_icmp_error le packet error hop = Ok out"
  shows "emit_icmp_error le out error' hop' = Err (Unsupported ''ICMP error response suppressed'')"
proof (cases rule: emit_error_cases [of le packet error hop])
  case (sent ip n kind code w)
  let ?icmp = "[kind, code, 0, 0] @ w @ quote_of (ip_version ip) n packet" and ?s = "ip_destination ip" and ?d = "ip_source ip"
  let ?ip = "icmp_ip ?s ?d hop (sealed le ?s ?d ?icmp)"
  have s: "parsed_ok packet ip" "parse_ip_packet le out True = Ok ?ip" "parse_ip_packet_for_icmp_error le out True = Ok ?ip" "length w = 4"
    using emit_error_sent [OF sent, of hop] assms by (metis res.inject(1))+
  have v: "version_of ?s = ip_version ip" using parsed_version [OF s(1)] by simp
  have "8 \<le> length ?icmp" using s(4) by simp
  then have "error_about ?ip" using is_icmp_error_kind [of ?icmp ?s ?d hop le] sent(3)
    by (cases "ip_version ip"; cases error) (auto simp: v error_kind_def)
  then have sup: "suppressed ?ip" by (simp add: suppressed_def)
  have p: "parse_invoking le out error' = Ok ?ip" using s(2,3) by (cases error') (simp_all add: parse_invoking_def)
  obtain n' where n': "invoking_len (ip_version ?ip) out = Ok n'" using parse_well_parsed(2) [OF p] by (auto simp: well_parsed_def)
  obtain kind' code' where k': "error_kind (ip_version ?ip) error' = (kind', code')" by fastforce
  show ?thesis using emit_error_eq [OF p n' k', of hop'] sup by simp
qed (use assms in simp)

lemma icmp_errors_not_answered_witness:
  "\<exists>out. emit_icmp_error True (ipv4_header True 36 5 64 17 [10, 0, 0, 1] [10, 0, 0, 2] @ replicate 16 7) (TimeExceededKind 0) 64 = Ok out \<and>
     emit_icmp_error True out UnsupportedProtocol 64 = Err (Unsupported ''ICMP error response suppressed'')"
  using sample_error_sent icmp_errors_not_answered [where le = True and error' = UnsupportedProtocol and hop' = 64] by blast

text \<open>C36: no packet makes the ICMP code panic: parsing any packet as ICMP, building an error about any sequence of bytes,
and answering any packet that parsed all return, with a result or an error.\<close>

theorem icmp_never_panics:
  "parse_icmp_packet le ip verify \<noteq> Panic \<and> emit_icmp_error le packet error hop \<noteq> Panic \<and>
   and_then (parse_ip_packet le packet True) (\<lambda>ip. emit_icmp_echo_reply le ip hop) \<noteq> Panic"
proof -
  have "emit_icmp_error le packet error hop \<noteq> Panic"
  proof (cases rule: emit_error_cases [of le packet error hop])
    case (sent ip n kind code w)
    then show ?thesis by (metis emit_error_sent res.distinct(3))
  qed simp
  moreover have "emit_icmp_echo_reply le ip hop \<noteq> Panic" if "parse_ip_packet le packet True = Ok ip" for ip
  proof (cases "\<exists>i s data. parse_icmp_packet le ip True = Ok \<lparr>icmp_message = EchoRequest i s, icmp_payload = data\<rparr> \<and>
      \<not> invalid_error_address (ip_source ip) \<and> \<not> invalid_error_address (ip_destination ip)")
    case True
    then obtain i s data where e: "parse_icmp_packet le ip True = Ok \<lparr>icmp_message = EchoRequest i s, icmp_payload = data\<rparr>"
      "\<not> invalid_error_address (ip_source ip)" "\<not> invalid_error_address (ip_destination ip)" by blast
    from echo_reply_sent [OF that e, of hop] show ?thesis by auto
  next
    case False
    show ?thesis
    proof (cases "parse_icmp_packet le ip True")
      case (Ok m)
      obtain a b where "m = \<lparr>icmp_message = a, icmp_payload = b\<rparr>" by (cases m)
      then show ?thesis using False Ok by (auto simp: emit_icmp_echo_reply_def split: IcmpMessage.splits)
    qed (simp_all add: emit_icmp_echo_reply_def parse_icmp_no_panic)
  qed
  ultimately show ?thesis using parse_icmp_no_panic parse_ip_packet_no_panic by (auto simp: and_then_Panic_iff)
qed

end
