(* ===== verification/Spec2Isabelle.thy ===== *)
theory Spec2Isabelle
imports Tcp_Machine Timer_Service Budget_Threads Reassembly_Trip Scheduler_Rounds Icmp_Answers
begin

text \<open>
  Verification of the user-space network stack of \<^verbatim>\<open>sail\<close>
  (\<^verbatim>\<open>src/sail-netstack/src\<close>).
\<close>

end
